(* ===== verification/Prelude.thy ===== *)
theory Prelude
  imports Main "HOL-Library.Word"
begin

text \<open>
  The vocabulary every component of the development shares: the fixed-width types of the Rust
  sources, the three outcomes of a Rust function (\<open>Ok\<close>, \<open>Err\<close> and a panic), the state-passing
  form of a method on \<open>&mut self\<close>, and the rewriting rules that invert a successful run into the
  checks it passed.

  Unsigned integers are words. Plain \<open>+\<close>, \<open>-\<close> and \<open>*\<close> wrap, as they do in the release profile of
  the workspace (the \<open>Cargo.toml\<close> of the repository turns no overflow check on);
  \<open>checked_add\<close> and \<open>saturating_add\<close> are spelled out below.
\<close>

named_theorems ok_simps \<open>inversion of a successful (or failed) run into its steps\<close>
named_theorems run_defs \<open>the combinators a run is built from\<close>

section \<open>Machine types\<close>

type_synonym u64 = "64 word"
type_synonym round = u64
type_synonym version = u64
type_synonym hash_value = "256 word"
type_synonym account_address = "128 word"
type_synonym author = account_address
type_synonym public_key = "256 word"
type_synonym private_key = "256 word"
type_synonym signature = "512 word"

abbreviation u64_max :: u64 where
  "u64_max \<equiv> - 1"

definition checked_add :: "u64 \<Rightarrow> u64 \<Rightarrow> u64 option" where
  "checked_add a b = (if unat a + unat b < 2 ^ 64 then Some (a + b) else None)"

definition checked_sub :: "u64 \<Rightarrow> u64 \<Rightarrow> u64 option" where
  "checked_sub a b = (if b \<le> a then Some (a - b) else None)"

definition saturating_add :: "u64 \<Rightarrow> u64 \<Rightarrow> u64" where
  "saturating_add a b = (if unat a + unat b < 2 ^ 64 then a + b else u64_max)"

lemma checked_add_SomeD:
  "checked_add a b = Some c \<Longrightarrow> unat c = unat a + unat b"
  by (auto simp: checked_add_def unat_word_ariths split: if_splits)

lemma unat_saturating_add:
  "unat (saturating_add a b) = min (unat a + unat b) (2 ^ 64 - 1)"
  by (auto simp: saturating_add_def unat_word_ariths unsigned_minus_1_eq_mask mask_eq_exp_minus_1 min_def)

lemma checked_sub_SomeD:
  "checked_sub a b = Some c \<Longrightarrow> unat a = unat c + unat b"
  by (auto simp: checked_sub_def unat_sub word_le_nat_alt split: if_splits)

section \<open>Results\<close>

text \<open>
  A Rust function that returns \<open>Result<T, E>\<close> ends in \<open>Ok\<close>, in \<open>Err\<close>, or does not return
  because it panicked (\<open>expect\<close>, \<open>unwrap\<close>, \<open>assert!\<close>).
\<close>

datatype ('a, 'e) result = Ok 'a | Err 'e | Panic

fun bind_result :: "('a, 'e) result \<Rightarrow> ('a \<Rightarrow> ('b, 'e) result) \<Rightarrow> ('b, 'e) result" where
  "bind_result (Ok a) f = f a"
| "bind_result (Err e) f = Err e"
| "bind_result Panic f = Panic"

fun map_err :: "('e \<Rightarrow> 'f) \<Rightarrow> ('a, 'e) result \<Rightarrow> ('a, 'f) result" where
  "map_err f (Ok a) = Ok a"
| "map_err f (Err e) = Err (f e)"
| "map_err f Panic = Panic"

fun ok_or :: "'e \<Rightarrow> 'a option \<Rightarrow> ('a, 'e) result" where
  "ok_or e None = Err e"
| "ok_or e (Some a) = Ok a"

fun expect :: "'a option \<Rightarrow> ('a, 'e) result" where
  "expect None = Panic"
| "expect (Some a) = Ok a"

definition ensure :: "bool \<Rightarrow> 'e \<Rightarrow> (unit, 'e) result" where
  "ensure c e = (if c then Ok () else Err e)"

fun is_ok :: "('a, 'e) result \<Rightarrow> bool" where
  "is_ok (Ok a) = True"
| "is_ok r = False"

lemma bind_result_Ok_iff [ok_simps]:
  "bind_result m f = Ok b \<longleftrightarrow> (\<exists>a. m = Ok a \<and> f a = Ok b)"
  by (cases m) auto

lemma bind_result_cong [fundef_cong]:
  "m = m' \<Longrightarrow> (\<And>a. m' = Ok a \<Longrightarrow> f a = g a) \<Longrightarrow> bind_result m f = bind_result m' g"
  by (cases m') auto

lemma map_err_Ok_iff [ok_simps]: "map_err f m = Ok a \<longleftrightarrow> m = Ok a"
  by (cases m) auto

lemma ok_or_Ok_iff [ok_simps]: "ok_or e m = Ok a \<longleftrightarrow> m = Some a"
  by (cases m) auto

lemma expect_Ok_iff [ok_simps]: "expect m = Ok a \<longleftrightarrow> m = Some a"
  by (cases m) auto

lemma ensure_Ok_iff [ok_simps]: "ensure c e = Ok u \<longleftrightarrow> c"
  by (simp add: ensure_def)

lemma bind_result_Panic_iff:
  "bind_result m f = Panic \<longleftrightarrow> m = Panic \<or> (\<exists>a. m = Ok a \<and> f a = Panic)"
  by (cases m) auto

lemma map_err_Panic_iff [simp]: "map_err f m = Panic \<longleftrightarrow> m = Panic"
  by (cases m) auto

lemma ok_or_Panic [simp]: "ok_or e m \<noteq> Panic"
  by (cases m) auto

lemma ensure_Panic [simp]: "ensure c e \<noteq> Panic"
  by (simp add: ensure_def)

lemma is_ok_iff: "is_ok m \<longleftrightarrow> (\<exists>a. m = Ok a)"
  by (cases m) auto

lemma Ok_unit_iff: "m = Ok () \<longleftrightarrow> (\<exists>u. m = Ok u)"
  by simp

section \<open>Methods on mutable state\<close>

text \<open>
  A method on \<open>&mut self\<close> takes the state and returns its outcome with the state it leaves behind,
  on the error paths too. \<open>sbind\<close> is the \<open>?\<close> operator followed by the rest of the body.
\<close>

type_synonym ('s, 'a, 'e) stateful = "'s \<Rightarrow> ('a, 'e) result \<times> 's"

definition sbind :: "('s, 'a, 'e) stateful \<Rightarrow> ('a \<Rightarrow> ('s, 'b, 'e) stateful) \<Rightarrow> ('s, 'b, 'e) stateful" where
  "sbind m f s = (case m s of (Ok a, t) \<Rightarrow> f a t | (Err e, t) \<Rightarrow> (Err e, t) | (Panic, t) \<Rightarrow> (Panic, t))"

definition slift :: "('a, 'e) result \<Rightarrow> ('s, 'a, 'e) stateful" where
  "slift r s = (r, s)"

definition sget :: "('s \<Rightarrow> ('a, 'e) result) \<Rightarrow> ('s, 'a, 'e) stateful" where
  "sget f s = (f s, s)"

definition sput :: "('s \<Rightarrow> 's) \<Rightarrow> ('s, unit, 'e) stateful" where
  "sput f s = (Ok (), f s)"

lemma sbind_Ok_iff [ok_simps]:
  "sbind m f s = (Ok b, t) \<longleftrightarrow> (\<exists>a s'. m s = (Ok a, s') \<and> f a s' = (Ok b, t))"
  by (auto simp: sbind_def split: prod.splits result.splits)

lemma sbind_eq_iff:
  "sbind m f s = (r, t) \<longleftrightarrow>
     (\<exists>a s'. m s = (Ok a, s') \<and> f a s' = (r, t)) \<or>
     (\<exists>e. m s = (Err e, t) \<and> r = Err e) \<or> (m s = (Panic, t) \<and> r = Panic)"
  by (auto simp: sbind_def split: prod.splits result.splits)

lemma slift_iff [ok_simps]: "slift r s = (q, t) \<longleftrightarrow> r = q \<and> t = s"
  by (auto simp: slift_def)

lemma sget_iff [ok_simps]: "sget f s = (q, t) \<longleftrightarrow> f s = q \<and> t = s"
  by (auto simp: sget_def)

lemma sput_iff [ok_simps]: "sput f s = (q, t) \<longleftrightarrow> q = Ok () \<and> t = f s"
  by (auto simp: sput_def)

text \<open>
  A relation that every step of a method keeps is kept by the method: the shape of all
  monotonicity and frame arguments about \<open>&mut self\<close> methods.
\<close>

lemma sbind_keeps:
  assumes run: "sbind m f s = (r, t)"
    and trans: "\<And>x y z. R x y \<Longrightarrow> R y z \<Longrightarrow> R x z"
    and first: "\<And>q u. m s = (q, u) \<Longrightarrow> R s u"
    and rest: "\<And>a u q v. m s = (Ok a, u) \<Longrightarrow> f a u = (q, v) \<Longrightarrow> R u v"
  shows "R s t"
  using run first rest trans by (auto simp: sbind_eq_iff)

text \<open>The same as a predicate on methods, with rules that follow the structure of a body.\<close>

named_theorems keeps_intros \<open>methods whose every run stays in a relation\<close>

definition keeps :: "('s \<Rightarrow> 's \<Rightarrow> bool) \<Rightarrow> ('s, 'a, 'e) stateful \<Rightarrow> bool" where
  "keeps R m \<longleftrightarrow> (\<forall>s. R s (snd (m s)))"

lemma keepsD: "keeps R m \<Longrightarrow> m s = (r, t) \<Longrightarrow> R s t"
  unfolding keeps_def by (metis snd_conv)

lemma keeps_sbind:
  assumes "transp R" and "keeps R m" and "\<And>a. keeps R (f a)"
  shows "keeps R (sbind m f)"
  unfolding keeps_def
proof
  fix s
  obtain r t where m: "m s = (r, t)" by fastforce
  with assms(2) have "R s t" by (rule keepsD)
  moreover have "R t (snd (f a t))" for a using assms(3) by (simp add: keeps_def)
  ultimately show "R s (snd (sbind m f s))"
    using assms(1) m by (auto simp: sbind_def split: result.splits elim: transpE)
qed

lemma keeps_slift: "reflp R \<Longrightarrow> keeps R (slift r)"
  by (simp add: keeps_def slift_def reflp_def)

lemma keeps_sget: "reflp R \<Longrightarrow> keeps R (sget f)"
  by (simp add: keeps_def sget_def reflp_def)

lemmas [run_defs] = sbind_def slift_def sget_def sput_def ensure_def

section \<open>Words and lists\<close>

lemma word_less_imp_unat: "(a :: 'a::len word) < b \<Longrightarrow> unat a < unat b"
  by (simp add: word_less_nat_alt)

lemma word_le_imp_unat: "(a :: 'a::len word) \<le> b \<Longrightarrow> unat a \<le> unat b"
  by (simp add: word_le_nat_alt)

lemma unat_u64_bound: "unat (w :: u64) < 2 ^ 64"
proof -
  have "unat w < 2 ^ LENGTH(64)" by (rule unsigned_less)
  then show ?thesis by simp
qed

lemma unat_u64_less [simp]: "unat (w :: u64) < 18446744073709551616"
  using unat_u64_bound [of w] by simp

lemma sum_list_map_le_subset:
  fixes g :: "'a \<Rightarrow> nat"
  assumes "distinct xs" and "set xs \<subseteq> set ys"
  shows "sum_list (map g xs) \<le> sum_list (map g ys)"
proof -
  have "sum_list (map g xs) = sum g (set xs)"
    using assms(1) by (simp add: sum_list_distinct_conv_sum_set)
  also have "\<dots> \<le> sum g (set ys)"
    using assms(2) by (intro sum_mono2) auto
  also have "\<dots> \<le> sum_list (map g ys)"
  proof -
    have "sum g (set ys) = sum_list (map g (remdups ys))"
      by (metis distinct_remdups set_remdups sum_list_distinct_conv_sum_set)
    also have "\<dots> \<le> sum_list (map g ys)"
      by (induction ys) (auto simp: le_SucI trans_le_add2)
    finally show ?thesis .
  qed
  finally show ?thesis .
qed

end
