(* ===== verification/BTree_Map.thy ===== *)
theory BTree_Map
  imports Prelude
begin

text \<open>
  The ordered maps of the Rust standard library (\<open>std::collections::BTreeMap\<close>), which the sources
  use for validator sets and for the signatures of a certificate. A map is the list of its entries
  in strictly increasing key order, so iteration order, \<open>len\<close> and equality are those of Rust, and
  every value of the type has distinct keys.
\<close>

section \<open>Sorted entry lists\<close>

fun ins_entry :: "'k::linorder \<Rightarrow> 'v \<Rightarrow> ('k \<times> 'v) list \<Rightarrow> ('k \<times> 'v) list" where
  "ins_entry k v [] = [(k, v)]"
| "ins_entry k v ((k', v') # xs) =
     (if k < k' then (k, v) # (k', v') # xs
      else if k = k' then (k, v) # xs
      else (k', v') # ins_entry k v xs)"

fun del_entry :: "'k::linorder \<Rightarrow> ('k \<times> 'v) list \<Rightarrow> ('k \<times> 'v) list" where
  "del_entry k [] = []"
| "del_entry k ((k', v') # xs) = (if k = k' then xs else (k', v') # del_entry k xs)"

definition sorted_entries :: "('k::linorder \<times> 'v) list \<Rightarrow> bool" where
  "sorted_entries xs \<longleftrightarrow> sorted_wrt (<) (map fst xs)"

lemma sorted_entries_Nil [simp]: "sorted_entries []"
  by (simp add: sorted_entries_def)

lemma sorted_entries_Cons:
  "sorted_entries ((k, v) # xs) \<longleftrightarrow> (\<forall>k' \<in> fst ` set xs. k < k') \<and> sorted_entries xs"
  by (auto simp: sorted_entries_def)

lemma fst_ins_entry: "fst ` set (ins_entry k v xs) = insert k (fst ` set xs)"
  by (induction xs rule: ins_entry.induct) auto

lemma sorted_ins_entry: "sorted_entries xs \<Longrightarrow> sorted_entries (ins_entry k v xs)"
proof (induction k v xs rule: ins_entry.induct)
  case (1 k v)
  show ?case by (simp add: sorted_entries_Cons)
next
  case (2 k v k' v' xs)
  have "\<forall>x \<in> fst ` set (ins_entry k v xs). x = k \<or> x \<in> fst ` set xs"
    by (simp add: fst_ins_entry)
  with "2" show ?case
    by (fastforce simp: sorted_entries_Cons)
qed

lemma set_del_entry_subset: "set (del_entry k xs) \<subseteq> set xs"
  by (induction xs rule: del_entry.induct) auto

lemma sorted_del_entry: "sorted_entries xs \<Longrightarrow> sorted_entries (del_entry k xs)"
proof (induction k xs rule: del_entry.induct)
  case (2 k k' v' xs)
  then show ?case
    using set_del_entry_subset [of k xs] by (auto simp: sorted_entries_Cons)
qed simp

lemma sorted_entries_distinct: "sorted_entries xs \<Longrightarrow> distinct (map fst xs)"
  by (simp add: sorted_entries_def strict_sorted_iff)

lemma map_of_ins_entry:
  "sorted_entries xs \<Longrightarrow> map_of (ins_entry k v xs) = (map_of xs)(k \<mapsto> v)"
proof (induction k v xs rule: ins_entry.induct)
  case (2 k v k' v' xs)
  then show ?case
    by (auto simp: sorted_entries_Cons fun_eq_iff)
qed simp

lemma map_of_del_entry:
  "sorted_entries xs \<Longrightarrow> map_of (del_entry k xs) = (map_of xs)(k := None)"
proof (induction k xs rule: del_entry.induct)
  case (2 k k' v' xs)
  then show ?case
    by (auto simp: sorted_entries_Cons fun_eq_iff map_of_eq_None_iff dest: order.strict_implies_not_eq)
qed (simp add: fun_eq_iff)

section \<open>The map type\<close>

typedef (overloaded) ('k::linorder, 'v) btree_map = "{xs :: ('k \<times> 'v) list. sorted_entries xs}"
  morphisms entries Abs_btree_map
  by (rule exI [of _ "[]"]) simp

setup_lifting type_definition_btree_map

lift_definition btree_new :: "('k::linorder, 'v) btree_map" is "[]"
  by simp

lift_definition btree_insert :: "'k::linorder \<Rightarrow> 'v \<Rightarrow> ('k, 'v) btree_map \<Rightarrow> ('k, 'v) btree_map" is ins_entry
  by (rule sorted_ins_entry)

lift_definition btree_remove :: "'k::linorder \<Rightarrow> ('k, 'v) btree_map \<Rightarrow> ('k, 'v) btree_map" is del_entry
  by (rule sorted_del_entry)

definition btree_get :: "('k::linorder, 'v) btree_map \<Rightarrow> 'k \<Rightarrow> 'v option" where
  "btree_get m k = map_of (entries m) k"

definition btree_keys :: "('k::linorder, 'v) btree_map \<Rightarrow> 'k list" where
  "btree_keys m = map fst (entries m)"

definition btree_values :: "('k::linorder, 'v) btree_map \<Rightarrow> 'v list" where
  "btree_values m = map snd (entries m)"

definition btree_len :: "('k::linorder, 'v) btree_map \<Rightarrow> nat" where
  "btree_len m = length (entries m)"

definition btree_is_empty :: "('k::linorder, 'v) btree_map \<Rightarrow> bool" where
  "btree_is_empty m = (entries m = [])"

text \<open>\<open>map.entry(k).or_insert(v)\<close>: an existing entry is left alone.\<close>

definition btree_or_insert :: "'k::linorder \<Rightarrow> 'v \<Rightarrow> ('k, 'v) btree_map \<Rightarrow> ('k, 'v) btree_map" where
  "btree_or_insert k v m = (case btree_get m k of None \<Rightarrow> btree_insert k v m | Some _ \<Rightarrow> m)"

lemma entries_new [simp]: "entries btree_new = []"
  by transfer simp

lemma entries_insert [simp]: "entries (btree_insert k v m) = ins_entry k v (entries m)"
  by transfer simp

lemma entries_remove [simp]: "entries (btree_remove k m) = del_entry k (entries m)"
  by transfer simp

lemma entries_sorted: "sorted_entries (entries m)"
  using entries [of m] by simp

lemma btree_eq_iff: "m = m' \<longleftrightarrow> entries m = entries m'"
  by (simp add: entries_inject)

instantiation btree_map :: (linorder, type) equal
begin

definition equal_btree_map :: "('a, 'b) btree_map \<Rightarrow> ('a, 'b) btree_map \<Rightarrow> bool" where
  "equal_btree_map m m' \<longleftrightarrow> entries m = entries m'"

instance
  by standard (simp add: equal_btree_map_def btree_eq_iff)

end

section \<open>Laws of the map\<close>

text \<open>What the clients of a map rely on, and nothing about its representation.\<close>

locale ordered_map =
  fixes new :: "'m"
    and get :: "'m \<Rightarrow> 'k::linorder \<Rightarrow> 'v option"
    and insert :: "'k \<Rightarrow> 'v \<Rightarrow> 'm \<Rightarrow> 'm"
    and remove :: "'k \<Rightarrow> 'm \<Rightarrow> 'm"
    and keys :: "'m \<Rightarrow> 'k list"
  assumes get_new: "get new k = None"
    and get_insert: "get (insert k v m) = (get m)(k \<mapsto> v)"
    and get_remove: "get (remove k m) = (get m)(k := None)"
    and keys_dom: "set (keys m) = {k. get m k \<noteq> None}"
    and keys_sorted: "sorted_wrt (<) (keys m)"
begin

lemma keys_distinct: "distinct (keys m)"
  using keys_sorted [of m] by (simp add: strict_sorted_iff)

lemma set_keys_insert: "set (keys (insert k v m)) = Set.insert k (set (keys m))"
  by (auto simp: keys_dom get_insert)

lemma keys_new: "keys new = []"
proof -
  have "set (keys new) = {}" by (simp add: keys_dom get_new)
  then show ?thesis by simp
qed

lemma get_in_keys: "get m k = Some v \<Longrightarrow> k \<in> set (keys m)"
  by (simp add: keys_dom)

lemma in_keysE:
  assumes "k \<in> set (keys m)"
  obtains v where "get m k = Some v"
  using assms by (auto simp: keys_dom)

end

interpretation btree: ordered_map btree_new btree_get btree_insert btree_remove btree_keys
proof unfold_locales
  fix k :: "'a" and v :: "'b" and m :: "('a, 'b) btree_map"
  show "btree_get btree_new k = None"
    by (simp add: btree_get_def)
  show "btree_get (btree_insert k v m) = (btree_get m)(k \<mapsto> v)"
    by (rule ext) (simp add: btree_get_def map_of_ins_entry [OF entries_sorted])
  show "btree_get (btree_remove k m) = (btree_get m)(k := None)"
    by (rule ext) (simp add: btree_get_def map_of_del_entry [OF entries_sorted])
  show "set (btree_keys m) = {k. btree_get m k \<noteq> None}"
    by (auto simp: btree_keys_def btree_get_def map_of_eq_None_iff)
  show "sorted_wrt (<) (btree_keys m)"
    using entries_sorted [of m] by (simp add: btree_keys_def sorted_entries_def)
qed

lemmas btree_laws = btree.get_new btree.get_insert btree.get_remove

lemma btree_len_keys: "btree_len m = length (btree_keys m)"
  by (simp add: btree_len_def btree_keys_def)

lemma entries_iff_get: "(k, v) \<in> set (entries m) \<longleftrightarrow> btree_get m k = Some v"
proof -
  have "distinct (map fst (entries m))"
    by (rule sorted_entries_distinct [OF entries_sorted])
  then show ?thesis
    by (auto simp: btree_get_def)
qed

lemma btree_get_or_insert:
  "btree_get (btree_or_insert k v m) =
     (\<lambda>k'. if k' = k \<and> btree_get m k = None then Some v else btree_get m k')"
  by (auto simp: btree_or_insert_def btree.get_insert fun_eq_iff split: option.splits)

lemma set_keys_or_insert:
  "set (btree_keys (btree_or_insert k v m)) = insert k (set (btree_keys m))"
  by (auto simp: btree.keys_dom btree_get_or_insert)

lemma btree_keys_get: "k \<in> set (btree_keys m) \<longleftrightarrow> (\<exists>v. btree_get m k = Some v)"
  by (simp add: btree.keys_dom)

lemma btree_keys_new [simp]: "btree_keys btree_new = []"
  by (rule btree.keys_new)

lemma btree_is_empty_iff: "btree_is_empty m \<longleftrightarrow> m = btree_new"
  by (simp add: btree_is_empty_def btree_eq_iff)

end
