(* ===== verification/Diem_Types.thy ===== *)
theory Diem_Types
  imports BTree_Map
begin

text \<open>
  The data the consensus components exchange: the structs and enums of \<open>types/src\<close> and
  \<open>consensus/consensus-types/src\<close>, field by field. A struct is a record whose selectors are the
  getters of the Rust type; an enum is a datatype with the source's variants. Messages of
  \<open>anyhow\<close> errors are kept with their literal text and without interpolated values.

  The cryptography that the repository takes from third-party crates (SHA3, Ed25519) is the record
  \<open>crypto\<close>, a parameter of every definition that hashes, signs or verifies. Its argument type
  \<open>crypto_hash\<close> lists the structs that implement \<open>CryptoHash\<close>: the derived hasher of each struct is
  seeded with the struct's name, so values of different structs are different messages.
\<close>

section \<open>Errors\<close>

datatype verify_error =
    UnknownAuthor
  | TooLittleVotingPower u64 u64
  | TooManySignatures nat nat
  | InvalidSignature
  | InconsistentBlockInfo

datatype anyhow =
    Msg string
  | From_Verify_Error verify_error
  | Context string anyhow
  | Debug_Format anyhow

section \<open>Validators and epochs\<close>

record validator_signer =
  vs_author :: account_address
  vs_private_key :: private_key

record validator_consensus_info =
  vci_public_key :: public_key
  vci_voting_power :: u64

record validator_verifier =
  address_to_validator_info :: "(account_address, validator_consensus_info) btree_map"
  quorum_voting_power :: u64
  total_voting_power :: u64

record epoch_state =
  es_epoch :: u64
  es_verifier :: validator_verifier

section \<open>Blocks seen from the ledger\<close>

record block_info =
  bi_epoch :: u64
  bi_round :: round
  bi_id :: hash_value
  bi_executed_state_id :: hash_value
  bi_version :: version
  bi_timestamp_usecs :: u64
  bi_next_epoch_state :: "epoch_state option"

record ledger_info =
  li_commit_info :: block_info
  li_consensus_data_hash :: hash_value

text \<open>
  The enum \<open>LedgerInfoWithSignatures\<close> has the single variant \<open>V0(LedgerInfoWithV0)\<close> and
  dereferences to it; the record is that payload.
\<close>

record ledger_info_with_signatures =
  lis_ledger_info :: ledger_info
  lis_signatures :: "(account_address, signature) btree_map"

record waypoint =
  wp_version :: version
  wp_value :: hash_value

record ledger2waypoint_converter =
  l2w_epoch :: u64
  l2w_root_hash :: hash_value
  l2w_version :: version
  l2w_timestamp_usecs :: u64
  l2w_next_epoch_state :: "epoch_state option"

record epoch_change_proof =
  ledger_info_with_sigs :: "ledger_info_with_signatures list"
  ecp_more :: bool

section \<open>Consensus messages\<close>

text \<open>A transaction of a block's payload is kept as its serialized bytes.\<close>

type_synonym signed_transaction = "8 word list"
type_synonym payload = "signed_transaction list"

record vote_data =
  vd_proposed :: block_info
  vd_parent :: block_info

record quorum_cert =
  qc_vote_data :: vote_data
  qc_signed_ledger_info :: ledger_info_with_signatures

datatype block_type = Proposal payload author | NilBlock | Genesis

record block_data =
  bd_epoch :: u64
  bd_round :: round
  bd_timestamp_usecs :: u64
  bd_quorum_cert :: quorum_cert
  bd_block_type :: block_type

record block =
  b_id :: hash_value
  b_block_data :: block_data
  b_signature :: "signature option"

record timeout =
  to_epoch :: u64
  to_round :: round

record timeout_certificate =
  tc_timeout :: timeout
  tc_signatures :: "(author, signature) btree_map"

record two_chain_timeout =
  tct_epoch :: u64
  tct_round :: round
  tct_quorum_cert :: quorum_cert

record timeout_signing_repr =
  tsr_epoch :: u64
  tsr_round :: round
  tsr_hqc_round :: round

record two_chain_timeout_certificate =
  tctc_timeout :: two_chain_timeout
  tctc_signatures :: "(author, round \<times> signature) btree_map"

record vote =
  v_vote_data :: vote_data
  v_author :: author
  v_ledger_info :: ledger_info
  v_signature :: signature
  v_timeout_signature :: "signature option"
  v_two_chain_timeout :: "(two_chain_timeout \<times> signature) option"

record accumulator_extension_proof =
  aep_frozen_subtree_roots :: "hash_value list"
  aep_num_leaves :: u64
  aep_leaves :: "hash_value list"

record vote_proposal =
  vp_accumulator_extension_proof :: accumulator_extension_proof
  vp_block :: block
  vp_next_epoch_state :: "epoch_state option"
  vp_decoupled_execution :: bool

record maybe_signed_vote_proposal =
  msvp_vote_proposal :: vote_proposal
  msvp_signature :: "signature option"

record sync_info =
  si_highest_quorum_cert :: quorum_cert
  si_highest_ordered_cert :: "quorum_cert option"
  si_highest_ledger_info :: "ledger_info_with_signatures option"
  si_highest_timeout_cert :: "timeout_certificate option"
  si_highest_2chain_timeout_cert :: "two_chain_timeout_certificate option"

record proposal_msg =
  pm_proposal :: block
  pm_sync_info :: sync_info

record vote_msg =
  vm_vote :: vote
  vm_sync_info :: sync_info

record safety_data =
  sd_epoch :: u64
  sd_last_voted_round :: u64
  sd_preferred_round :: u64
  sd_one_chain_round :: u64
  sd_last_vote :: "vote option"

section \<open>Cryptography as a parameter\<close>

datatype crypto_hash =
    H_LedgerInfo ledger_info
  | H_VoteData vote_data
  | H_BlockData block_data
  | H_Timeout timeout
  | H_TimeoutSigningRepr timeout_signing_repr
  | H_VoteProposal vote_proposal
  | H_Ledger2WaypointConverter ledger2waypoint_converter

record crypto =
  hash_of :: "crypto_hash \<Rightarrow> hash_value"
  verify_struct_signature :: "public_key \<Rightarrow> crypto_hash \<Rightarrow> signature \<Rightarrow> bool"
  batch_verify :: "crypto_hash \<Rightarrow> (public_key \<times> signature) list \<Rightarrow> bool"
  sign_message :: "private_key \<Rightarrow> crypto_hash \<Rightarrow> signature"
  public_key_of :: "private_key \<Rightarrow> public_key"
  txn_node_hash :: "hash_value \<Rightarrow> hash_value \<Rightarrow> hash_value"

text \<open>
  What the code relies on of batch verification, the documented contract of
  \<open>Signature::batch_verify\<close>: a batch is accepted only if each of its signatures is valid.
\<close>

definition batch_sound :: "crypto \<Rightarrow> bool" where
  "batch_sound C \<longleftrightarrow>
     (\<forall>m ks. batch_verify C m ks \<longrightarrow> (\<forall>(pk, sig) \<in> set ks. verify_struct_signature C pk m sig))"

text \<open>
  The literal hash \<open>create_literal_hash("ACCUMULATOR_PLACEHOLDER_HASH")\<close>: the 28 ASCII bytes of the
  name, padded with zero bytes to 32.
\<close>

definition accumulator_placeholder_hash :: hash_value where
  "accumulator_placeholder_hash =
     0x414343554d554c41544f525f504c414345484f4c4445525f4841534800000000"

end
