(* ===== verification/Accumulator.thy ===== *)
theory Accumulator
  imports Diem_Types
begin

unbundle bit_operations_syntax

text \<open>
  \<open>types/src/proof/accumulator/mod.rs\<close>: the in-memory Merkle accumulator that keeps the roots of the
  maximal full subtrees, and the proofs of \<open>types/src/proof/definition.rs\<close> that are checked with it.
  The parameter \<open>H\<close> is the hash of \<open>MerkleTreeInternalNode\<close> for the accumulator's hasher.
\<close>

section \<open>Bit counting on u64\<close>

fun count_ones_nat :: "nat \<Rightarrow> nat" where
  "count_ones_nat n = (if n = 0 then 0 else n mod 2 + count_ones_nat (n div 2))"

fun trailing_zeros_nat :: "nat \<Rightarrow> nat" where
  "trailing_zeros_nat n = (if n = 0 then 0 else if odd n then 0 else Suc (trailing_zeros_nat (n div 2)))"

declare count_ones_nat.simps [simp del] trailing_zeros_nat.simps [simp del]

definition count_ones :: "u64 \<Rightarrow> nat" where
  "count_ones w = count_ones_nat (unat w)"

definition trailing_zeros :: "u64 \<Rightarrow> nat" where
  "trailing_zeros w = (if w = 0 then 64 else trailing_zeros_nat (unat w))"

section \<open>The accumulator\<close>

type_synonym node_hash = "hash_value \<Rightarrow> hash_value \<Rightarrow> hash_value"

record in_memory_accumulator =
  acc_frozen_subtree_roots :: "hash_value list"
  acc_num_leaves :: u64
  acc_root_hash :: hash_value

definition max_accumulator_leaves :: u64 where
  "max_accumulator_leaves = 2 ^ 63"

text \<open>\<open>Vec::pop\<close>: the last element and the vector without it.\<close>

definition vec_pop :: "'a list \<Rightarrow> ('a \<times> 'a list) option" where
  "vec_pop xs = (if xs = [] then None else Some (last xs, butlast xs))"

lemma unat_drop_bit_less:
  fixes w :: u64
  assumes "w \<noteq> 0"
  shows "unat (drop_bit (Suc 0) w) < unat w"
  using assms by (simp add: drop_bit_eq_div unat_div unat_gt_0)

text \<open>
  The loop of \<open>compute_root_hash\<close>, from the lowest frozen subtree upwards. The iterator over the
  reversed roots is the list \<open>it\<close>; running past its end is the \<open>expect\<close> of the source.
\<close>

function root_hash_loop :: "node_hash \<Rightarrow> u64 \<Rightarrow> hash_value list \<Rightarrow> hash_value \<Rightarrow> (hash_value, anyhow) result" where
  "root_hash_loop H bitmap it current =
     (if bitmap = 0 then Ok current
      else if bitmap AND 1 \<noteq> 0
      then (case it of
              [] \<Rightarrow> Panic
            | r # it' \<Rightarrow> root_hash_loop H (drop_bit 1 bitmap) it' (H r current))
      else root_hash_loop H (drop_bit 1 bitmap) it (H current accumulator_placeholder_hash))"
  by pat_completeness auto
termination
  by (relation "measure (\<lambda>(H, bitmap, it, current). unat bitmap)") (auto simp: unat_drop_bit_less)

declare root_hash_loop.simps [simp del]

definition compute_root_hash :: "node_hash \<Rightarrow> hash_value list \<Rightarrow> u64 \<Rightarrow> (hash_value, anyhow) result" where
  "compute_root_hash H roots n =
     (case roots of
        [] \<Rightarrow> Ok accumulator_placeholder_hash
      | [r] \<Rightarrow> Ok r
      | _ \<Rightarrow> root_hash_loop H (drop_bit (trailing_zeros n) n) (rev roots) accumulator_placeholder_hash)"

definition accumulator_new :: "node_hash \<Rightarrow> hash_value list \<Rightarrow> u64 \<Rightarrow> (in_memory_accumulator, anyhow) result" where
  "accumulator_new H roots n =
     bind_result (ensure (length roots = count_ones n)
        (Msg ''The number of frozen subtrees does not match the number of leaves.'')) (\<lambda>_.
     bind_result (compute_root_hash H roots n) (\<lambda>root.
       Ok \<lparr>acc_frozen_subtree_roots = roots, acc_num_leaves = n, acc_root_hash = root\<rparr>))"

text \<open>The carry loop of \<open>append_one\<close>, run \<open>k\<close> times.\<close>

fun merge_last :: "node_hash \<Rightarrow> nat \<Rightarrow> hash_value list \<Rightarrow> (hash_value list, anyhow) result" where
  "merge_last H 0 roots = Ok roots"
| "merge_last H (Suc k) roots =
     bind_result (expect (vec_pop roots)) (\<lambda>(right, roots1).
     bind_result (expect (vec_pop roots1)) (\<lambda>(left, roots2).
       merge_last H k (roots2 @ [H left right])))"

definition append_one :: "node_hash \<Rightarrow> hash_value list \<Rightarrow> u64 \<Rightarrow> hash_value \<Rightarrow> (hash_value list, anyhow) result" where
  "append_one H roots n leaf = merge_last H (trailing_zeros (NOT n)) (roots @ [leaf])"

fun append_loop :: "node_hash \<Rightarrow> hash_value list \<Rightarrow> u64 \<Rightarrow> hash_value list \<Rightarrow> (hash_value list \<times> u64, anyhow) result" where
  "append_loop H roots n [] = Ok (roots, n)"
| "append_loop H roots n (leaf # leaves) =
     bind_result (append_one H roots n leaf) (\<lambda>roots'. append_loop H roots' (n + 1) leaves)"

text \<open>\<open>expect\<close> on a \<open>Result\<close>: an error is a panic.\<close>

fun expect_result :: "('a, 'e) result \<Rightarrow> ('a, 'f) result" where
  "expect_result (Ok a) = Ok a"
| "expect_result (Err e) = Panic"
| "expect_result Panic = Panic"

definition accumulator_append :: "node_hash \<Rightarrow> in_memory_accumulator \<Rightarrow> hash_value list \<Rightarrow> (in_memory_accumulator, anyhow) result" where
  "accumulator_append H acc leaves =
     bind_result (append_loop H (acc_frozen_subtree_roots acc) (acc_num_leaves acc) leaves) (\<lambda>(roots, n).
       expect_result (accumulator_new H roots n))"

definition accumulator_default :: "node_hash \<Rightarrow> (in_memory_accumulator, anyhow) result" where
  "accumulator_default H = expect_result (accumulator_new H [] 0)"

definition accumulator_from_leaves :: "node_hash \<Rightarrow> hash_value list \<Rightarrow> (in_memory_accumulator, anyhow) result" where
  "accumulator_from_leaves H leaves =
     bind_result (accumulator_default H) (\<lambda>acc. accumulator_append H acc leaves)"

definition accumulator_version :: "in_memory_accumulator \<Rightarrow> version" where
  "accumulator_version acc = (if acc_num_leaves acc = 0 then 0 else acc_num_leaves acc - 1)"

definition accumulator_is_empty :: "in_memory_accumulator \<Rightarrow> bool" where
  "accumulator_is_empty acc \<longleftrightarrow> acc_num_leaves acc = 0"

text \<open>
  The loops of \<open>append_subtrees\<close>. The inner loop pops one frozen root per round, so it ends after at
  most \<open>length roots\<close> rounds; the outer one consumes one subtree per round.
\<close>

function carry_loop ::
    "node_hash \<Rightarrow> u64 \<Rightarrow> u64 \<Rightarrow> hash_value list \<Rightarrow> hash_value \<Rightarrow> (hash_value list \<times> hash_value \<times> u64, anyhow) result" where
  "carry_loop H n mask_bit roots current =
     (if n AND mask_bit \<noteq> 0
      then (case vec_pop roots of
              None \<Rightarrow> Panic
            | Some (left, roots') \<Rightarrow> carry_loop H n (push_bit 1 mask_bit) roots' (H left current))
      else Ok (roots, current, mask_bit))"
  by pat_completeness auto
termination
  by (relation "measure (\<lambda>(H, n, mask_bit, roots, current). length roots)")
    (auto simp: vec_pop_def split: if_splits)

declare carry_loop.simps [simp del]

fun subtrees_loop ::
    "node_hash \<Rightarrow> hash_value list \<Rightarrow> u64 \<Rightarrow> u64 \<Rightarrow> u64 \<Rightarrow> hash_value list
     \<Rightarrow> (hash_value list \<times> u64 \<times> u64 \<times> hash_value list, anyhow) result" where
  "subtrees_loop H roots n remaining sz [] =
     (if sz \<le> remaining then Err (Msg ''Too few subtrees.'') else Ok (roots, n, remaining, []))"
| "subtrees_loop H roots n remaining sz (subtree # it) =
     (if sz \<le> remaining
      then bind_result (carry_loop H n sz roots subtree) (\<lambda>(roots', current, mask_bit).
             subtrees_loop H (roots' @ [current]) (n + sz) (remaining - sz) mask_bit it)
      else Ok (roots, n, remaining, subtree # it))"

definition append_subtrees ::
    "node_hash \<Rightarrow> in_memory_accumulator \<Rightarrow> hash_value list \<Rightarrow> u64 \<Rightarrow> (in_memory_accumulator, anyhow) result" where
  "append_subtrees H acc subtrees num_new_leaves =
     bind_result (ensure (num_new_leaves \<le> max_accumulator_leaves - acc_num_leaves acc)
        (Msg ''Too many new leaves.'')) (\<lambda>_.
     if acc_num_leaves acc = 0 then accumulator_new H subtrees num_new_leaves
     else bind_result (subtrees_loop H (acc_frozen_subtree_roots acc) (acc_num_leaves acc) num_new_leaves
                         (push_bit (trailing_zeros (acc_num_leaves acc)) 1) subtrees)
            (\<lambda>(roots, n, remaining, it). accumulator_new H (roots @ it) (n + remaining)))"

section \<open>Inclusion proofs and extension proofs\<close>

definition max_accumulator_proof_depth :: nat where
  "max_accumulator_proof_depth = 63"

definition proof_step :: "node_hash \<Rightarrow> hash_value \<Rightarrow> hash_value \<times> u64 \<Rightarrow> hash_value \<times> u64" where
  "proof_step H sibling = (\<lambda>(h, index).
     (if index mod 2 = 0 then H h sibling else H sibling h, index div 2))"

text \<open>\<open>AccumulatorProof::verify\<close>; the struct is the list of its siblings.\<close>

definition accumulator_proof_verify ::
    "node_hash \<Rightarrow> hash_value list \<Rightarrow> hash_value \<Rightarrow> hash_value \<Rightarrow> u64 \<Rightarrow> (unit, anyhow) result" where
  "accumulator_proof_verify H siblings expected_root_hash element_hash element_index =
     bind_result (ensure (length siblings \<le> max_accumulator_proof_depth)
        (Msg ''Accumulator proof has too many siblings.'')) (\<lambda>_.
       ensure (fst (fold (proof_step H) siblings (element_hash, element_index)) = expected_root_hash)
        (Msg ''Root hashes do not match.''))"

definition aep_verify ::
    "node_hash \<Rightarrow> accumulator_extension_proof \<Rightarrow> hash_value \<Rightarrow> (in_memory_accumulator, anyhow) result" where
  "aep_verify H p original_root =
     bind_result (accumulator_new H (aep_frozen_subtree_roots p) (aep_num_leaves p)) (\<lambda>tree.
     bind_result (ensure (acc_root_hash tree = original_root) (Msg ''Root hashes do not match.'')) (\<lambda>_.
       accumulator_append H tree (aep_leaves p)))"

end
