(* ===== verification/Accumulator_Spec.thy ===== *)
theory Accumulator_Spec
  imports Accumulator
begin

unbundle bit_operations_syntax

text \<open>
  What the accumulator promises: its root is the root of the Merkle tree over its leaves, padded
  with the placeholder hash. The reference tree is defined by recursion on its depth; the frozen
  subtree roots are the roots of the full trees given by the binary digits of the number of leaves.
  The lemmas show that \<open>append\<close> refines appending to the list of leaves, that it never panics
  on a represented accumulator, and that inclusion proofs are complete and sound.
\<close>

section \<open>The reference tree\<close>

fun merkle :: "node_hash \<Rightarrow> nat \<Rightarrow> hash_value list \<Rightarrow> hash_value" where
  "merkle H 0 xs = (if xs = [] then accumulator_placeholder_hash else hd xs)"
| "merkle H (Suc d) xs =
     (if xs = [] then accumulator_placeholder_hash
      else H (merkle H d (take (2 ^ d) xs)) (merkle H d (drop (2 ^ d) xs)))"

text \<open>The depth of the smallest perfect tree with room for \<open>n\<close> leaves.\<close>

fun bit_length :: "nat \<Rightarrow> nat" where
  "bit_length n = (if n = 0 then 0 else Suc (bit_length (n div 2)))"

declare bit_length.simps [simp del]

definition tree_depth :: "nat \<Rightarrow> nat" where
  "tree_depth n = bit_length (n - 1)"

definition merkle_root :: "node_hash \<Rightarrow> hash_value list \<Rightarrow> hash_value" where
  "merkle_root H xs = merkle H (tree_depth (length xs)) xs"

text \<open>The roots of the full subtrees of fewer than \<open>2 ^ d\<close> leaves, from left to right.\<close>

fun frozen :: "node_hash \<Rightarrow> nat \<Rightarrow> hash_value list \<Rightarrow> hash_value list" where
  "frozen H 0 xs = []"
| "frozen H (Suc d) xs =
     (if 2 ^ d \<le> length xs then merkle H d (take (2 ^ d) xs) # frozen H d (drop (2 ^ d) xs)
      else frozen H d xs)"

definition represents :: "node_hash \<Rightarrow> in_memory_accumulator \<Rightarrow> hash_value list \<Rightarrow> bool" where
  "represents H acc xs \<longleftrightarrow>
     length xs < 2 ^ 64 \<and> acc_num_leaves acc = of_nat (length xs) \<and>
     acc_frozen_subtree_roots acc = frozen H 64 xs \<and> acc_root_hash acc = merkle_root H xs"

section \<open>Binary digits\<close>

lemma merkle_Nil [simp]: "merkle H d [] = accumulator_placeholder_hash"
  by (cases d) auto

lemma frozen_Nil [simp]: "frozen H d [] = []"
  by (induction d) auto

lemma count_ones_nat_0 [simp]: "count_ones_nat 0 = 0"
  by (simp add: count_ones_nat.simps)

lemma count_ones_nat_double: "count_ones_nat (2 * n) = count_ones_nat n"
  by (subst count_ones_nat.simps) (auto simp: count_ones_nat.simps)

lemma count_ones_nat_Suc_double: "count_ones_nat (Suc (2 * n)) = Suc (count_ones_nat n)"
  by (subst count_ones_nat.simps) auto

lemma count_ones_nat_top:
  "n < 2 ^ d \<Longrightarrow> count_ones_nat (2 ^ d + n) = Suc (count_ones_nat n)"
proof (induction d arbitrary: n)
  case 0
  then show ?case by (simp add: count_ones_nat.simps)
next
  case (Suc d)
  have d: "(2 ^ Suc d + n) div 2 = 2 ^ d + n div 2" "(2 ^ Suc d + n) mod 2 = n mod 2"
    by (simp_all add: div_add1_eq)
  have "count_ones_nat (2 ^ Suc d + n) = n mod 2 + count_ones_nat (2 ^ d + n div 2)"
    by (subst count_ones_nat.simps) (use d in simp)
  also have "\<dots> = n mod 2 + Suc (count_ones_nat (n div 2))"
    using Suc.prems by (subst Suc.IH) auto
  also have "\<dots> = Suc (count_ones_nat n)"
    by (cases "n = 0") (simp_all add: count_ones_nat.simps [of n])
  finally show ?case .
qed

lemma length_frozen: "length xs < 2 ^ d \<Longrightarrow> length (frozen H d xs) = count_ones_nat (length xs)"
proof (induction d arbitrary: xs)
  case (Suc d)
  show ?case
  proof (cases "2 ^ d \<le> length xs")
    case True
    then have e: "length xs = 2 ^ d + (length xs - 2 ^ d)" by simp
    have lt: "length xs - 2 ^ d < 2 ^ d" using Suc.prems True by simp
    have "length (frozen H (Suc d) xs) = Suc (count_ones_nat (length xs - 2 ^ d))"
      using True Suc.IH [of "drop (2 ^ d) xs"] lt by simp
    then show ?thesis using count_ones_nat_top [OF lt] e by simp
  next
    case False
    then show ?thesis using Suc.IH by simp
  qed
qed simp

lemma frozen_Suc_small: "length xs < 2 ^ d \<Longrightarrow> frozen H (Suc d) xs = frozen H d xs"
  by simp

lemma frozen_depth_irrelevant:
  "length xs < 2 ^ d \<Longrightarrow> d \<le> e \<Longrightarrow> frozen H e xs = frozen H d xs"
proof (induction e)
  case (Suc e)
  show ?case
  proof (cases "d = Suc e")
    case False
    with Suc have "length xs < 2 ^ e" by (meson le_SucE less_le_trans one_le_numeral power_increasing)
    with Suc False show ?thesis by simp
  qed simp
qed simp

section \<open>Appending one leaf\<close>

text \<open>The number of carries of \<open>n + 1\<close>: the trailing ones of \<open>n\<close>.\<close>

function trailing_ones :: "nat \<Rightarrow> nat" where
  "trailing_ones n = (if odd n then Suc (trailing_ones (n div 2)) else 0)"
  by pat_completeness auto
termination
  by (relation "measure id") (auto elim!: oddE)

declare trailing_ones.simps [simp del]

lemma trailing_ones_double [simp]: "trailing_ones (2 * n) = 0"
  by (simp add: trailing_ones.simps)

lemma trailing_ones_Suc_double [simp]: "trailing_ones (Suc (2 * n)) = Suc (trailing_ones n)"
  by (subst trailing_ones.simps) simp

lemma trailing_ones_0 [simp]: "trailing_ones 0 = 0"
  by (simp add: trailing_ones.simps)

lemma trailing_ones_mersenne: "trailing_ones (2 ^ d - 1) = d"
proof (induction d)
  case (Suc d)
  obtain m where m: "(2 :: nat) ^ d = Suc m"
    using not0_implies_Suc [of "2 ^ d"] by auto
  with Suc show ?case by simp
qed simp

lemma trailing_ones_top:
  "n < 2 ^ d - 1 \<Longrightarrow> trailing_ones (2 ^ d + n) = trailing_ones n"
proof (induction d arbitrary: n)
  case (Suc d)
  show ?case
  proof (cases "odd n")
    case True
    then obtain m where m: "n = Suc (2 * m)" by (auto elim!: oddE)
    with Suc.prems have "m < 2 ^ d - 1" by auto
    then have "trailing_ones (2 ^ d + m) = trailing_ones m" by (rule Suc.IH)
    moreover have "2 ^ Suc d + n = Suc (2 * (2 ^ d + m))" using m by simp
    ultimately show ?thesis using m by (simp only: trailing_ones_Suc_double)
  next
    case False
    then show ?thesis by (simp add: trailing_ones.simps)
  qed
qed simp

text \<open>The carry loop in two stages.\<close>

lemma merge_last_add:
  "merge_last H (j + k) roots = bind_result (merge_last H j roots) (merge_last H k)"
proof (induction j arbitrary: roots)
  case (Suc j)
  show ?case
    by (cases "vec_pop roots") (auto simp: Suc vec_pop_def)
qed simp

lemma merge_last_one: "merge_last H (Suc 0) (pre @ [l, r]) = Ok (pre @ [H l r])"
  by (simp add: vec_pop_def butlast_append)

lemma merge_last_frozen:
  assumes "length xs < 2 ^ d"
  shows "merge_last H (trailing_ones (length xs)) (pre @ frozen H d xs @ [x])
    = Ok (pre @ frozen H (Suc d) (xs @ [x]))"
  using assms
proof (induction d arbitrary: xs pre)
  case (Suc d)
  show ?case
  proof (cases "2 ^ d \<le> length xs")
    case False
    with Suc.IH [of xs pre] show ?thesis by simp
  next
    case True
    let ?P = "take (2 ^ d) xs" and ?R = "drop (2 ^ d) xs"
    have lR: "length ?R < 2 ^ d" and len: "length xs = 2 ^ d + length ?R"
      using Suc.prems True by simp_all
    have fr: "frozen H (Suc d) xs = merkle H d ?P # frozen H d ?R"
      using True by simp
    have IH: "merge_last H (trailing_ones (length ?R)) ((pre @ [merkle H d ?P]) @ frozen H d ?R @ [x])
        = Ok ((pre @ [merkle H d ?P]) @ frozen H (Suc d) (?R @ [x]))"
      by (rule Suc.IH [OF lR])
    show ?thesis
    proof (cases "length ?R < 2 ^ d - 1")
      case small: True
      then have t: "trailing_ones (length xs) = trailing_ones (length ?R)"
        by (subst len) (rule trailing_ones_top)
      have l1: "length (xs @ [x]) < 2 ^ Suc d" and l2: "2 ^ d \<le> length (xs @ [x])"
        and l3: "length (?R @ [x]) < 2 ^ d"
        using small True by auto
      have f1: "frozen H (Suc d) (xs @ [x]) = merkle H d ?P # frozen H d (?R @ [x])"
        using l2 True by simp
      show ?thesis
        unfolding t fr frozen_Suc_small [OF l1] f1
        using IH unfolding frozen_Suc_small [OF l3] by simp
    next
      case False
      with lR have full: "length ?R = 2 ^ d - 1" by simp
      have xs1: "length (xs @ [x]) = 2 ^ Suc d" using len full by (simp del: length_drop)
      have xs0: "length xs = 2 ^ Suc d - 1" using xs1 by simp
      have t: "trailing_ones (length xs) = trailing_ones (length ?R) + Suc 0"
        unfolding xs0 full trailing_ones_mersenne by simp
      have one: "frozen H (Suc d) (?R @ [x]) = [merkle H d (?R @ [x])]"
        using full by simp
      have "merge_last H (trailing_ones (length xs)) (pre @ frozen H (Suc d) xs @ [x])
          = bind_result (Ok (pre @ [merkle H d ?P, merkle H d (?R @ [x])])) (merge_last H (Suc 0))"
        unfolding t merge_last_add fr using IH one by simp
      also have "\<dots> = Ok (pre @ [H (merkle H d ?P) (merkle H d (?R @ [x]))])"
        by (simp only: bind_result.simps merge_last_one)
      also have "\<dots> = Ok (pre @ frozen H (Suc (Suc d)) (xs @ [x]))"
        using xs1 True by simp
      finally show ?thesis .
    qed
  qed
qed simp

lemma trailing_zeros_nat_not:
  "n < 2 ^ d - 1 \<Longrightarrow> trailing_zeros_nat (2 ^ d - 1 - n) = trailing_ones n"
proof (induction d arbitrary: n)
  case (Suc d)
  show ?case
  proof (cases "odd n")
    case True
    then obtain m where m: "n = Suc (2 * m)" by (auto elim!: oddE)
    with Suc.prems have lt: "m < 2 ^ d - 1" by auto
    then have e: "2 ^ Suc d - 1 - n = 2 * (2 ^ d - 1 - m)" using m by simp
    show ?thesis
      unfolding e using lt m Suc.IH [OF lt] by (subst trailing_zeros_nat.simps) simp
  next
    case False
    with Suc.prems have "odd (2 ^ Suc d - 1 - n)" by auto
    then show ?thesis
      using False by (simp add: trailing_ones.simps [of n] trailing_zeros_nat.simps)
  qed
qed simp

lemma trailing_zeros_not:
  assumes "n < 2 ^ 64 - 1"
  shows "trailing_zeros (NOT (of_nat n :: u64)) = trailing_ones n"
proof -
  have "NOT (of_nat n :: u64) = - 1 - of_nat n"
    by (simp add: not_eq_complement)
  moreover have "unat (- 1 - (of_nat n :: u64)) = unat (- 1 :: u64) - unat (of_nat n :: u64)"
    by (rule unat_sub) simp
  ultimately have "unat (NOT (of_nat n :: u64)) = 2 ^ 64 - 1 - n"
    using assms by (simp add: unsigned_minus_1_eq_mask mask_eq_exp_minus_1 unat_of_nat)
  then show ?thesis
    using assms trailing_zeros_nat_not [of n 64]
    by (auto simp: trailing_zeros_def)
qed

lemma append_one_frozen:
  assumes "length xs + 1 < 2 ^ 64"
  shows "append_one H (frozen H 64 xs) (of_nat (length xs)) x = Ok (frozen H 64 (xs @ [x]))"
proof -
  have l: "length xs < 2 ^ 64" "length xs < 2 ^ 64 - 1" "length (xs @ [x]) < 2 ^ 64"
    using assms by simp_all
  have "merge_last H (trailing_ones (length xs)) ([] @ frozen H 64 xs @ [x])
      = Ok ([] @ frozen H (Suc 64) (xs @ [x]))"
    by (rule merge_last_frozen [OF l(1)])
  then show ?thesis
    unfolding append_one_def trailing_zeros_not [OF l(2)] frozen_Suc_small [OF l(3)] by simp
qed

lemma append_loop_frozen:
  "length xs + length ys < 2 ^ 64 \<Longrightarrow>
     append_loop H (frozen H 64 xs) (of_nat (length xs)) ys
       = Ok (frozen H 64 (xs @ ys), of_nat (length (xs @ ys)))"
proof (induction ys arbitrary: xs)
  case (Cons y ys)
  from Cons.prems have "length xs + 1 < 2 ^ 64" by simp
  moreover from Cons.prems have "length (xs @ [y]) + length ys < 2 ^ 64" by simp
  note Cons.IH [OF this]
  ultimately show ?case
    by (simp add: append_one_frozen del: frozen.simps)
      (simp add: add.commute)
qed simp

section \<open>The root hash\<close>

lemma frozen_lowest:
  assumes "2 ^ Suc k dvd length ps" and "length qs = 2 ^ k" and "length (ps @ qs) < 2 ^ d"
  shows "frozen H d (ps @ qs) = frozen H d ps @ [merkle H k qs]"
  using assms
proof (induction d arbitrary: ps)
  case (Suc e)
  show ?case
  proof (cases "2 ^ e \<le> length (ps @ qs)")
    case False
    with Suc show ?thesis by simp
  next
    case True
    show ?thesis
    proof (cases "ps = []")
      case nil: True
      with True Suc.prems have "(2::nat) ^ e \<le> 2 ^ k" "(2::nat) ^ k < 2 ^ Suc e" by simp_all
      then have "e = k"
        by (metis le_antisym less_Suc_eq_le one_less_numeral_iff power_le_imp_le_exp
            power_less_imp_less_exp semiring_norm(76))
      with nil Suc.prems show ?thesis by simp
    next
      case False
      have "(2::nat) ^ Suc k \<le> length ps"
        using Suc.prems(1) False by (simp add: dvd_imp_le)
      moreover have "length ps < 2 ^ Suc e" using Suc.prems(3) by simp
      ultimately have "(2::nat) ^ Suc k < 2 ^ Suc e" by (rule le_less_trans)
      then have "k < e" by (metis Suc_less_eq one_less_numeral_iff power_less_imp_less_exp semiring_norm(76))
      then have dvd: "(2::nat) ^ Suc k dvd 2 ^ e" by (intro le_imp_power_dvd Suc_leI)
      have big: "2 ^ e \<le> length ps"
      proof (rule ccontr)
        assume "\<not> 2 ^ e \<le> length ps"
        then have "0 < 2 ^ e - length ps" by simp
        moreover have "2 ^ Suc k dvd 2 ^ e - length ps" using dvd Suc.prems(1) by (rule dvd_diff_nat)
        ultimately have "2 ^ Suc k \<le> 2 ^ e - length ps" by (metis dvd_imp_le)
        moreover have "2 ^ e - length ps \<le> 2 ^ k" using True Suc.prems(2) by simp
        ultimately have "2 ^ Suc k \<le> (2 :: nat) ^ k" by (rule le_trans)
        then show False by simp
      qed
      have "2 ^ Suc k dvd length (drop (2 ^ e) ps)"
        using dvd Suc.prems(1) by (simp add: dvd_diff_nat del: power_Suc)
      then have "frozen H e (drop (2 ^ e) ps @ qs) = frozen H e (drop (2 ^ e) ps) @ [merkle H k qs]"
        using Suc.prems big by (intro Suc.IH) simp_all
      with big show ?thesis by simp
    qed
  qed
qed simp

lemma merkle_pad:
  "xs \<noteq> [] \<Longrightarrow> length xs \<le> 2 ^ k \<Longrightarrow> merkle H (Suc k) xs = H (merkle H k xs) accumulator_placeholder_hash"
  by simp

lemma root_hash_loop_merkle:
  assumes "length ps = m * 2 ^ k" and "length ps < 2 ^ 64" and "length rest \<le> 2 ^ k"
    and "even m \<and> m \<noteq> 0 \<Longrightarrow> rest \<noteq> []"
  shows "root_hash_loop H (of_nat m) (rev (frozen H 64 ps)) (merkle H k rest)
    = Ok (merkle H (k + bit_length m) (ps @ rest))"
  using assms
proof (induction m arbitrary: ps rest k rule: less_induct)
  case (less m)
  have m64: "m < 2 ^ 64"
    using less.prems(1,2) by (metis le_less_trans mult.right_neutral mult_le_mono2 one_le_numeral one_le_power)
  have w0: "(of_nat m :: u64) = 0 \<longleftrightarrow> m = 0"
    using m64 by (simp add: unat_eq_zero [symmetric] unat_of_nat)
  have w1: "(of_nat m AND 1 :: u64) \<noteq> 0 \<longleftrightarrow> odd m"
    by (simp add: and_one_eq mod_2_eq_odd)
  have wd: "drop_bit 1 (of_nat m :: u64) = of_nat (m div 2)"
    using m64 by (simp add: word_unat_eq_iff drop_bit_eq_div unat_div unat_of_nat)
  show ?case
  proof (cases "m = 0")
    case True
    then show ?thesis using less.prems by (simp add: root_hash_loop.simps bit_length.simps)
  next
    case False
    then have half: "m div 2 < m" and bl: "bit_length m = Suc (bit_length (m div 2))"
      by (simp_all add: bit_length.simps [of m])
    show ?thesis
    proof (cases "odd m")
      case True
      let ?n = "m div 2 * 2 ^ Suc k"
      let ?P = "take ?n ps" and ?Q = "drop ?n ps"
      have "m = Suc (2 * (m div 2))" using True by simp
      then have len: "length ps = ?n + 2 ^ k"
        using less.prems(1) by (metis add.commute mult.assoc mult.commute mult_Suc power_Suc)
      then have lQ: "length ?Q = 2 ^ k" and lP: "length ?P = ?n" by simp_all
      have "frozen H 64 (?P @ ?Q) = frozen H 64 ?P @ [merkle H k ?Q]"
        by (rule frozen_lowest) (use lP lQ less.prems in \<open>simp_all del: append_take_drop_id power_Suc\<close>)
      then have fr: "frozen H 64 ps = frozen H 64 ?P @ [merkle H k ?Q]" by simp
      have "root_hash_loop H (of_nat m) (rev (frozen H 64 ps)) (merkle H k rest)
          = root_hash_loop H (of_nat (m div 2)) (rev (frozen H 64 ?P)) (H (merkle H k ?Q) (merkle H k rest))"
        unfolding fr by (subst root_hash_loop.simps) (use False True w0 w1 wd in simp)
      also have "H (merkle H k ?Q) (merkle H k rest) = merkle H (Suc k) (?Q @ rest)"
        using lQ by (auto simp del: drop_drop)
      also have "root_hash_loop H (of_nat (m div 2)) (rev (frozen H 64 ?P)) (merkle H (Suc k) (?Q @ rest))
          = Ok (merkle H (Suc k + bit_length (m div 2)) (?P @ ?Q @ rest))"
      proof (rule less.IH [OF half])
        show "length ?P = ?n" by (rule lP)
        show "length ?P < 2 ^ 64" using less.prems(2) by (rule le_less_trans [rotated]) simp
        show "length (?Q @ rest) \<le> 2 ^ Suc k" using lQ less.prems(3) by simp
        show "?Q @ rest \<noteq> []" using lQ by auto
      qed
      finally show ?thesis using bl by (simp flip: append_assoc)
    next
      case even: False
      then have ne: "rest \<noteq> []" using less.prems(4) False by simp
      have "root_hash_loop H (of_nat m) (rev (frozen H 64 ps)) (merkle H k rest)
          = root_hash_loop H (of_nat (m div 2)) (rev (frozen H 64 ps)) (merkle H (Suc k) rest)"
        unfolding merkle_pad [OF ne less.prems(3)]
        by (subst root_hash_loop.simps) (use False even w0 w1 wd in simp)
      also have "\<dots> = Ok (merkle H (Suc k + bit_length (m div 2)) (ps @ rest))"
      proof (rule less.IH [OF half])
        show "length ps = m div 2 * 2 ^ Suc k" using even less.prems(1) by (auto elim!: evenE)
        show "length ps < 2 ^ 64" by (rule less.prems(2))
        show "length rest \<le> 2 ^ Suc k" using less.prems(3) by simp
        show "rest \<noteq> []" by (rule ne)
      qed
      finally show ?thesis using bl by simp
    qed
  qed
qed

section \<open>The accumulator refines the list of its leaves\<close>

lemma bit_length_0 [simp]: "bit_length 0 = 0"
  by (simp add: bit_length.simps)

lemma bit_length_double: "n \<noteq> 0 \<Longrightarrow> bit_length (2 * n) = Suc (bit_length n)"
  by (subst bit_length.simps) simp

lemma bit_length_pow2: "bit_length (2 ^ k - 1) = k"
proof (induction k)
  case (Suc k)
  obtain j where j: "(2 :: nat) ^ k = Suc j" using not0_implies_Suc [of "2 ^ k"] by auto
  then have "2 ^ Suc k - 1 = Suc (2 * j)" by simp
  then have "bit_length (2 ^ Suc k - 1) = Suc (bit_length j)"
    by (subst bit_length.simps) simp
  with j Suc show ?case by simp
qed simp

text \<open>
  Splitting a positive number into its odd part and its trailing zeros, as \<open>compute_root_hash\<close>
  does before its loop.
\<close>

lemma trailing_zeros_nat_split:
  "0 < n \<Longrightarrow> odd (n div 2 ^ trailing_zeros_nat n) \<and> n = n div 2 ^ trailing_zeros_nat n * 2 ^ trailing_zeros_nat n"
proof (induction n rule: less_induct)
  case (less n)
  show ?case
  proof (cases "odd n")
    case True
    then show ?thesis by (simp add: trailing_zeros_nat.simps odd_pos)
  next
    case False
    then obtain m where m: "n = 2 * m" by (auto elim!: evenE)
    have t: "trailing_zeros_nat n = Suc (trailing_zeros_nat m)"
      using False less.prems m by (subst trailing_zeros_nat.simps) simp
    from m less.prems have "m < n" "0 < m" by simp_all
    from less.IH [OF this] show ?thesis using t unfolding m by simp
  qed
qed

lemma bit_length_mult: "0 < m \<Longrightarrow> bit_length (m * 2 ^ k) = k + bit_length m"
proof (induction k)
  case (Suc k)
  then show ?case using bit_length_double [of "m * 2 ^ k"] by (simp add: mult.left_commute mult.commute)
qed simp

lemma bit_length_pred: "odd m \<Longrightarrow> 1 < m \<Longrightarrow> bit_length (m * 2 ^ k - 1) = k + bit_length m"
proof (induction k)
  case 0
  then obtain j where "m = Suc (2 * j)" "0 < j" by (auto elim!: oddE)
  then show ?case
    by (simp add: bit_length_double) (simp add: bit_length.simps [of "Suc (2 * j)"])
next
  case (Suc k)
  have "0 < m * 2 ^ k" using Suc.prems by simp
  then obtain j where j: "m * 2 ^ k = Suc j" using gr0_implies_Suc by blast
  then have "m * 2 ^ Suc k - 1 = Suc (2 * j)" by (simp add: mult.left_commute)
  then have "bit_length (m * 2 ^ Suc k - 1) = Suc (bit_length j)"
    by (subst bit_length.simps) simp
  with j Suc show ?case by simp
qed

lemma frozen_single:
  assumes "length xs = 2 ^ k" and "length xs < 2 ^ d"
  shows "frozen H d xs = [merkle H k xs]"
  using frozen_lowest [of k "[]" xs d H] assms by simp

lemma count_ones_nat_eq_0: "count_ones_nat n = 0 \<longleftrightarrow> n = 0"
proof (induction n rule: less_induct)
  case (less n)
  have "n = 0" if "count_ones_nat n = 0"
  proof (rule ccontr)
    assume "n \<noteq> 0"
    with that have "even n" "count_ones_nat (n div 2) = 0"
      by (auto simp: count_ones_nat.simps [of n])
    with less.IH [of "n div 2"] \<open>n \<noteq> 0\<close> show False by (auto elim!: evenE)
  qed
  then show ?case by auto
qed

lemma count_ones_nat_mult: "count_ones_nat (m * 2 ^ k) = count_ones_nat m"
proof (induction k)
  case (Suc k)
  have "m * 2 ^ Suc k = 2 * (m * 2 ^ k)" by simp
  with Suc show ?case by (simp only: count_ones_nat_double)
qed simp

lemma count_ones_nat_odd: "odd n \<Longrightarrow> 1 < n \<Longrightarrow> 1 < count_ones_nat n"
proof (erule oddE)
  fix m
  assume "1 < n" and "n = 2 * m + 1"
  then show "1 < count_ones_nat n"
    using count_ones_nat_eq_0 [of m] by (simp add: count_ones_nat_Suc_double)
qed

text \<open>\<open>compute_root_hash\<close> on the frozen roots of \<open>xs\<close> returns the root of the tree over \<open>xs\<close>.\<close>

lemma compute_root_hash_frozen:
  assumes "length xs < 2 ^ 64"
  shows "compute_root_hash H (frozen H 64 xs) (of_nat (length xs)) = Ok (merkle_root H xs)"
proof (cases "xs = []")
  case True
  then show ?thesis by (simp add: compute_root_hash_def merkle_root_def)
next
  case False
  let ?n = "length xs"
  obtain k where k: "trailing_zeros_nat ?n = k" by simp
  obtain m where md: "m = ?n div 2 ^ k" by simp
  from False have "0 < ?n" by simp
  note split = trailing_zeros_nat_split [OF this, unfolded k, folded md]
  note m = conjunct1 [OF split] conjunct2 [OF split]
  have u: "unat (of_nat ?n :: u64) = ?n" using assms by (simp add: unat_of_nat)
  show ?thesis
  proof (cases "m = 1")
    case True
    then have "frozen H 64 xs = [merkle H k xs]"
      using m assms by (intro frozen_single) simp_all
    then show ?thesis
      using True m bit_length_pow2 [of k] by (simp add: compute_root_hash_def merkle_root_def tree_depth_def)
  next
    case big: False
    with m have "1 < m" by (cases m) auto
    then have depth: "tree_depth ?n = k + bit_length m"
      unfolding tree_depth_def using m bit_length_pred [of m k] by simp
    have "length (frozen H 64 xs) = count_ones_nat m"
      by (simp only: length_frozen [OF assms] m(2) count_ones_nat_mult)
    then obtain r r' rs where fr: "frozen H 64 xs = r # r' # rs"
      using count_ones_nat_odd [OF m(1) \<open>1 < m\<close>]
      by (cases "frozen H 64 xs"; cases "tl (frozen H 64 xs)") auto
    have "(of_nat ?n :: u64) \<noteq> 0" using u False by (metis length_0_conv unat_0)
    then have tz: "trailing_zeros (of_nat ?n) = k"
      by (simp only: trailing_zeros_def u k if_False)
    have "m < 2 ^ 64" using assms unfolding md by (rule le_less_trans [OF div_le_dividend])
    moreover have "unat (drop_bit k (of_nat ?n :: u64)) = m"
      by (simp only: unat_drop_bit_eq u) (simp only: drop_bit_eq_div md)
    ultimately have shift: "drop_bit (trailing_zeros (of_nat ?n)) (of_nat ?n) = (of_nat m :: u64)"
      unfolding tz by (simp add: word_unat_eq_iff unat_of_nat)
    have "root_hash_loop H (of_nat m) (rev (frozen H 64 xs)) (merkle H k [])
        = Ok (merkle H (k + bit_length m) (xs @ []))"
      by (rule root_hash_loop_merkle) (use m assms in auto)
    then show ?thesis
      using fr shift depth by (simp add: compute_root_hash_def merkle_root_def)
  qed
qed

lemma accumulator_new_frozen:
  assumes "length xs < 2 ^ 64"
  shows "\<exists>acc. accumulator_new H (frozen H 64 xs) (of_nat (length xs)) = Ok acc \<and> represents H acc xs"
  using assms compute_root_hash_frozen [OF assms, of H] length_frozen [OF assms, of H]
  by (simp add: accumulator_new_def count_ones_def ensure_def represents_def unat_of_nat del: frozen.simps)

lemma append_represents:
  assumes "represents H acc xs" and "length xs + length ys < 2 ^ 64"
  shows "\<exists>acc'. accumulator_append H acc ys = Ok acc' \<and> represents H acc' (xs @ ys)"
proof -
  have "append_loop H (acc_frozen_subtree_roots acc) (acc_num_leaves acc) ys
      = Ok (frozen H 64 (xs @ ys), of_nat (length (xs @ ys)))"
    using assms append_loop_frozen [of xs ys H] by (simp add: represents_def del: frozen.simps)
  moreover obtain acc' where "accumulator_new H (frozen H 64 (xs @ ys)) (of_nat (length (xs @ ys))) = Ok acc'"
    and "represents H acc' (xs @ ys)"
    using accumulator_new_frozen [of "xs @ ys" H] assms(2) by auto
  ultimately show ?thesis by (simp add: accumulator_append_def del: frozen.simps)
qed

section \<open>Inclusion proofs\<close>

text \<open>The siblings on the path from leaf \<open>i\<close> to the root, from the bottom level to the root level.\<close>

fun audit_path :: "node_hash \<Rightarrow> nat \<Rightarrow> hash_value list \<Rightarrow> nat \<Rightarrow> hash_value list" where
  "audit_path H 0 xs i = []"
| "audit_path H (Suc d) xs i =
     (if i < 2 ^ d then audit_path H d (take (2 ^ d) xs) i @ [merkle H d (drop (2 ^ d) xs)]
      else audit_path H d (drop (2 ^ d) xs) (i - 2 ^ d) @ [merkle H d (take (2 ^ d) xs)])"

text \<open>The pairs hashed while the tree is built and while a proof is verified.\<close>

fun tree_inputs :: "node_hash \<Rightarrow> nat \<Rightarrow> hash_value list \<Rightarrow> (hash_value \<times> hash_value) set" where
  "tree_inputs H 0 xs = {}"
| "tree_inputs H (Suc d) xs =
     (if xs = [] then {}
      else insert (merkle H d (take (2 ^ d) xs), merkle H d (drop (2 ^ d) xs))
             (tree_inputs H d (take (2 ^ d) xs) \<union> tree_inputs H d (drop (2 ^ d) xs)))"

fun proof_inputs :: "node_hash \<Rightarrow> hash_value list \<Rightarrow> hash_value \<times> u64 \<Rightarrow> (hash_value \<times> hash_value) set" where
  "proof_inputs H [] st = {}"
| "proof_inputs H (s # ss) st =
     insert (if snd st mod 2 = 0 then (fst st, s) else (s, fst st)) (proof_inputs H ss (proof_step H s st))"

definition collision_free :: "node_hash \<Rightarrow> (hash_value \<times> hash_value) set \<Rightarrow> bool" where
  "collision_free H S \<longleftrightarrow> inj_on (\<lambda>(l, r). H l r) S"

lemma collision_freeD:
  "collision_free H S \<Longrightarrow> H a b = H c d \<Longrightarrow> (a, b) \<in> S \<Longrightarrow> (c, d) \<in> S \<Longrightarrow> a = c \<and> b = d"
  unfolding collision_free_def by (drule inj_onD [where x = "(a, b)" and y = "(c, d)"]) auto

lemma collision_free_subset: "collision_free H S \<Longrightarrow> T \<subseteq> S \<Longrightarrow> collision_free H T"
  unfolding collision_free_def by (rule inj_on_subset)

lemma proof_step_eq:
  "proof_step H s (h, w) = (if even (unat w) then H h s else H s h, w div 2)"
proof -
  have "w mod 2 = 0 \<longleftrightarrow> even (unat w)"
    by (simp add: word_unat_eq_iff unat_mod even_iff_mod_2_eq_zero)
  then show ?thesis by (simp add: proof_step_def)
qed

lemma fold_proof_step_index:
  "unat (snd (fold (proof_step H) ss (h, w))) = unat w div 2 ^ length ss"
proof (induction ss arbitrary: h w)
  case (Cons s ss)
  show ?case
    by (simp add: proof_step_eq Cons unat_div div_mult2_eq del: fold_simps(1))
qed simp

lemma proof_inputs_snoc:
  "proof_inputs H (ss @ [s]) st = proof_inputs H ss st \<union>
     {let (h, w) = fold (proof_step H) ss st in if even (unat w) then (h, s) else (s, h)}"
proof (induction ss arbitrary: st)
  case Nil
  have "snd st mod 2 = 0 \<longleftrightarrow> even (unat (snd st))"
    by (simp add: word_unat_eq_iff unat_mod even_iff_mod_2_eq_zero)
  then show ?case by (cases st) simp
qed auto

lemma length_audit_path [simp]: "length (audit_path H d xs i) = d"
  by (induction d arbitrary: xs i) auto

lemma index_step:
  fixes n :: nat
  shows "even (n div 2 ^ d) \<longleftrightarrow> n mod 2 ^ Suc d < 2 ^ d"
    and "n mod 2 ^ Suc d < 2 ^ d \<Longrightarrow> n mod 2 ^ d = n mod 2 ^ Suc d"
    and "\<not> n mod 2 ^ Suc d < 2 ^ d \<Longrightarrow> n mod 2 ^ d = n mod 2 ^ Suc d - 2 ^ d"
proof -
  have split: "n mod 2 ^ Suc d = 2 ^ d * (n div 2 ^ d mod 2) + n mod 2 ^ d"
    unfolding power_Suc2 by (rule mod_mult2_eq)
  have lt: "n mod 2 ^ d < 2 ^ d" by simp
  show "even (n div 2 ^ d) \<longleftrightarrow> n mod 2 ^ Suc d < 2 ^ d"
    unfolding split using lt by (cases "even (n div 2 ^ d)") (simp_all add: odd_iff_mod_2_eq_one even_iff_mod_2_eq_zero)
  show "n mod 2 ^ Suc d < 2 ^ d \<Longrightarrow> n mod 2 ^ d = n mod 2 ^ Suc d"
    unfolding split by (cases "even (n div 2 ^ d)") (simp_all add: odd_iff_mod_2_eq_one even_iff_mod_2_eq_zero)
  show "\<not> n mod 2 ^ Suc d < 2 ^ d \<Longrightarrow> n mod 2 ^ d = n mod 2 ^ Suc d - 2 ^ d"
    unfolding split using lt by (cases "even (n div 2 ^ d)") (simp_all add: odd_iff_mod_2_eq_one even_iff_mod_2_eq_zero)
qed

lemma fold_audit_path:
  assumes "i < length xs" and "length xs \<le> 2 ^ d" and "unat w mod 2 ^ d = i"
  shows "fst (fold (proof_step H) (audit_path H d xs i) (xs ! i, w)) = merkle H d xs"
  using assms
proof (induction d arbitrary: xs i)
  case 0
  then show ?case by (cases xs) auto
next
  case (Suc d)
  let ?l = "take (2 ^ d) xs" and ?r = "drop (2 ^ d) xs"
  note idx = index_step [of "unat w" d]
  have ne: "xs \<noteq> []" using Suc.prems by auto
  show ?case
  proof (cases "i < 2 ^ d")
    case True
    have "fst (fold (proof_step H) (audit_path H d ?l i) (?l ! i, w)) = merkle H d ?l"
      using True Suc.prems idx(2) by (intro Suc.IH) auto
    moreover have "even (unat (snd (fold (proof_step H) (audit_path H d ?l i) (xs ! i, w))))"
      using True Suc.prems idx(1) by (simp add: fold_proof_step_index)
    ultimately show ?thesis
      using True ne by (cases "fold (proof_step H) (audit_path H d ?l i) (xs ! i, w)") (simp add: proof_step_eq)
  next
    case False
    have "fst (fold (proof_step H) (audit_path H d ?r (i - 2 ^ d)) (?r ! (i - 2 ^ d), w)) = merkle H d ?r"
      using False Suc.prems idx(3) by (intro Suc.IH) auto
    moreover have "odd (unat (snd (fold (proof_step H) (audit_path H d ?r (i - 2 ^ d)) (xs ! i, w))))"
      using False Suc.prems idx(1) by (simp add: fold_proof_step_index)
    ultimately show ?thesis
      using False ne Suc.prems(1)
      by (cases "fold (proof_step H) (audit_path H d ?r (i - 2 ^ d)) (xs ! i, w)") (simp add: proof_step_eq)
  qed
qed

lemma fold_proof_step_sound:
  assumes "fst (fold (proof_step H) ss (h, w)) = merkle H d xs"
    and "length ss = d" and "unat w mod 2 ^ d < length xs" and "length xs \<le> 2 ^ d"
    and "collision_free H (tree_inputs H d xs \<union> proof_inputs H ss (h, w))"
  shows "h = xs ! (unat w mod 2 ^ d)"
  using assms
proof (induction d arbitrary: xs ss)
  case 0
  then show ?case by (cases xs) auto
next
  case (Suc d)
  let ?l = "take (2 ^ d) xs" and ?r = "drop (2 ^ d) xs" and ?i = "unat w mod 2 ^ Suc d"
  note idx = index_step [of "unat w" d]
  have ne: "xs \<noteq> []" using Suc.prems(3) by auto
  from Suc.prems(2) obtain ts s where ss: "ss = ts @ [s]" and lts: "length ts = d"
    by (metis length_Suc_conv_rev)
  obtain g v where g: "fold (proof_step H) ts (h, w) = (g, v)" by fastforce
  have v: "even (unat v) \<longleftrightarrow> ?i < 2 ^ d"
    using fold_proof_step_index [of H ts h w] g lts idx(1) by simp
  let ?in = "tree_inputs H (Suc d) xs \<union> proof_inputs H ss (h, w)"
  have node: "(merkle H d ?l, merkle H d ?r) \<in> ?in" using ne by simp
  have cf: "collision_free H (tree_inputs H d ys \<union> proof_inputs H ts (h, w))" if "ys = ?l \<or> ys = ?r" for ys
    using Suc.prems(5) by (rule collision_free_subset) (use that ne ss in \<open>auto simp: proof_inputs_snoc\<close>)
  show ?case
  proof (cases "?i < 2 ^ d")
    case True
    have "H g s = H (merkle H d ?l) (merkle H d ?r)"
      using Suc.prems(1) ss g v True ne by (simp add: proof_step_eq)
    then have "g = merkle H d ?l"
      by (rule collision_freeD [OF Suc.prems(5), THEN conjunct1])
        (use ss g v True node in \<open>simp_all add: proof_inputs_snoc\<close>)
    then have "h = ?l ! (unat w mod 2 ^ d)"
      using g lts True idx(2) Suc.prems cf by (intro Suc.IH [of ts]) auto
    then show ?thesis using True idx(2) by simp
  next
    case False
    have "H s g = H (merkle H d ?l) (merkle H d ?r)"
      using Suc.prems(1) ss g v False ne by (simp add: proof_step_eq)
    then have "g = merkle H d ?r"
      by (rule collision_freeD [OF Suc.prems(5), THEN conjunct2])
        (use ss g v False node in \<open>simp_all add: proof_inputs_snoc\<close>)
    then have "h = ?r ! (unat w mod 2 ^ d)"
      using g lts False idx(3) Suc.prems cf by (intro Suc.IH [of ts]) auto
    then show ?thesis using False idx(3) Suc.prems by simp
  qed
qed

lemma le_pow_bit_length: "n < 2 ^ bit_length n"
proof (induction n rule: less_induct)
  case (less n)
  show ?case
  proof (cases "n = 0")
    case False
    with less [of "n div 2"] have "n div 2 < 2 ^ bit_length (n div 2)" by simp
    with False show ?thesis by (simp add: bit_length.simps [of n])
  qed simp
qed

lemma le_pow_tree_depth: "n \<le> 2 ^ tree_depth n"
  using le_pow_bit_length [of "n - 1"] by (simp add: tree_depth_def)

lemma bit_length_le: "n < 2 ^ k \<Longrightarrow> bit_length n \<le> k"
proof (induction k arbitrary: n)
  case (Suc k)
  then have "bit_length (n div 2) \<le> k" by (intro Suc.IH) simp
  then show ?case by (simp add: bit_length.simps [of n])
qed simp

lemma tree_depth_le: "n \<le> 2 ^ k \<Longrightarrow> tree_depth n \<le> k"
  unfolding tree_depth_def by (rule bit_length_le) (cases n; simp)

section \<open>The accumulator as an append-only log\<close>

text \<open>
  The contract the users of the accumulator (extension proofs, vote proposals) rely on: appending
  to the representation appends to the log, and the representation is determined by the log.
\<close>

locale append_only_log =
  fixes rep :: "'acc \<Rightarrow> 'l list \<Rightarrow> bool"
    and app :: "'acc \<Rightarrow> 'l list \<Rightarrow> ('acc, 'e) result"
    and cap :: nat
  assumes app_rep: "rep a xs \<Longrightarrow> length xs + length ys < cap \<Longrightarrow> \<exists>b. app a ys = Ok b \<and> rep b (xs @ ys)"
    and rep_unique: "rep a xs \<Longrightarrow> rep b xs \<Longrightarrow> a = b"
begin

lemma app_eq: "rep a xs \<Longrightarrow> rep b (xs @ ys) \<Longrightarrow> length xs + length ys < cap \<Longrightarrow> app a ys = Ok b"
  using app_rep rep_unique by metis

lemma app_app:
  assumes "rep a xs" and "length xs + length ys + length zs < cap"
  shows "bind_result (app a ys) (\<lambda>b. app b zs) = app a (ys @ zs)"
proof -
  obtain b where b: "app a ys = Ok b" "rep b (xs @ ys)" using app_rep [OF assms(1), of ys] assms(2) by auto
  obtain c where c: "app b zs = Ok c" "rep c ((xs @ ys) @ zs)" using app_rep [OF b(2), of zs] assms(2) by auto
  have "app a (ys @ zs) = Ok c" using app_eq [OF assms(1), of c "ys @ zs"] c(2) assms(2) by simp
  with b c show ?thesis by simp
qed

end

lemma represents_unique: "represents H acc xs \<Longrightarrow> represents H acc' xs \<Longrightarrow> acc = acc'"
  by (simp add: represents_def)

interpretation txn_log: append_only_log "represents H" "accumulator_append H" "2 ^ 64" for H
  by unfold_locales (simp_all only: append_represents, rule represents_unique)

lemma represents_default: "accumulator_default H = Ok acc \<Longrightarrow> represents H acc []"
  by (auto simp: accumulator_default_def accumulator_new_def compute_root_hash_def count_ones_def
      ensure_def represents_def merkle_root_def)

lemma accumulator_new_represented:
  assumes "represents H acc xs"
  shows "accumulator_new H (acc_frozen_subtree_roots acc) (acc_num_leaves acc) = Ok acc"
proof -
  from assms have l: "length xs < 2 ^ 64" by (simp add: represents_def)
  from accumulator_new_frozen [OF l, of H] obtain acc' where
    "accumulator_new H (frozen H 64 xs) (of_nat (length xs)) = Ok acc'" "represents H acc' xs" by auto
  with assms represents_unique [OF assms] show ?thesis by (simp add: represents_def)
qed

text \<open>
  C5. Refinement of the in-memory accumulator: on an accumulator that represents the leaves \<open>xs\<close>,
  \<open>append\<close> returns (it does not reach any of its \<open>expect\<close>s) an accumulator that represents
  \<open>xs @ ys\<close>, so its root hash is the root of the padded Merkle tree over all leaves.
\<close>

theorem accumulator_append_refines:
  assumes "represents H acc xs" and "length xs + length ys < 2 ^ 64"
  shows "\<exists>acc'. accumulator_append H acc ys = Ok acc' \<and> represents H acc' (xs @ ys) \<and>
    acc_root_hash acc' = merkle_root H (xs @ ys)"
  using append_represents [OF assms] by (auto simp: represents_def)

theorem accumulator_append_refines_witness:
  "\<exists>acc'. accumulator_append (\<lambda>l r. 2 * l + r)
      \<lparr>acc_frozen_subtree_roots = [], acc_num_leaves = 0, acc_root_hash = accumulator_placeholder_hash\<rparr> [1, 2, 3]
      = Ok acc' \<and> acc_root_hash acc' = merkle_root (\<lambda>l r. 2 * l + r) [1, 2, 3]"
proof -
  let ?acc = "\<lparr>acc_frozen_subtree_roots = [], acc_num_leaves = 0, acc_root_hash = accumulator_placeholder_hash\<rparr>"
  have "represents (\<lambda>l r. 2 * l + r) ?acc []" by (simp add: represents_def merkle_root_def)
  from accumulator_append_refines [OF this, of "[1, 2, 3]"] show ?thesis by auto
qed

text \<open>
  C10. An extension proof built from an accumulator over \<open>xs\<close> verifies against that accumulator's
  root, and the tree it returns is the one over \<open>xs\<close> followed by the proof's leaves. Splitting the
  new leaves over several proofs gives the same tree.
\<close>

theorem extension_proof_verifies:
  assumes rep: "represents H acc xs" and len: "length xs + length ys + length zs < 2 ^ 64"
  shows "\<exists>acc'. aep_verify H \<lparr>aep_frozen_subtree_roots = acc_frozen_subtree_roots acc,
        aep_num_leaves = acc_num_leaves acc, aep_leaves = ys @ zs\<rparr> (acc_root_hash acc) = Ok acc' \<and>
      represents H acc' (xs @ ys @ zs) \<and>
      bind_result (accumulator_append H acc ys) (\<lambda>b. accumulator_append H b zs) = Ok acc'"
proof -
  obtain acc' where acc': "accumulator_append H acc (ys @ zs) = Ok acc'" "represents H acc' (xs @ ys @ zs)"
    using append_represents [OF rep, of "ys @ zs"] len by auto
  then show ?thesis
    using accumulator_new_represented [OF rep] txn_log.app_app [OF rep len]
    by (simp add: aep_verify_def ensure_def)
qed

theorem extension_proof_verifies_witness:
  "\<exists>acc'. aep_verify (\<lambda>l r. 2 * l + r) \<lparr>aep_frozen_subtree_roots = [], aep_num_leaves = 0, aep_leaves = [1, 2, 3]\<rparr>
      accumulator_placeholder_hash = Ok acc' \<and> represents (\<lambda>l r. 2 * l + r) acc' [1, 2, 3]"
proof -
  let ?acc = "\<lparr>acc_frozen_subtree_roots = [], acc_num_leaves = 0, acc_root_hash = accumulator_placeholder_hash\<rparr>"
  have "represents (\<lambda>l r. 2 * l + r) ?acc []" by (simp add: represents_def merkle_root_def)
  from extension_proof_verifies [OF this, of "[1]" "[2, 3]"] show ?thesis by auto
qed

text \<open>
  C9. Inclusion proofs are complete and sound. The siblings along the path of leaf \<open>i\<close> verify
  against the accumulator's root. Conversely, a proof of the tree's depth that verifies for index
  \<open>i\<close> is about the \<open>i\<close>-th leaf, provided the hash has no collision among the pairs hashed to
  build the tree and to verify the proof.
\<close>

theorem accumulator_proof_correct:
  assumes rep: "represents H acc xs" and cap: "length xs \<le> unat max_accumulator_leaves"
    and i: "unat i < length xs"
  shows "accumulator_proof_verify H (audit_path H (tree_depth (length xs)) xs (unat i))
      (acc_root_hash acc) (xs ! unat i) i = Ok () \<and>
    (\<forall>siblings element.
       accumulator_proof_verify H siblings (acc_root_hash acc) element i = Ok () \<longrightarrow>
       length siblings = tree_depth (length xs) \<longrightarrow>
       collision_free H (tree_inputs H (tree_depth (length xs)) xs \<union> proof_inputs H siblings (element, i)) \<longrightarrow>
       element = xs ! unat i)"
proof (intro conjI allI impI)
  let ?d = "tree_depth (length xs)"
  have root: "acc_root_hash acc = merkle H ?d xs" using rep by (simp add: represents_def merkle_root_def)
  have d: "?d \<le> max_accumulator_proof_depth"
    using cap by (simp add: max_accumulator_proof_depth_def max_accumulator_leaves_def tree_depth_le)
  have idx: "unat i mod 2 ^ ?d = unat i" using i le_pow_tree_depth [of "length xs"] by simp
  show "accumulator_proof_verify H (audit_path H ?d xs (unat i)) (acc_root_hash acc) (xs ! unat i) i = Ok ()"
    using fold_audit_path [OF i le_pow_tree_depth idx, of H] d root
    by (simp add: accumulator_proof_verify_def ensure_def)
  fix siblings element
  assume "accumulator_proof_verify H siblings (acc_root_hash acc) element i = Ok ()"
    and "length siblings = ?d" and "collision_free H (tree_inputs H ?d xs \<union> proof_inputs H siblings (element, i))"
  then show "element = xs ! unat i"
    using fold_proof_step_sound [of H siblings element i ?d xs] root idx i le_pow_tree_depth
    by (simp add: accumulator_proof_verify_def ok_simps)
qed

theorem accumulator_proof_correct_witness:
  "accumulator_proof_verify (\<lambda>l r. 2 * l + r) [6] 16 5 0 = Ok () \<and>
     represents (\<lambda>l r. 2 * l + r)
       \<lparr>acc_frozen_subtree_roots = [16], acc_num_leaves = 2, acc_root_hash = 16\<rparr> [5, 6] \<and>
     (5 :: hash_value) = [5, 6] ! unat (0 :: u64)"
proof -
  let ?H = "\<lambda>l r. 2 * l + r :: hash_value"
  let ?acc = "\<lparr>acc_frozen_subtree_roots = [16], acc_num_leaves = 2, acc_root_hash = 16\<rparr>"
  have d: "tree_depth (length [5, 6 :: hash_value]) = 1"
    by (simp add: tree_depth_def bit_length.simps)
  have rep: "represents ?H ?acc [5, 6]"
    using d frozen_single [of "[5, 6]" 1 64 ?H] by (simp add: represents_def merkle_root_def)
  have cf: "collision_free ?H (tree_inputs ?H 1 [5, 6] \<union> proof_inputs ?H [6] (5, 0))"
    by (simp add: collision_free_def)
  have ok: "accumulator_proof_verify ?H [6] 16 5 0 = Ok ()"
    by (simp add: accumulator_proof_verify_def max_accumulator_proof_depth_def proof_step_def ensure_def)
  from accumulator_proof_correct [OF rep, of 0]
  have "\<forall>siblings element. accumulator_proof_verify ?H siblings 16 element 0 = Ok () \<longrightarrow>
      length siblings = 1 \<longrightarrow> collision_free ?H (tree_inputs ?H 1 [5, 6] \<union> proof_inputs ?H siblings (element, 0)) \<longrightarrow>
      element = [5, 6] ! unat (0 :: u64)"
    unfolding d by (simp add: max_accumulator_leaves_def)
  with ok cf have "(5 :: hash_value) = [5, 6] ! unat (0 :: u64)" by (metis One_nat_def length_Cons list.size(3))
  with ok rep show ?thesis by blast
qed

end
