(* ===== verification/Tree_Position.thy ===== *)
theory Tree_Position
  imports Accumulator_Spec
begin

unbundle bit_operations_syntax

text \<open>
  \<open>types/src/proof/position/mod.rs\<close>: the nodes of a binary tree over \<open>2 ^ 63\<close> leaves, numbered in
  in-order. The bit manipulations are translated as they are written; \<open>node l k\<close>, the \<open>k\<close>-th node from
  the left at level \<open>l\<close>, is the meaning of a position, and each operation is characterised on it.
  Shifts are those of a release build, which reduce the distance modulo the width.
\<close>

section \<open>Positions\<close>

type_synonym position = u64

datatype node_direction = Left_Child | Right_Child

definition shl :: "u64 \<Rightarrow> nat \<Rightarrow> u64" where
  "shl w n = push_bit (n mod 64) w"

definition shr :: "u64 \<Rightarrow> nat \<Rightarrow> u64" where
  "shr w n = drop_bit (n mod 64) w"

definition leading_zeros :: "u64 \<Rightarrow> nat" where
  "leading_zeros w = 64 - bit_length (unat w)"

definition smear_ones_for_u64 :: "u64 \<Rightarrow> u64" where
  "smear_ones_for_u64 v =
     (let n = v OR drop_bit 1 v;
          n = n OR drop_bit 2 n;
          n = n OR drop_bit 4 n;
          n = n OR drop_bit 8 n;
          n = n OR drop_bit 16 n;
          n = n OR drop_bit 32 n
      in n)"

definition turn_off_right_most_n_bits :: "u64 \<Rightarrow> nat \<Rightarrow> u64" where
  "turn_off_right_most_n_bits v n = shl (shr v n) n"

definition isolate_rightmost_zero_bit :: "u64 \<Rightarrow> u64" where
  "isolate_rightmost_zero_bit v = NOT v AND (v + 1)"

definition level :: "position \<Rightarrow> nat" where
  "level p = trailing_zeros (NOT p)"

definition is_leaf :: "position \<Rightarrow> bool" where
  "is_leaf p \<longleftrightarrow> p AND 1 = 0"

definition from_level_and_pos :: "nat \<Rightarrow> u64 \<Rightarrow> position" where
  "from_level_and_pos l pos =
     (let level_one_bits = shl 1 l - 1;
          shifted_pos = (if l = 63 then 0 else shl pos (l + 1))
      in shifted_pos OR level_one_bits)"

definition from_inorder_index :: "u64 \<Rightarrow> position" where
  "from_inorder_index index = index"

definition to_inorder_index :: "position \<Rightarrow> u64" where
  "to_inorder_index p = p"

definition parent :: "position \<Rightarrow> position" where
  "parent p = (p OR isolate_rightmost_zero_bit p) AND NOT (push_bit 1 (isolate_rightmost_zero_bit p))"

definition child :: "position \<Rightarrow> node_direction \<Rightarrow> (position, anyhow) result" where
  "child p dir =
     (if is_leaf p then Panic
      else let direction_bit = (case dir of Left_Child \<Rightarrow> 0 | Right_Child \<Rightarrow> isolate_rightmost_zero_bit p)
           in Ok ((p OR direction_bit) AND NOT (drop_bit 1 (isolate_rightmost_zero_bit p))))"

definition left_child :: "position \<Rightarrow> (position, anyhow) result" where
  "left_child p = (if is_leaf p then Panic else child p Left_Child)"

definition right_child :: "position \<Rightarrow> (position, anyhow) result" where
  "right_child p = (if is_leaf p then Panic else child p Right_Child)"

definition is_left_child :: "position \<Rightarrow> bool" where
  "is_left_child p \<longleftrightarrow> p AND push_bit 1 (isolate_rightmost_zero_bit p) = 0"

definition is_right_child :: "position \<Rightarrow> bool" where
  "is_right_child p \<longleftrightarrow> \<not> is_left_child p"

definition from_leaf_index :: "u64 \<Rightarrow> position" where
  "from_leaf_index leaf_index = from_level_and_pos 0 leaf_index"

definition sibling :: "position \<Rightarrow> position" where
  "sibling p = p XOR push_bit 1 (isolate_rightmost_zero_bit p)"

definition root_from_leaf_index :: "u64 \<Rightarrow> position" where
  "root_from_leaf_index leaf_index = drop_bit 1 (smear_ones_for_u64 (from_leaf_index leaf_index))"

definition root_from_leaf_count :: "u64 \<Rightarrow> (position, anyhow) result" where
  "root_from_leaf_count leaf_count =
     (if 0 < leaf_count then Ok (root_from_leaf_index (leaf_count - 1)) else Panic)"

definition root_level_from_leaf_count :: "u64 \<Rightarrow> (nat, anyhow) result" where
  "root_level_from_leaf_count leaf_count =
     (if 0 < leaf_count
      then let index = leaf_count - 1 in Ok (max_accumulator_proof_depth + 1 - leading_zeros index)
      else Panic)"

definition right_most_child :: "position \<Rightarrow> position" where
  "right_most_child p = p + shl 1 (level p) - 1"

definition left_most_child :: "position \<Rightarrow> position" where
  "left_most_child p = turn_off_right_most_n_bits p (level p)"

definition is_freezable :: "position \<Rightarrow> u64 \<Rightarrow> bool" where
  "is_freezable p leaf_index \<longleftrightarrow> right_most_child p \<le> from_leaf_index leaf_index"

definition is_placeholder :: "position \<Rightarrow> u64 \<Rightarrow> bool" where
  "is_placeholder p leaf_index =
     (let leaf = from_leaf_index leaf_index
      in if p \<le> leaf then False else if left_most_child p \<le> leaf then False else True)"

text \<open>The first items of the iterators over the ancestors of a position, and over their siblings.\<close>

fun iter_ancestor :: "nat \<Rightarrow> position \<Rightarrow> position list" where
  "iter_ancestor 0 p = []"
| "iter_ancestor (Suc n) p = p # iter_ancestor n (parent p)"

fun iter_ancestor_sibling :: "nat \<Rightarrow> position \<Rightarrow> position list" where
  "iter_ancestor_sibling 0 p = []"
| "iter_ancestor_sibling (Suc n) p = sibling p # iter_ancestor_sibling n (parent p)"

section \<open>Post-order numbers\<close>

definition children_of_node :: "u64 \<Rightarrow> u64" where
  "children_of_node n = push_bit 1 (isolate_rightmost_zero_bit n) - 2"

definition nodes_to_left_of :: "u64 \<Rightarrow> u64" where
  "nodes_to_left_of n =
     (let ones_up_to_level = isolate_rightmost_zero_bit n - 1;
          unset_level_zeros = n XOR ones_up_to_level
      in unset_level_zeros - of_nat (count_ones unset_level_zeros))"

definition inorder_to_postorder :: "u64 \<Rightarrow> u64" where
  "inorder_to_postorder n = children_of_node n + nodes_to_left_of n"

text \<open>The loop of \<open>postorder_to_inorder\<close>, for \<open>i\<close> from the given number of rounds down.\<close>

fun postorder_loop :: "nat \<Rightarrow> u64 \<Rightarrow> u64 \<Rightarrow> u64 \<Rightarrow> u64 \<times> u64" where
  "postorder_loop 0 n full_binary_size bitmap = (n, bitmap)"
| "postorder_loop (Suc i) n full_binary_size bitmap =
     (if full_binary_size \<le> n
      then postorder_loop i (n - full_binary_size) (drop_bit 1 full_binary_size) (bitmap OR push_bit i 1)
      else postorder_loop i n (drop_bit 1 full_binary_size) bitmap)"

definition postorder_to_inorder :: "u64 \<Rightarrow> u64" where
  "postorder_to_inorder n =
     (let (n, bitmap) = postorder_loop 64 n (NOT 0) 0;
          l = unat n mod 2 ^ 32;
          pos = shr bitmap l
      in to_inorder_index (from_level_and_pos l pos))"

definition from_postorder_index :: "u64 \<Rightarrow> (position, anyhow) result" where
  "from_postorder_index index =
     bind_result (ensure (index < NOT 0) (Msg ''node index is invalid (equal to 2^64 - 1)''))
       (\<lambda>_. Ok (postorder_to_inorder index))"

definition to_postorder_index :: "position \<Rightarrow> u64" where
  "to_postorder_index p = inorder_to_postorder (to_inorder_index p)"

section \<open>Iterators over full subtrees\<close>

record frozen_subtree_iterator =
  fsi_bitmap :: u64
  fsi_seen_leaves :: u64

definition fsi_new :: "u64 \<Rightarrow> frozen_subtree_iterator" where
  "fsi_new num_leaves = \<lparr>fsi_bitmap = num_leaves, fsi_seen_leaves = 0\<rparr>"

definition fsi_next :: "frozen_subtree_iterator \<Rightarrow> position option \<times> frozen_subtree_iterator" where
  "fsi_next it =
     (if fsi_bitmap it = 0 then (None, it)
      else let root_offset = drop_bit 1 (smear_ones_for_u64 (fsi_bitmap it));
               num_leaves = root_offset + 1;
               leftmost_leaf = from_leaf_index (fsi_seen_leaves it);
               root = from_inorder_index (to_inorder_index leftmost_leaf + root_offset)
           in (Some root, \<lparr>fsi_bitmap = fsi_bitmap it AND NOT num_leaves,
                           fsi_seen_leaves = fsi_seen_leaves it + num_leaves\<rparr>))"

record frozen_subtree_sibling_iterator =
  fss_current_num_leaves :: u64
  fss_remaining_new_leaves :: u64

definition fss_new :: "u64 \<Rightarrow> u64 \<Rightarrow> (frozen_subtree_sibling_iterator, anyhow) result" where
  "fss_new current_num_leaves new_num_leaves =
     (if \<not> new_num_leaves \<le> max_accumulator_leaves then Panic
      else if \<not> current_num_leaves \<le> new_num_leaves then Panic
      else Ok \<lparr>fss_current_num_leaves = current_num_leaves,
               fss_remaining_new_leaves = new_num_leaves - current_num_leaves\<rparr>)"

definition next_new_leaf_batch :: "frozen_subtree_sibling_iterator \<Rightarrow> u64" where
  "next_new_leaf_batch it =
     (let zeros = leading_zeros (fss_remaining_new_leaves it)
      in shl 1 (max_accumulator_proof_depth - zeros))"

definition fss_next ::
    "frozen_subtree_sibling_iterator \<Rightarrow> position option \<times> frozen_subtree_sibling_iterator" where
  "fss_next it =
     (if fss_remaining_new_leaves it = 0 then (None, it)
      else let next_subtree_leaves =
                 (if 0 < fss_current_num_leaves it
                  then let rightmost_frozen_subtree_leaves = shl 1 (trailing_zeros (fss_current_num_leaves it))
                       in if rightmost_frozen_subtree_leaves \<le> fss_remaining_new_leaves it
                          then rightmost_frozen_subtree_leaves else next_new_leaf_batch it
                  else next_new_leaf_batch it);
               first_leaf_index = fss_current_num_leaves it;
               last_leaf_index = first_leaf_index + next_subtree_leaves - 1
           in (Some (from_inorder_index (first_leaf_index + last_leaf_index)),
               \<lparr>fss_current_num_leaves = fss_current_num_leaves it + next_subtree_leaves,
                fss_remaining_new_leaves = fss_remaining_new_leaves it - next_subtree_leaves\<rparr>))"

section \<open>Nodes by level and index\<close>

definition node :: "nat \<Rightarrow> nat \<Rightarrow> position" where
  "node l k = push_bit (Suc l) (of_nat k) OR mask l"

definition in_tree :: "nat \<Rightarrow> nat \<Rightarrow> bool" where
  "in_tree l k \<longleftrightarrow> l < 64 \<and> k < 2 ^ (63 - l)"

lemma bit_push_u64: "bit (push_bit n w) i \<longleftrightarrow> i < 64 \<and> n \<le> i \<and> bit w (i - n)" for w :: u64
  by (auto simp: bit_push_bit_iff)

lemma bit_drop_u64: "bit (drop_bit n w) i \<longleftrightarrow> bit w (n + i)" for w :: u64
  by (auto simp: bit_drop_bit_eq)

lemma bit_not_u64: "bit (NOT w) i \<longleftrightarrow> i < 64 \<and> \<not> bit w i" for w :: u64
  by (auto simp: bit_not_iff)

lemma bit_one_u64: "bit (1 :: u64) i \<longleftrightarrow> i = 0"
  by (auto simp: bit_1_iff)

lemma bit_of_nat_u64: "bit (of_nat k :: u64) i \<longleftrightarrow> i < 64 \<and> bit k i"
  by (auto simp: bit_of_nat_iff)

lemma bit_u64_less: "bit (w :: u64) i \<Longrightarrow> i < 64"
  using bit_imp_le_length by fastforce

lemmas bit_u64_simps = bit_push_u64 bit_drop_u64 bit_not_u64 bit_one_u64 bit_of_nat_u64
  bit_and_iff bit_or_iff bit_xor_iff

lemma u64_eq_0_iff: "w = 0 \<longleftrightarrow> (\<forall>i. \<not> bit w i)" for w :: u64
  by (auto intro!: bit_eqI)

lemma bit_node: "bit (node l k) i \<longleftrightarrow> i < 64 \<and> (i < l \<or> l < i \<and> bit k (i - Suc l))"
  unfolding node_def by (auto simp only: bit_u64_simps bit_mask_iff) auto

lemma bit_nat_bound: "k < 2 ^ n \<Longrightarrow> bit (k :: nat) i \<Longrightarrow> i < n"
  by (metis bit_take_bit_iff take_bit_nat_eq_self)

lemma node_add: "node l k = push_bit (Suc l) (of_nat k) + mask l"
  unfolding node_def
  by (rule disjunctive_add [symmetric]) (auto simp only: bit_u64_simps bit_mask_iff)

lemma node_of_nat: "node l k = of_nat (k * 2 ^ Suc l + (2 ^ l - 1))"
proof -
  obtain m where m: "(2 :: nat) ^ l = Suc m" using not0_implies_Suc [of "2 ^ l"] by auto
  have "(2 :: u64) ^ l = of_nat (2 ^ l)" by simp
  also have "\<dots> = of_nat m + 1" by (simp only: m) simp
  finally have "mask l = (of_nat (2 ^ l - 1) :: u64)" by (simp add: mask_eq_exp_minus_1 m)
  then show ?thesis by (simp only: node_add push_bit_eq_mult of_nat_add of_nat_mult of_nat_power) simp
qed

lemma node_plus_1: "node l k + 1 = push_bit (Suc l) (of_nat k) OR push_bit l 1"
proof -
  have "push_bit (Suc l) (of_nat k) OR push_bit l 1 = push_bit (Suc l) (of_nat k) + push_bit l (1 :: u64)"
    by (rule disjunctive_add [symmetric]) (auto simp only: bit_u64_simps)
  then show ?thesis
    by (simp add: node_add mask_eq_exp_minus_1)
qed

lemma level_width: "l < 64 \<Longrightarrow> (2 :: nat) ^ (63 - l) * 2 ^ Suc l = 2 ^ 64"
  by (simp only: power_add [symmetric]) simp

lemma in_tree_bound: "in_tree l k \<Longrightarrow> k * 2 ^ Suc l + (2 ^ l - 1) < (2 :: nat) ^ 64 - 1"
proof -
  assume "in_tree l k"
  then have l: "l < 64" and k: "Suc k \<le> 2 ^ (63 - l)" by (auto simp: in_tree_def)
  have "Suc k * 2 ^ Suc l \<le> 2 ^ (63 - l) * 2 ^ Suc l" by (rule mult_le_mono1) (rule k)
  also have "\<dots> = (2 :: nat) ^ 64" using l by (rule level_width)
  finally have "Suc k * 2 ^ Suc l \<le> (2 :: nat) ^ 64" .
  moreover have "k * 2 ^ Suc l + 2 ^ l + 2 ^ l = Suc k * (2 :: nat) ^ Suc l" by simp
  moreover have "1 \<le> (2 :: nat) ^ l" by simp
  ultimately show ?thesis by linarith
qed

lemma unat_node: "in_tree l k \<Longrightarrow> unat (node l k) = k * 2 ^ Suc l + (2 ^ l - 1)"
  using in_tree_bound [of l k] by (simp only: node_of_nat unat_of_nat) simp

lemma isolate_node: "isolate_rightmost_zero_bit (node l k) = push_bit l 1"
  unfolding isolate_rightmost_zero_bit_def
  by (rule bit_eqI) (auto simp only: bit_u64_simps bit_node node_plus_1)

lemma bit_half: "l < i \<Longrightarrow> bit (k div 2) (i - Suc l) \<longleftrightarrow> bit (k :: nat) (i - l)"
  by (simp flip: bit_Suc add: Suc_diff_Suc)

lemma bit_double: "bit (2 * k) i \<longleftrightarrow> i \<noteq> 0 \<and> bit (k :: nat) (i - 1)"
  by (cases i) (auto simp: bit_Suc bit_0)

lemma bit_Suc_double: "bit (Suc (2 * k)) i \<longleftrightarrow> i = 0 \<or> bit (k :: nat) (i - 1)"
  by (cases i) (auto simp: bit_Suc bit_0)

lemma parent_node: "parent (node l k) = node (Suc l) (k div 2)"
proof (rule bit_eqI)
  fix i
  show "bit (parent (node l k)) i \<longleftrightarrow> bit (node (Suc l) (k div 2)) i"
    by (cases i "Suc l" rule: linorder_cases)
      (auto simp only: parent_def bit_u64_simps bit_node isolate_node, auto simp: bit_half)
qed

lemma is_leaf_node: "is_leaf (node l k) \<longleftrightarrow> l = 0"
proof -
  have "is_leaf (node l k) \<longleftrightarrow> \<not> bit (node l k) 0"
    by (auto simp: is_leaf_def bit_0 and_one_eq odd_iff_mod_2_eq_one)
  then show ?thesis by (simp add: bit_node)
qed

lemma left_child_bits: "(node (Suc l) k OR 0) AND NOT (drop_bit 1 (push_bit (Suc l) 1)) = node l (2 * k)"
  if "l < 63"
proof (rule bit_eqI)
  fix i
  show "bit ((node (Suc l) k OR 0) AND NOT (drop_bit 1 (push_bit (Suc l) 1))) i \<longleftrightarrow> bit (node l (2 * k)) i"
    using that by (cases i "Suc l" rule: linorder_cases)
      (auto simp only: bit_u64_simps bit_node bit_double, auto)
qed

lemma right_child_bits:
  "(node (Suc l) k OR push_bit (Suc l) 1) AND NOT (drop_bit 1 (push_bit (Suc l) 1)) = node l (Suc (2 * k))"
  if "l < 63"
proof (rule bit_eqI)
  fix i
  show "bit ((node (Suc l) k OR push_bit (Suc l) 1) AND NOT (drop_bit 1 (push_bit (Suc l) 1))) i
    \<longleftrightarrow> bit (node l (Suc (2 * k))) i"
    using that by (cases i "Suc l" rule: linorder_cases)
      (auto simp only: bit_u64_simps bit_node bit_Suc_double, auto)
qed

lemma left_child_node: "l < 63 \<Longrightarrow> left_child (node (Suc l) k) = Ok (node l (2 * k))"
  by (simp only: left_child_def child_def is_leaf_node isolate_node Let_def left_child_bits
      node_direction.case if_False simp_thms nat.distinct)

lemma right_child_node: "l < 63 \<Longrightarrow> right_child (node (Suc l) k) = Ok (node l (Suc (2 * k)))"
  by (simp only: right_child_def child_def is_leaf_node isolate_node Let_def right_child_bits
      node_direction.case if_False simp_thms nat.distinct)

lemma is_left_child_node: "is_left_child (node l k) \<longleftrightarrow> even k \<or> 63 \<le> l"
proof -
  have "bit (node l k AND push_bit 1 (push_bit l 1)) i \<longleftrightarrow> i = Suc l \<and> l < 63 \<and> bit k 0" for i
    by (cases i "Suc l" rule: linorder_cases) (auto simp only: bit_u64_simps bit_node, auto)
  then have "is_left_child (node l k) \<longleftrightarrow> \<not> (l < 63 \<and> bit k 0)"
    unfolding is_left_child_def isolate_node u64_eq_0_iff by blast
  then show ?thesis by (auto simp: bit_0)
qed

definition buddy :: "nat \<Rightarrow> nat" where
  "buddy k = (if even k then Suc k else k - 1)"

lemma bit_buddy: "bit (buddy k) i \<longleftrightarrow> (if i = 0 then even k else bit k i)"
  by (cases i) (auto simp: buddy_def bit_0 bit_Suc elim!: evenE oddE)

lemma sibling_node: "sibling (node l k) = node l (buddy k)"
proof (rule bit_eqI)
  fix i
  show "bit (sibling (node l k)) i \<longleftrightarrow> bit (node l (buddy k)) i"
    by (cases i "Suc l" rule: linorder_cases)
      (auto simp only: sibling_def bit_u64_simps bit_node isolate_node bit_buddy, auto simp: bit_0)
qed

lemma unat_u64_max: "unat (- 1 :: u64) = 2 ^ 64 - 1"
  by (simp add: unsigned_minus_1_eq_mask mask_eq_exp_minus_1)

section \<open>Every position is a node\<close>

lemma node_index_Suc: "k * 2 ^ Suc (Suc l) + (2 ^ Suc l - 1) = Suc (2 * (k * 2 ^ Suc l + ((2 :: nat) ^ l - 1)))"
proof -
  obtain m where "(2 :: nat) ^ l = Suc m" using not0_implies_Suc [of "2 ^ l"] by auto
  then show ?thesis by simp
qed

lemma trailing_ones_split: "n = n div 2 ^ Suc (trailing_ones n) * 2 ^ Suc (trailing_ones n) + (2 ^ trailing_ones n - 1)"
proof (induction n rule: less_induct)
  case (less n)
  show ?case
  proof (cases "odd n")
    case True
    then obtain m where n: "n = Suc (2 * m)" by (auto elim!: oddE)
    let ?t = "trailing_ones m"
    have d: "n div 2 ^ Suc (Suc ?t) = m div 2 ^ Suc ?t" by (simp only: power_Suc [of 2 "Suc ?t"] div_mult2_eq) (simp add: n)
    have "m = m div 2 ^ Suc ?t * 2 ^ Suc ?t + (2 ^ ?t - 1)" using less [of m] by (simp add: n)
    then have "n = Suc (2 * (m div 2 ^ Suc ?t * 2 ^ Suc ?t + (2 ^ ?t - 1)))" by (simp add: n)
    also have "\<dots> = n div 2 ^ Suc (Suc ?t) * 2 ^ Suc (Suc ?t) + (2 ^ Suc ?t - 1)"
      by (simp only: d node_index_Suc)
    finally show ?thesis by (simp add: n)
  next
    case False
    then show ?thesis by (simp add: trailing_ones.simps)
  qed
qed

lemma trailing_ones_node: "trailing_ones (k * 2 ^ Suc l + (2 ^ l - 1)) = l"
proof (induction l)
  case (Suc l)
  then show ?case by (simp only: node_index_Suc trailing_ones_Suc_double)
qed (simp add: trailing_ones.simps)

lemma unat_less_max: "(p :: u64) \<noteq> - 1 \<Longrightarrow> unat p < 2 ^ 64 - 1"
proof -
  assume "p \<noteq> - 1"
  then have "unat p \<noteq> unat (- 1 :: u64)" using word_unat_eq_iff by blast
  moreover have "unat p < 2 ^ 64" using unsigned_less [of p] by simp
  ultimately show ?thesis unfolding unat_u64_max by linarith
qed

lemma position_node:
  assumes "p \<noteq> - 1"
  obtains l k where "p = node l k" and "in_tree l k"
proof -
  let ?n = "unat p" and ?l = "trailing_ones (unat p)"
  let ?k = "?n div 2 ^ Suc ?l"
  have n: "?n < 2 ^ 64 - 1" using assms by (rule unat_less_max)
  have split: "?n = ?k * 2 ^ Suc ?l + (2 ^ ?l - 1)" by (rule trailing_ones_split)
  have p: "p = node ?l ?k" by (simp only: node_of_nat split [symmetric]) simp
  have "(2 :: nat) ^ ?l < 2 ^ 64" using n split by linarith
  then have l: "?l < 64" by (rule power_less_imp_less_exp [rotated]) simp
  then have "?n < 2 ^ (63 - ?l) * 2 ^ Suc ?l" using n level_width [of ?l] by linarith
  then have "?k < 2 ^ (63 - ?l)" by (simp only: less_mult_imp_div_less)
  with l have "in_tree ?l ?k" by (simp add: in_tree_def)
  with p show ?thesis by (rule that)
qed

lemma node_neq_max: "in_tree l k \<Longrightarrow> node l k \<noteq> - 1"
  using in_tree_bound [of l k] unat_node [of l k] by (auto simp: unat_u64_max)

lemma level_node: "in_tree l k \<Longrightarrow> level (node l k) = l"
  using trailing_zeros_not [OF in_tree_bound, of l k]
  by (simp only: level_def node_of_nat trailing_ones_node)

lemma node_eq_iff:
  assumes "in_tree l k" and "in_tree l' k'"
  shows "node l k = node l' k' \<longleftrightarrow> l = l' \<and> k = k'"
proof
  assume e: "node l k = node l' k'"
  with assms have "l = l'" using level_node [of l k] level_node [of l' k'] by simp
  moreover from this have "k * 2 ^ Suc l + (2 ^ l - 1) = k' * 2 ^ Suc l + (2 ^ l - 1)"
    using assms unat_node [of l k] unat_node [of l k'] e by simp
  ultimately show "l = l' \<and> k = k'" by (simp only: add_right_cancel mult_cancel2) simp
qed simp

lemma in_tree_half: "l < 63 \<Longrightarrow> (2 :: nat) ^ (63 - l) = 2 * 2 ^ (63 - Suc l)"
  by (subst power_Suc [symmetric], subst Suc_diff_Suc) simp_all

lemma in_tree_up: "in_tree l k \<Longrightarrow> l < 63 \<Longrightarrow> in_tree (Suc l) (k div 2)"
  by (auto simp: in_tree_def in_tree_half)

lemma in_tree_down: "in_tree (Suc l) k \<Longrightarrow> in_tree l (2 * k) \<and> in_tree l (Suc (2 * k))"
  by (auto simp: in_tree_def in_tree_half)

lemma in_tree_buddy: "in_tree l k \<Longrightarrow> l < 63 \<Longrightarrow> in_tree l (buddy k)"
  using in_tree_down [of l "k div 2"] in_tree_up [of l k]
  by (cases "even k") (auto simp: buddy_def elim!: evenE oddE)

lemma from_level_and_pos_node:
  assumes "in_tree l k"
  shows "from_level_and_pos l (of_nat k) = node l k"
proof -
  have l: "l < 64" using assms by (simp add: in_tree_def)
  have "shl 1 l - 1 = mask l" using l by (simp add: shl_def mask_eq_exp_minus_1)
  moreover have "(if l = 63 then 0 else shl (of_nat k) (l + 1)) = push_bit (Suc l) (of_nat k)"
    using assms l by (cases "l = 63") (simp_all add: shl_def in_tree_def)
  ultimately show ?thesis by (simp only: from_level_and_pos_def Let_def node_def)
qed

lemma from_leaf_index_node: "n < 2 ^ 63 \<Longrightarrow> from_leaf_index (of_nat n) = node 0 n"
  using from_level_and_pos_node [of 0 n] by (simp add: from_leaf_index_def in_tree_def)

section \<open>Roots, freezing and placeholders\<close>

lemma less_bit_length: "i < bit_length n \<longleftrightarrow> 2 ^ i \<le> n"
  using bit_length_le [of n i] le_pow_bit_length [of n] power_increasing [of "bit_length n" i "2 :: nat"]
  by (meson le_trans not_le one_le_numeral)

lemma smear_step:
  fixes v w :: u64
  assumes "\<And>i. bit w i \<longleftrightarrow> (\<exists>d<c. bit v (i + d))"
  shows "bit (w OR drop_bit c w) i \<longleftrightarrow> (\<exists>d<2 * c. bit v (i + d))"
proof -
  have "(\<exists>d<c. bit v (c + i + d)) \<longleftrightarrow> (\<exists>d. c \<le> d \<and> d < 2 * c \<and> bit v (i + d))"
  proof
    assume "\<exists>d<c. bit v (c + i + d)"
    then obtain d where "d < c" "bit v (i + (c + d))" by (auto simp: ac_simps)
    then show "\<exists>d. c \<le> d \<and> d < 2 * c \<and> bit v (i + d)" by (intro exI [of _ "c + d"]) simp
  next
    assume "\<exists>d. c \<le> d \<and> d < 2 * c \<and> bit v (i + d)"
    then obtain d where "c \<le> d" "d < 2 * c" "bit v (i + d)" by blast
    then show "\<exists>d<c. bit v (c + i + d)" by (intro exI [of _ "d - c"]) (simp add: ac_simps)
  qed
  moreover have "(\<exists>d<2 * c. bit v (i + d))
      \<longleftrightarrow> (\<exists>d<c. bit v (i + d)) \<or> (\<exists>d. c \<le> d \<and> d < 2 * c \<and> bit v (i + d))"
    by (metis leI less_le_trans mult_2 le_add1)
  ultimately show ?thesis by (simp only: bit_or_iff bit_drop_u64 assms)
qed

lemma bit_smear: "bit (smear_ones_for_u64 v) i \<longleftrightarrow> (\<exists>d<64. bit v (i + d))"
proof -
  have s0: "bit v i \<longleftrightarrow> (\<exists>d<1. bit v (i + d))" for i by simp
  note s1 = smear_step [OF s0] note s2 = smear_step [OF s1] note s4 = smear_step [OF s2]
  note s8 = smear_step [OF s4] note s16 = smear_step [OF s8] note s32 = smear_step [OF s16]
  show ?thesis unfolding smear_ones_for_u64_def Let_def using s32 [of i] by simp
qed

lemma smear_mask: "smear_ones_for_u64 v = mask (bit_length (unat v))"
proof (rule bit_eqI)
  fix i
  assume "possible_bit TYPE(64 word) i"
  then have i: "i < 64" by simp
  have "(\<exists>d<64. bit v (i + d)) \<longleftrightarrow> (\<exists>j. bit (drop_bit i v) j)"
    by (auto simp only: bit_drop_u64) (metis bit_u64_less add_lessD1 add.commute)+
  also have "\<dots> \<longleftrightarrow> drop_bit i v \<noteq> 0" by (simp only: u64_eq_0_iff) blast
  also have "\<dots> \<longleftrightarrow> unat v div 2 ^ i \<noteq> 0"
    by (simp only: word_unat_eq_iff unat_drop_bit_eq unat_0) (simp add: drop_bit_eq_div)
  also have "\<dots> \<longleftrightarrow> 2 ^ i \<le> unat v" by (simp add: div_eq_0_iff not_less)
  finally show "bit (smear_ones_for_u64 v) i \<longleftrightarrow> bit (mask (bit_length (unat v)) :: u64) i"
    using i by (simp add: bit_smear bit_mask_iff less_bit_length)
qed

lemma node_0: "node l 0 = mask l"
  by (simp add: node_def)

lemma root_from_leaf_index_node:
  assumes "n < 2 ^ 63"
  shows "root_from_leaf_index (of_nat n) = node (bit_length n) 0"
proof -
  have "unat (node 0 n) = 2 * n" using assms by (simp add: unat_node in_tree_def)
  moreover have "bit_length (2 * n) - 1 = bit_length n"
    by (cases "n = 0") (simp_all add: bit_length_double)
  moreover have "drop_bit 1 (mask l) = (mask (l - 1) :: u64)" if "l \<le> 64" for l
    using that by (intro bit_eqI) (auto simp only: bit_drop_u64 bit_mask_iff, auto)
  moreover have "bit_length (2 * n) \<le> 64" using assms by (intro bit_length_le) simp
  ultimately show ?thesis
    using assms by (simp only: root_from_leaf_index_def from_leaf_index_node smear_mask node_0)
qed

lemma in_tree_root: "l < 64 \<Longrightarrow> in_tree l 0"
  by (simp add: in_tree_def)

lemma of_nat_pred: "0 < n \<Longrightarrow> (of_nat n :: u64) - 1 = of_nat (n - 1)"
  by (cases n) simp_all

lemma of_nat_u64_pos: "0 < n \<Longrightarrow> n < 2 ^ 64 \<Longrightarrow> 0 < (of_nat n :: u64)"
  by (simp add: word_less_nat_alt unat_of_nat)

lemma leading_zeros_of_nat: "n < 2 ^ 64 \<Longrightarrow> leading_zeros (of_nat n) = 64 - bit_length n"
  by (simp add: leading_zeros_def unat_of_nat)

lemma tree_depth_le_63: "n \<le> 2 ^ 63 \<Longrightarrow> tree_depth n \<le> 63"
  by (rule tree_depth_le)

lemma root_from_leaf_count_node:
  assumes "0 < n" and "n \<le> 2 ^ 63"
  shows "root_from_leaf_count (of_nat n) = Ok (node (tree_depth n) 0)"
proof -
  have "0 < (of_nat n :: u64)" and n: "n - 1 < 2 ^ 63" using assms of_nat_u64_pos [of n] by simp_all
  then show ?thesis
    by (simp only: root_from_leaf_count_def of_nat_pred [OF assms(1)] if_True tree_depth_def
        root_from_leaf_index_node [OF n])
qed

lemma root_level_from_leaf_count_depth:
  assumes "0 < n" and "n \<le> 2 ^ 63"
  shows "root_level_from_leaf_count (of_nat n) = Ok (tree_depth n)"
proof -
  have "0 < (of_nat n :: u64)" and n: "n - 1 < 2 ^ 64" using assms of_nat_u64_pos [of n] by simp_all
  moreover have "bit_length (n - 1) \<le> 63" using tree_depth_le_63 [OF assms(2)] by (simp add: tree_depth_def)
  ultimately show ?thesis
    by (simp only: root_level_from_leaf_count_def of_nat_pred [OF assms(1)] if_True Let_def tree_depth_def
        leading_zeros_of_nat [OF n] max_accumulator_proof_depth_def) simp
qed

lemma unat_leaf: "n < 2 ^ 63 \<Longrightarrow> unat (node 0 n) = 2 * n"
  using unat_node [of 0 n] by (simp add: in_tree_def)

lemma right_most_child_node:
  assumes "in_tree l k"
  shows "right_most_child (node l k) = node 0 (k * 2 ^ l + (2 ^ l - 1))"
proof -
  obtain m where m: "(2 :: nat) ^ l = Suc m" using not0_implies_Suc [of "2 ^ l"] by auto
  have "(2 :: u64) ^ l = of_nat (Suc m)" using m by (metis of_nat_numeral of_nat_power)
  moreover have "l < 64" using assms by (simp add: in_tree_def)
  ultimately have "shl 1 l = of_nat (Suc m)" by (simp add: shl_def)
  then have "right_most_child (node l k) = node l k + of_nat (Suc m) - 1"
    by (simp only: right_most_child_def level_node [OF assms])
  then show ?thesis by (simp add: node_of_nat m algebra_simps)
qed

lemma bit_mult_pow: "bit (k * 2 ^ l) i \<longleftrightarrow> l \<le> i \<and> bit (k :: nat) (i - l)"
  by (simp only: push_bit_eq_mult [symmetric] bit_push_bit_iff) simp

lemma left_most_child_node:
  assumes "in_tree l k"
  shows "left_most_child (node l k) = node 0 (k * 2 ^ l)"
proof -
  have l: "l < 64" using assms by (simp add: in_tree_def)
  have "push_bit l (drop_bit l (node l k)) = node 0 (k * 2 ^ l)"
  proof (rule bit_eqI)
    fix i
    show "bit (push_bit l (drop_bit l (node l k))) i \<longleftrightarrow> bit (node 0 (k * 2 ^ l)) i"
      by (cases i l rule: linorder_cases) (auto simp only: bit_u64_simps bit_node bit_mult_pow, auto)
  qed
  then show ?thesis
    using l by (simp only: left_most_child_def turn_off_right_most_n_bits_def level_node [OF assms] shl_def shr_def mod_less)
qed

lemma in_tree_leaves: "in_tree l k \<Longrightarrow> Suc k * 2 ^ l \<le> (2 :: nat) ^ 63"
proof -
  assume t: "in_tree l k"
  then have "Suc k * 2 ^ l \<le> 2 ^ (63 - l) * 2 ^ l" by (intro mult_le_mono1) (simp add: in_tree_def)
  also have "\<dots> = (2 :: nat) ^ 63" using t by (simp only: power_add [symmetric]) (simp add: in_tree_def)
  finally show ?thesis .
qed

lemma last_leaf: "Suc (k * 2 ^ l + (2 ^ l - 1)) = Suc k * (2 :: nat) ^ l"
  by simp

lemma last_leaf_bound: "in_tree l k \<Longrightarrow> k * 2 ^ l + (2 ^ l - 1) < (2 :: nat) ^ 63"
  using in_tree_leaves [of l k] unfolding last_leaf [symmetric] by (rule Suc_le_lessD)

lemma is_freezable_last:
  assumes "in_tree l k" and "n < 2 ^ 63"
  shows "is_freezable (node l k) (of_nat n) \<longleftrightarrow> k * 2 ^ l + (2 ^ l - 1) \<le> n"
  using assms last_leaf_bound [OF assms(1)]
  by (simp only: is_freezable_def right_most_child_node from_leaf_index_node word_le_nat_alt unat_leaf) simp

lemma is_freezable_node:
  assumes "in_tree l k" and "n < 2 ^ 63"
  shows "is_freezable (node l k) (of_nat n) \<longleftrightarrow> Suc k * 2 ^ l \<le> Suc n"
  unfolding is_freezable_last [OF assms] last_leaf [symmetric] by (simp only: Suc_le_mono)

lemma is_placeholder_node:
  assumes "in_tree l k" and "n < 2 ^ 63"
  shows "is_placeholder (node l k) (of_nat n) \<longleftrightarrow> n < k * 2 ^ l"
proof -
  have "k * 2 ^ l < Suc k * 2 ^ l" by simp
  then have "k * 2 ^ l < 2 ^ 63" using in_tree_leaves [OF assms(1)] by (rule less_le_trans)
  then have "left_most_child (node l k) \<le> from_leaf_index (of_nat n) \<longleftrightarrow> k * 2 ^ l \<le> n"
    using assms by (simp only: left_most_child_node from_leaf_index_node word_le_nat_alt unat_leaf) simp
  moreover have "node l k \<le> from_leaf_index (of_nat n) \<longleftrightarrow> k * 2 ^ Suc l + (2 ^ l - 1) \<le> 2 * n"
    using assms by (simp only: from_leaf_index_node word_le_nat_alt unat_leaf unat_node)
  moreover have "\<not> k * 2 ^ Suc l + (2 ^ l - 1) \<le> 2 * n" if "n < k * 2 ^ l"
  proof -
    have "k * 2 ^ Suc l = 2 * (k * 2 ^ l)" by simp
    then show ?thesis using that by (simp only: not_le)
  qed
  ultimately show ?thesis
    by (cases "n < k * 2 ^ l") (simp_all only: is_placeholder_def Let_def not_less if_True if_False simp_thms if_cancel flip: not_le)
qed

section \<open>Traversal orders\<close>

fun inorder_nodes :: "nat \<Rightarrow> nat \<Rightarrow> position list" where
  "inorder_nodes 0 k = [node 0 k]"
| "inorder_nodes (Suc l) k = inorder_nodes l (2 * k) @ node (Suc l) k # inorder_nodes l (Suc (2 * k))"

fun postorder_nodes :: "nat \<Rightarrow> nat \<Rightarrow> position list" where
  "postorder_nodes 0 k = [node 0 k]"
| "postorder_nodes (Suc l) k = postorder_nodes l (2 * k) @ postorder_nodes l (Suc (2 * k)) @ [node (Suc l) k]"

definition postorder_index :: "nat \<Rightarrow> nat \<Rightarrow> nat" where
  "postorder_index l k = (2 ^ Suc l - 2) + (k * 2 ^ Suc l - count_ones_nat k)"

lemma count_ones_nat_le: "count_ones_nat n \<le> n"
proof (induction n rule: less_induct)
  case (less n)
  show ?case
  proof (cases "n = 0")
    case False
    then have "count_ones_nat (n div 2) \<le> n div 2" by (intro less) simp
    then show ?thesis using False by (subst count_ones_nat.simps) simp
  qed simp
qed

lemma count_ones_nat_le_mult: "count_ones_nat k \<le> k * 2 ^ l"
  using count_ones_nat_le [of k] by (rule order_trans) simp

lemma postorder_index_bound: "in_tree l k \<Longrightarrow> postorder_index l k < 2 ^ 64 - 1"
proof -
  assume t: "in_tree l k"
  then have "l < 64" by (simp add: in_tree_def)
  have "Suc k * 2 ^ Suc l \<le> 2 ^ (63 - l) * 2 ^ Suc l" using t by (intro mult_le_mono1) (simp add: in_tree_def)
  then have "2 ^ Suc l + k * 2 ^ Suc l \<le> (2 :: nat) ^ 64" by (simp only: level_width [OF \<open>l < 64\<close>] mult_Suc)
  moreover have "(2 :: nat) \<le> 2 ^ Suc l" by simp
  ultimately show ?thesis unfolding postorder_index_def by linarith
qed

lemma to_postorder_node:
  assumes "in_tree l k"
  shows "to_postorder_index (node l k) = of_nat (postorder_index l k)"
proof -
  let ?u = "k * 2 ^ Suc l"
  have u: "node l k XOR (push_bit l 1 - 1) = of_nat ?u"
  proof -
    have "(push_bit l 1 - 1 :: u64) = mask l" by (simp add: mask_eq_exp_minus_1)
    moreover have "node l k XOR mask l = push_bit (Suc l) (of_nat k)"
      by (rule bit_eqI) (auto simp only: bit_u64_simps bit_node bit_mask_iff, auto)
    moreover have "push_bit (Suc l) (of_nat k) = (of_nat ?u :: u64)" by (simp add: push_bit_eq_mult)
    ultimately show ?thesis by simp
  qed
  have "?u < 2 ^ 64" using in_tree_bound [OF assms] by linarith
  then have c: "count_ones (of_nat ?u) = count_ones_nat k"
    by (simp only: count_ones_def unat_of_nat) (simp add: count_ones_nat_mult [of k "Suc l", simplified])
  have two: "(2 :: nat) \<le> 2 ^ Suc l" by simp
  have "push_bit 1 (push_bit l 1) - 2 = (of_nat (2 ^ Suc l - 2) :: u64)"
    using two by (simp only: of_nat_diff) (simp add: push_bit_eq_mult)
  moreover have "of_nat ?u - of_nat (count_ones_nat k) = (of_nat (?u - count_ones_nat k) :: u64)"
    using count_ones_nat_le_mult by (simp only: of_nat_diff)
  ultimately show ?thesis
    by (simp only: to_postorder_index_def to_inorder_index_def inorder_to_postorder_def children_of_node_def
        nodes_to_left_of_def isolate_node Let_def u c postorder_index_def of_nat_add)
qed

lemma unat_to_postorder: "in_tree l k \<Longrightarrow> unat (to_postorder_index (node l k)) = postorder_index l k"
  using postorder_index_bound [of l k] by (simp only: to_postorder_node unat_of_nat) simp

lemma upt_last: "[a..<a + w] @ [a + w..<a + w + v] @ [a + w + v] = [a..<Suc (a + w + v)]"
proof -
  have "[a..<a + w + v] = [a..<a + w] @ [a + w..<a + w + v]" by (rule upt_add_eq_append) simp
  then show ?thesis by simp
qed

lemma upt_middle: "[a..<a + w] @ (a + w) # [Suc (a + w)..<Suc (a + w) + v] = [a..<Suc (a + w) + v]"
proof -
  have "[a..<a + w + Suc v] = [a..<a + w] @ [a + w..<a + w + Suc v]" by (rule upt_add_eq_append) simp
  then show ?thesis by (simp add: upt_conv_Cons)
qed

lemma unat_to_inorder: "in_tree l k \<Longrightarrow> unat (to_inorder_index (node l k)) = k * 2 ^ Suc l + (2 ^ l - 1)"
  by (simp only: to_inorder_index_def unat_node)

lemma postorder_nodes_index:
  "in_tree l k \<Longrightarrow> map (\<lambda>p. unat (to_postorder_index p)) (postorder_nodes l k)
     = [k * 2 ^ Suc l - count_ones_nat k ..< Suc (postorder_index l k)]"
proof (induction l arbitrary: k)
  case 0
  then show ?case by (simp add: unat_to_postorder) (simp add: postorder_index_def)
next
  case (Suc l)
  let ?a = "k * 2 ^ Suc (Suc l) - count_ones_nat k" and ?w = "2 ^ Suc l - 1 :: nat"
  obtain m where m: "(2 :: nat) ^ l = Suc m" using not0_implies_Suc [of "2 ^ l"] by auto
  have le: "count_ones_nat k \<le> k * 2 ^ Suc (Suc l)" by (rule count_ones_nat_le_mult)
  have l: "2 * k * 2 ^ Suc l - count_ones_nat (2 * k) = ?a" by (simp add: count_ones_nat_double)
  have r: "Suc (2 * k) * 2 ^ Suc l - count_ones_nat (Suc (2 * k)) = ?a + ?w"
    using le by (simp add: count_ones_nat_Suc_double m)
  have el: "Suc (postorder_index l (2 * k)) = ?a + ?w"
    unfolding postorder_index_def l by (simp add: m)
  have er: "Suc (postorder_index l (Suc (2 * k))) = ?a + ?w + ?w"
    unfolding postorder_index_def r by (simp add: m)
  have e: "postorder_index (Suc l) k = ?a + ?w + ?w"
    unfolding postorder_index_def by (simp add: m)
  show ?case
    using in_tree_down [OF Suc.prems] Suc.prems
    by (simp only: postorder_nodes.simps map_append list.map Suc.IH l r el er unat_to_postorder e upt_last)
qed

lemma inorder_nodes_index:
  "in_tree l k \<Longrightarrow> map (\<lambda>p. unat (to_inorder_index p)) (inorder_nodes l k)
     = [k * 2 ^ Suc l ..< Suc k * 2 ^ Suc l - 1]"
proof (induction l arbitrary: k)
  case 0
  then show ?case by (simp add: unat_node to_inorder_index_def)
next
  case (Suc l)
  let ?a = "k * 2 ^ Suc (Suc l)" and ?w = "2 ^ Suc l - 1 :: nat"
  obtain m where m: "(2 :: nat) ^ l = Suc m" using not0_implies_Suc [of "2 ^ l"] by auto
  have "2 * k * 2 ^ Suc l = ?a" "Suc (2 * k) * 2 ^ Suc l - 1 = ?a + ?w" "Suc (2 * k) * 2 ^ Suc l = Suc (?a + ?w)"
    "Suc (Suc (2 * k)) * 2 ^ Suc l - 1 = Suc (?a + ?w) + ?w" "Suc k * 2 ^ Suc (Suc l) - 1 = Suc (?a + ?w) + ?w"
    by (simp_all add: m)
  then show ?case
    using in_tree_down [OF Suc.prems] Suc.prems
    by (simp only: inorder_nodes.simps map_append list.map Suc.IH unat_to_inorder upt_middle)
qed

section \<open>From a post-order number back to the node\<close>

lemma drop_mask_u64: "l < 64 \<Longrightarrow> drop_bit 1 (mask (Suc l)) = (mask l :: u64)"
  by (rule bit_eqI) (auto simp only: bit_drop_u64 bit_mask_iff, auto)

lemma mask_Suc_u64: "mask (Suc l) = push_bit l 1 OR (mask l :: u64)"
  by (rule bit_eqI) (auto simp only: bit_u64_simps bit_mask_iff, auto)

lemma mask_of_nat: "mask l = (of_nat (2 ^ l - 1) :: u64)"
  using node_of_nat [of l 0] by (simp only: node_0 mult_0 add_0)

lemma postorder_loop_take:
  assumes "i < 64" and "n < 2 ^ 64" and "2 ^ Suc i - 1 \<le> n"
  shows "postorder_loop (Suc i) (of_nat n) (mask (Suc i)) b
    = postorder_loop i (of_nat (n - (2 ^ Suc i - 1))) (mask i) (b OR push_bit i 1)"
proof -
  have "(2 :: nat) ^ Suc i - 1 < 2 ^ 64" using assms(2,3) by (rule le_less_trans [rotated])
  then have "mask (Suc i) \<le> (of_nat n :: u64)"
    using assms by (simp only: mask_of_nat word_le_nat_alt unat_of_nat) simp
  moreover have "of_nat n - mask (Suc i) = (of_nat (n - (2 ^ Suc i - 1)) :: u64)"
    using assms by (simp only: mask_of_nat of_nat_diff)
  ultimately show ?thesis by (simp only: postorder_loop.simps if_True drop_mask_u64 [OF assms(1)])
qed

lemma postorder_loop_skip:
  assumes "i < 64" and "n < 2 ^ Suc i - 1"
  shows "postorder_loop (Suc i) (of_nat n) (mask (Suc i)) b = postorder_loop i (of_nat n) (mask i) b"
proof -
  have "(2 :: nat) ^ Suc i \<le> 2 ^ 64" using assms(1) by (intro power_increasing) simp_all
  then have "\<not> mask (Suc i) \<le> (of_nat n :: u64)"
    using assms(2) by (simp only: mask_of_nat word_le_nat_alt unat_of_nat) simp
  then show ?thesis by (simp only: postorder_loop.simps if_False drop_mask_u64 [OF assms(1)])
qed

lemma postorder_loop_low:
  "m \<le> l \<Longrightarrow> l < 64 \<Longrightarrow>
     postorder_loop m (of_nat (2 ^ Suc m + (l - m) - 2)) (mask m) b = (of_nat l, b OR mask m)"
proof (induction m arbitrary: b)
  case (Suc m)
  let ?n = "2 ^ Suc (Suc m) + (l - Suc m) - 2"
  obtain c where c: "(2 :: nat) ^ Suc m = Suc c" using not0_implies_Suc [of "2 ^ Suc m"] by auto
  have "Suc m \<le> l" "m < 64" using Suc.prems by simp_all
  moreover have "?n < 2 ^ 64"
  proof (cases "l = Suc m")
    case True
    have "(2 :: nat) ^ Suc (Suc m) \<le> 2 ^ 64" using Suc.prems by (intro power_increasing) simp_all
    with True show ?thesis by simp
  next
    case False
    then have "(2 :: nat) ^ Suc (Suc m) \<le> 2 ^ 63" using Suc.prems by (intro power_increasing) simp_all
    with Suc.prems show ?thesis by simp
  qed
  moreover have "2 ^ Suc m - 1 \<le> ?n" by (simp add: c power_Suc [of 2 "Suc m"] del: power_Suc)
  moreover have "?n - (2 ^ Suc m - 1) = 2 ^ Suc m + (l - m) - 2"
    using Suc.prems by (simp add: c power_Suc [of 2 "Suc m"] del: power_Suc)
  ultimately show ?case
    using Suc by (simp only: postorder_loop_take Suc.IH) (simp add: mask_Suc_u64 or.assoc)
qed simp


lemma postorder_index_top:
  assumes "k < 2 ^ j"
  shows "postorder_index l (2 ^ j + k) = (2 ^ Suc (l + j) - 1) + postorder_index l k"
proof -
  obtain c where c: "(2 :: nat) ^ Suc (l + j) = Suc c" using not0_implies_Suc [of "2 ^ Suc (l + j)"] by auto
  have "(2 ^ j + k) * 2 ^ Suc l = Suc c + k * 2 ^ Suc l"
    by (simp only: add_mult_distrib c [symmetric]) (simp add: power_add)
  then show ?thesis
    using count_ones_nat_le_mult [of k "Suc l"]
    by (simp only: postorder_index_def count_ones_nat_top [OF assms] c)
qed

lemma postorder_index_small:
  assumes "k < 2 ^ j"
  shows "postorder_index l k < 2 ^ Suc (l + j) - 1"
proof -
  have "Suc k * 2 ^ Suc l \<le> 2 ^ j * 2 ^ Suc l" using assms by (intro mult_le_mono1) simp
  then have "2 ^ Suc l + k * 2 ^ Suc l \<le> (2 :: nat) ^ Suc (l + j)"
    by (simp only: mult_Suc power_add [symmetric] add_Suc_right add.commute)
  moreover have "(2 :: nat) \<le> 2 ^ Suc l" by simp
  ultimately show ?thesis unfolding postorder_index_def by linarith
qed

lemma push_bit_top:
  assumes "k < 2 ^ j"
  shows "push_bit l (of_nat (2 ^ j + k)) = push_bit (l + j) 1 OR (push_bit l (of_nat k) :: u64)"
proof -
  have "push_bit (l + j) 1 OR push_bit l (of_nat k) = push_bit (l + j) 1 + (push_bit l (of_nat k) :: u64)"
  proof (rule disjunctive_add [symmetric])
    fix i
    show "\<not> bit (push_bit (l + j) 1 :: u64) i \<or> \<not> bit (push_bit l (of_nat k) :: u64) i"
      using bit_nat_bound [OF assms, of "i - l"] by (auto simp only: bit_u64_simps, auto)
  qed
  then show ?thesis by (simp add: push_bit_eq_mult power_add algebra_simps)
qed

lemma postorder_loop_high:
  "l + j \<le> 63 \<Longrightarrow> k < 2 ^ j \<Longrightarrow>
     postorder_loop (l + j) (of_nat (postorder_index l k)) (mask (l + j)) b
       = postorder_loop l (of_nat (2 ^ Suc l - 2)) (mask l) (b OR push_bit l (of_nat k))"
proof (induction j arbitrary: k b)
  case 0
  then show ?case by (simp add: postorder_index_def)
next
  case (Suc j)
  show ?case
  proof (cases "k < 2 ^ j")
    case True
    then show ?thesis
      using Suc postorder_index_small [OF True, of l]
      by (simp only: add_Suc_right postorder_loop_skip)
  next
    case False
    define k' where "k' = k - 2 ^ j"
    have k: "k = 2 ^ j + k'" "k' < 2 ^ j" using False Suc.prems by (simp_all add: k'_def)
    have "(2 :: nat) ^ Suc j \<le> 2 ^ (63 - l)" using Suc.prems(1) by (intro power_increasing) simp_all
    then have "in_tree l k" using Suc.prems by (simp add: in_tree_def)
    then have "postorder_index l k < 2 ^ 64" using postorder_index_bound [of l k] by linarith
    moreover have "push_bit (l + j) 1 OR push_bit l (of_nat k') = (push_bit l (of_nat k) :: u64)"
      unfolding k(1) by (rule push_bit_top [OF k(2), symmetric])
    moreover have "postorder_loop (l + Suc j) (of_nat (postorder_index l k)) (mask (l + Suc j)) b
        = postorder_loop (l + j) (of_nat (postorder_index l k')) (mask (l + j)) (b OR push_bit (l + j) 1)"
      using postorder_loop_take [of "l + j" "postorder_index l k" b] Suc.prems(1) calculation
        postorder_index_top [OF k(2), of l] k(1)
      by (simp only: add_Suc_right) simp
    ultimately show ?thesis using Suc.IH [of k' "b OR push_bit (l + j) 1"] Suc.prems(1) k(2)
      by (simp only: or.assoc)
  qed
qed

lemma mask_full: "mask 64 = (NOT 0 :: u64)"
  by (rule bit_eqI) (simp add: bit_mask_iff bit_not_iff)

lemma postorder_to_inorder_node:
  assumes "in_tree l k"
  shows "postorder_to_inorder (of_nat (postorder_index l k)) = node l k"
proof -
  have l: "l < 64" and k: "k < 2 ^ (63 - l)" using assms by (simp_all add: in_tree_def)
  have "postorder_loop 64 (of_nat (postorder_index l k)) (NOT 0) 0
      = postorder_loop (Suc 63) (of_nat (postorder_index l k)) (mask (Suc 63)) 0"
    using mask_full by simp
  also have "\<dots> = postorder_loop (l + (63 - l)) (of_nat (postorder_index l k)) (mask (l + (63 - l))) 0"
    using postorder_loop_skip [of 63 "postorder_index l k"] postorder_index_bound [OF assms] l by simp
  also have "\<dots> = (of_nat l, push_bit l (of_nat k) OR mask l)"
    using postorder_loop_high [of l "63 - l" k 0] postorder_loop_low [of l l] l k by simp
  finally have loop: "postorder_loop 64 (of_nat (postorder_index l k)) (NOT 0) 0
    = (of_nat l, push_bit l (of_nat k) OR mask l)" .
  have "shr (push_bit l (of_nat k) OR mask l) l = of_nat k"
  proof -
    have "drop_bit l (push_bit l (of_nat k) OR mask l) = (of_nat k :: u64)"
      using l k by (intro bit_eqI) (auto simp only: bit_u64_simps bit_mask_iff dest: bit_nat_bound [OF k], auto dest: bit_nat_bound [OF k])
    then show ?thesis using l by (simp add: shr_def)
  qed
  moreover have "unat (of_nat l :: u64) mod 2 ^ 32 = l" using l by (simp add: unat_of_nat)
  ultimately show ?thesis
    by (simp only: postorder_to_inorder_def loop Let_def prod.case to_inorder_index_def
        from_level_and_pos_node [OF assms])
qed

lemma from_postorder_node: "in_tree l k \<Longrightarrow> from_postorder_index (of_nat (postorder_index l k)) = Ok (node l k)"
proof -
  assume t: "in_tree l k"
  then have "of_nat (postorder_index l k) < (NOT 0 :: u64)"
    using postorder_index_bound [OF t] unat_u64_max by (simp add: word_less_nat_alt unat_of_nat)
  then show ?thesis by (simp add: from_postorder_index_def ensure_def postorder_to_inorder_node [OF t])
qed

lemma postorder_surj:
  assumes "i < 2 ^ 64 - 1"
  obtains l k where "in_tree l k" and "i = postorder_index l k"
proof -
  have t: "in_tree 63 0" by (simp add: in_tree_def)
  have "i \<in> set [0 * 2 ^ Suc 63 - count_ones_nat 0 ..< Suc (postorder_index 63 0)]"
    using assms by (simp add: postorder_index_def)
  then have "i \<in> (\<lambda>p. unat (to_postorder_index p)) ` set (postorder_nodes 63 0)"
    using postorder_nodes_index [OF t] by (metis list.set_map)
  then obtain p where p: "i = unat (to_postorder_index p)" "p \<in> set (postorder_nodes 63 0)" by blast
  have "\<exists>l' k'. in_tree l' k' \<and> q = node l' k'" if "in_tree l k" "q \<in> set (postorder_nodes l k)" for l k q
    using that by (induction l k rule: postorder_nodes.induct) (auto dest: in_tree_down)
  from this [OF t p(2)] obtain l k where "in_tree l k" "p = node l k" by blast
  then show ?thesis using p(1) unat_to_postorder [of l k] by (intro that [of l k]) simp_all
qed

section \<open>Properties\<close>

text \<open>
  C26. The number the bit manipulation of \<open>to_postorder_index\<close> computes is the place of the node in the
  post-order traversal of the tree: along that traversal of the subtree under any node the numbers
  are consecutive, and over the whole tree they are 0, 1, 2 and so on. In the same way the position
  itself is the number of the node in the in-order traversal.
\<close>

theorem traversal_numbers:
  assumes "in_tree l k"
  shows "map (\<lambda>p. unat (to_postorder_index p)) (postorder_nodes l k)
      = [k * 2 ^ Suc l - count_ones_nat k ..< Suc k * 2 ^ Suc l - 1 - count_ones_nat k]
    \<and> map (\<lambda>p. unat (to_inorder_index p)) (inorder_nodes l k) = [k * 2 ^ Suc l ..< Suc k * 2 ^ Suc l - 1]
    \<and> map (\<lambda>p. unat (to_postorder_index p)) (postorder_nodes 63 0) = [0 ..< 2 ^ 64 - 1]"
proof -
  have "Suc (postorder_index l k) = Suc k * 2 ^ Suc l - 1 - count_ones_nat k"
    using count_ones_nat_le_mult [of k "Suc l"] one_le_power [of "2 :: nat" l]
    unfolding postorder_index_def by (simp only: mult_Suc power_Suc [of 2 l]) linarith
  moreover have "Suc (postorder_index 63 0) = 2 ^ 64 - 1" by (simp add: postorder_index_def)
  ultimately show ?thesis
    using postorder_nodes_index [OF assms] inorder_nodes_index [OF assms] postorder_nodes_index [of 63 0]
    by (simp only: in_tree_root) simp
qed

text \<open>
  C27. The post-order number of a node leads back to the node, and every number below \<open>2 ^ 64 - 1\<close> is
  the number of exactly one node; \<open>from_postorder_index\<close> rejects \<open>2 ^ 64 - 1\<close> itself.
\<close>

theorem postorder_roundtrip:
  "(p \<noteq> u64_max \<longrightarrow> from_postorder_index (to_postorder_index p) = Ok p)
   \<and> (i \<noteq> u64_max \<longrightarrow> (\<exists>q. q \<noteq> u64_max \<and> from_postorder_index i = Ok q \<and> to_postorder_index q = i))
   \<and> (\<exists>e. from_postorder_index u64_max = Err e)"
proof (intro conjI impI)
  assume "p \<noteq> u64_max"
  then obtain l k where "p = node l k" "in_tree l k" by (rule position_node)
  then show "from_postorder_index (to_postorder_index p) = Ok p"
    by (simp add: to_postorder_node from_postorder_node)
next
  assume "i \<noteq> u64_max"
  then have "unat i < 2 ^ 64 - 1" by (rule unat_less_max)
  then obtain l k where t: "in_tree l k" and i: "unat i = postorder_index l k" by (rule postorder_surj)
  have "i = of_nat (unat i)" by simp
  with i have i: "i = of_nat (postorder_index l k)" by (simp only:)
  show "\<exists>q. q \<noteq> u64_max \<and> from_postorder_index i = Ok q \<and> to_postorder_index q = i"
    using t node_neq_max [OF t] by (intro exI [of _ "node l k"]) (simp add: i from_postorder_node to_postorder_node)
next
  show "\<exists>e. from_postorder_index u64_max = Err e" by (simp add: from_postorder_index_def ensure_def)
qed

text \<open>
  C28. On the \<open>k\<close>-th node of level \<open>l\<close> each operation of \<open>Position\<close> does what its name says: it
  finds the parent, the children, the sibling, the first and the last leaf below it, and it tells
  whether all the leaves below the node, or none of them, are among the first \<open>n + 1\<close>.
\<close>

theorem position_operations:
  assumes "in_tree l k" and "n < 2 ^ 63"
  shows "level (node l k) = l \<and> from_level_and_pos l (of_nat k) = node l k \<and> (is_leaf (node l k) \<longleftrightarrow> l = 0)
    \<and> (l < 63 \<longrightarrow> parent (node l k) = node (Suc l) (k div 2) \<and> (is_left_child (node l k) \<longleftrightarrow> even k)
         \<and> sibling (node l k) = node l (if even k then k + 1 else k - 1))
    \<and> (0 < l \<longrightarrow> left_child (node l k) = Ok (node (l - 1) (2 * k))
         \<and> right_child (node l k) = Ok (node (l - 1) (2 * k + 1)))
    \<and> left_most_child (node l k) = from_leaf_index (of_nat (k * 2 ^ l))
    \<and> right_most_child (node l k) = from_leaf_index (of_nat (k * 2 ^ l + (2 ^ l - 1)))
    \<and> (is_freezable (node l k) (of_nat n) \<longleftrightarrow> k * 2 ^ l + (2 ^ l - 1) \<le> n)
    \<and> (is_placeholder (node l k) (of_nat n) \<longleftrightarrow> n < k * 2 ^ l)"
proof (intro conjI impI)
  assume "0 < l"
  then obtain m where m: "l = Suc m" "m < 63" using assms(1) by (cases l) (simp_all add: in_tree_def)
  then show "left_child (node l k) = Ok (node (l - 1) (2 * k))"
    and "right_child (node l k) = Ok (node (l - 1) (2 * k + 1))"
    by (simp_all add: left_child_node right_child_node)
next
  have "k * 2 ^ l + (2 ^ l - 1) < 2 ^ 63" by (rule last_leaf_bound [OF assms(1)])
  then show "left_most_child (node l k) = from_leaf_index (of_nat (k * 2 ^ l))"
    and "right_most_child (node l k) = from_leaf_index (of_nat (k * 2 ^ l + (2 ^ l - 1)))"
    using assms by (simp_all only: left_most_child_node right_most_child_node from_leaf_index_node add_lessD1)
next
  show "is_freezable (node l k) (of_nat n) \<longleftrightarrow> k * 2 ^ l + (2 ^ l - 1) \<le> n"
    using assms by (rule is_freezable_last)
qed (use assms in \<open>simp_all add: level_node from_level_and_pos_node is_leaf_node parent_node is_left_child_node
       sibling_node buddy_def is_placeholder_node\<close>)

theorem position_operations_witness:
  "level 11 = 2 \<and> parent 11 = 7 \<and> sibling 11 = 3 \<and> left_child 11 = Ok 9 \<and> right_child 11 = Ok 13
    \<and> left_most_child 11 = 8 \<and> right_most_child 11 = 14 \<and> is_freezable 11 7 \<and> \<not> is_placeholder 11 7"
proof -
  have n: "in_tree 2 1" "node 2 1 = 11" "node 3 0 = 7" "node 2 0 = 3" "node 1 2 = 9" "node 1 3 = 13"
    by (simp_all add: in_tree_def node_of_nat)
  have "node 2 (Suc 0) = 11" using n(2) by simp
  then show ?thesis
    using position_operations [of 2 1 7] n by (simp add: from_leaf_index_def from_level_and_pos_def shl_def)
qed

theorem traversal_numbers_witness:
  "map (\<lambda>p. unat (to_postorder_index p)) (postorder_nodes 1 1) = [3, 4, 5]
   \<and> map (\<lambda>p. unat (to_inorder_index p)) (inorder_nodes 1 1) = [4, 5, 6]"
  using traversal_numbers [of 1 1]
  by (simp add: in_tree_def count_ones_nat.simps)

theorem postorder_roundtrip_witness:
  "from_postorder_index (to_postorder_index 11) = Ok 11 \<and> (\<exists>q. from_postorder_index 13 = Ok q)"
  using postorder_roundtrip [of 11 13] by auto

end
