(* ===== verification/Merkle_Accumulator.thy ===== *)
theory Merkle_Accumulator
  imports Tree_Position
begin

unbundle bit_operations_syntax

text \<open>
  \<open>storage/accumulator/src/lib.rs\<close>: the Merkle accumulator over a store of frozen nodes. The parameter
  \<open>reader\<close> is the \<open>HashReader\<close>, which may fail; \<open>H\<close> hashes an internal node. A
  \<open>MerkleAccumulatorView\<close> is the pair of the reader and the number of leaves, which the definitions
  take as arguments.
\<close>

section \<open>The accumulator\<close>

type_synonym hash_reader = "position \<Rightarrow> (hash_value, anyhow) result"

definition rightmost_leaf_index :: "u64 \<Rightarrow> u64" where
  "rightmost_leaf_index num_leaves = num_leaves - 1"

text \<open>Walking down from a node that is neither frozen nor a placeholder ends at the leaves.\<close>

lemma from_leaf_index_push: "from_leaf_index i = push_bit 1 i"
  by (simp add: from_leaf_index_def from_level_and_pos_def shl_def)

lemma max_is_placeholder: "is_placeholder u64_max i"
proof -
  have "\<not> bit (push_bit 1 i) 0" by (simp only: bit_push_u64) simp
  then have "push_bit 1 i \<noteq> u64_max" by (metis bit_minus_1_iff possible_bit_0)
  then have "\<not> u64_max \<le> push_bit 1 i" by (simp add: word_order.extremum_unique)
  moreover have "left_most_child u64_max = u64_max"
    by (simp add: left_most_child_def turn_off_right_most_n_bits_def level_def trailing_zeros_def shl_def shr_def)
  ultimately show ?thesis by (simp add: is_placeholder_def from_leaf_index_push)
qed

lemma level_child:
  assumes "\<not> is_placeholder p i"
  shows "left_child p = Ok q \<Longrightarrow> level q < level p" and "right_child p = Ok q \<Longrightarrow> level q < level p"
proof -
  have "p \<noteq> u64_max" using assms max_is_placeholder by auto
  then obtain l k where p: "p = node l k" "in_tree l k" by (rule position_node)
  have "level q < level p" if "left_child p = Ok q \<or> right_child p = Ok q"
  proof (cases l)
    case 0
    then show ?thesis using that p by (simp add: left_child_def right_child_def is_leaf_node)
  next
    case (Suc m)
    then have "m < 63" using p(2) by (simp add: in_tree_def)
    with that p Suc in_tree_down [of m k] show ?thesis by (auto simp: left_child_node right_child_node level_node)
  qed
  then show "left_child p = Ok q \<Longrightarrow> level q < level p" and "right_child p = Ok q \<Longrightarrow> level q < level p"
    by blast+
qed

function get_hash :: "node_hash \<Rightarrow> hash_reader \<Rightarrow> u64 \<Rightarrow> position \<Rightarrow> (hash_value, anyhow) result" where
  "get_hash H reader num_leaves p =
     (let idx = rightmost_leaf_index num_leaves
      in if is_placeholder p idx then Ok accumulator_placeholder_hash
         else if is_freezable p idx then reader p
         else (case left_child p of
                 Ok l \<Rightarrow> bind_result (get_hash H reader num_leaves l) (\<lambda>left.
                         (case right_child p of
                            Ok r \<Rightarrow> bind_result (get_hash H reader num_leaves r) (\<lambda>right. Ok (H left right))
                          | Err e \<Rightarrow> Err e | Panic \<Rightarrow> Panic))
               | Err e \<Rightarrow> Err e | Panic \<Rightarrow> Panic))"
  by pat_completeness auto
termination
  by (relation "measure (\<lambda>(H, reader, num_leaves, p). level p)")
    (auto dest: level_child)

declare get_hash.simps [simp del]

text \<open>\<open>collect\<close> on an iterator of results stops at the first error.\<close>

fun collect_results :: "('a, 'e) result list \<Rightarrow> ('a list, 'e) result" where
  "collect_results [] = Ok []"
| "collect_results (r # rs) = bind_result r (\<lambda>x. bind_result (collect_results rs) (\<lambda>xs. Ok (x # xs)))"

definition get_hashes :: "node_hash \<Rightarrow> hash_reader \<Rightarrow> u64 \<Rightarrow> position list \<Rightarrow> (hash_value list, anyhow) result" where
  "get_hashes H reader num_leaves positions = collect_results (map (get_hash H reader num_leaves) positions)"

definition get_root_hash :: "node_hash \<Rightarrow> hash_reader \<Rightarrow> u64 \<Rightarrow> (hash_value, anyhow) result" where
  "get_root_hash H reader num_leaves =
     bind_result (root_from_leaf_count num_leaves) (get_hash H reader num_leaves)"

section \<open>Appending\<close>

type_synonym hash_node = "position \<times> hash_value"

text \<open>
  The climb of \<open>append\<close> from a new leaf: while the node is a right child, it is hashed with its left
  sibling, which is on the stack of new siblings or in the store.
\<close>

definition left_sibling ::
    "hash_reader \<Rightarrow> position \<Rightarrow> hash_node list \<Rightarrow> (hash_value \<times> hash_node list, anyhow) result" where
  "left_sibling reader pos left_siblings =
     (case vec_pop left_siblings of
        Some ((x, left_hash), rest) \<Rightarrow> if x = sibling pos then Ok (left_hash, rest) else Panic
      | None \<Rightarrow> bind_result (reader (sibling pos)) (\<lambda>left_hash. Ok (left_hash, left_siblings)))"

lemma level_parent:
  assumes "is_right_child p"
  shows "level p < 63 \<and> level (parent p) = Suc (level p)"
proof -
  have "p \<noteq> u64_max"
    using assms by (auto simp: is_right_child_def is_left_child_def isolate_rightmost_zero_bit_def)
  then obtain l k where p: "p = node l k" "in_tree l k" by (rule position_node)
  with assms have "l < 63" by (simp add: is_right_child_def is_left_child_node)
  with p in_tree_up [of l k] show ?thesis by (simp add: parent_node level_node)
qed

function freeze_loop ::
    "node_hash \<Rightarrow> hash_reader \<Rightarrow> position \<Rightarrow> hash_value \<Rightarrow> hash_node list \<Rightarrow> hash_node list
     \<Rightarrow> (hash_node list \<times> hash_node list, anyhow) result" where
  "freeze_loop H reader pos hash left_siblings to_freeze =
     (if is_right_child pos
      then bind_result (left_sibling reader pos left_siblings) (\<lambda>(left_hash, left_siblings).
             let hash = H left_hash hash; pos = parent pos
             in freeze_loop H reader pos hash left_siblings (to_freeze @ [(pos, hash)]))
      else Ok (left_siblings @ [(pos, hash)], to_freeze))"
  by pat_completeness auto
termination
  by (relation "measure (\<lambda>(H, reader, pos, hash, left_siblings, to_freeze). 63 - level pos)")
    (auto dest: level_parent)

declare freeze_loop.simps [simp del]

fun append_leaves ::
    "node_hash \<Rightarrow> hash_reader \<Rightarrow> u64 \<Rightarrow> nat \<Rightarrow> hash_value list \<Rightarrow> hash_node list \<Rightarrow> hash_node list
     \<Rightarrow> (hash_node list \<times> hash_node list, anyhow) result" where
  "append_leaves H reader num_leaves leaf_offset [] left_siblings to_freeze = Ok (left_siblings, to_freeze)"
| "append_leaves H reader num_leaves leaf_offset (leaf # new_leaves) left_siblings to_freeze =
     (let leaf_pos = from_leaf_index (num_leaves + of_nat leaf_offset)
      in bind_result (freeze_loop H reader leaf_pos leaf left_siblings (to_freeze @ [(leaf_pos, leaf)]))
           (\<lambda>(left_siblings, to_freeze).
             append_leaves H reader num_leaves (Suc leaf_offset) new_leaves left_siblings to_freeze))"

text \<open>The climb to the root, for the given number of levels.\<close>

fun climb_to_root ::
    "node_hash \<Rightarrow> hash_reader \<Rightarrow> nat \<Rightarrow> position \<Rightarrow> hash_value \<Rightarrow> hash_node list
     \<Rightarrow> (hash_value \<times> hash_node list, anyhow) result" where
  "climb_to_root H reader 0 pos hash left_siblings = Ok (hash, left_siblings)"
| "climb_to_root H reader (Suc n) pos hash left_siblings =
     (if is_left_child pos
      then climb_to_root H reader n (parent pos) (H hash accumulator_placeholder_hash) left_siblings
      else bind_result (left_sibling reader pos left_siblings) (\<lambda>(left_hash, left_siblings).
             climb_to_root H reader n (parent pos) (H left_hash hash) left_siblings))"

definition store_append ::
    "node_hash \<Rightarrow> hash_reader \<Rightarrow> u64 \<Rightarrow> hash_value list \<Rightarrow> (hash_value \<times> hash_node list, anyhow) result" where
  "store_append H reader num_leaves new_leaves =
     (if new_leaves = []
      then (if num_leaves = 0 then Ok (accumulator_placeholder_hash, [])
            else bind_result (get_root_hash H reader num_leaves) (\<lambda>root_hash. Ok (root_hash, [])))
      else let last_new_leaf_count = num_leaves + of_nat (length new_leaves)
           in bind_result (root_level_from_leaf_count last_new_leaf_count) (\<lambda>root_level.
              bind_result (append_leaves H reader num_leaves 0 new_leaves [] []) (\<lambda>(left_siblings, to_freeze).
              bind_result (expect (vec_pop left_siblings)) (\<lambda>((pos, hash), left_siblings).
              bind_result (climb_to_root H reader (root_level - level pos) pos hash left_siblings)
                (\<lambda>(hash, left_siblings). if left_siblings = [] then Ok (hash, to_freeze) else Panic)))))"

section \<open>Proofs\<close>

definition get_sibling_positions ::
    "u64 \<Rightarrow> u64 \<Rightarrow> (position \<Rightarrow> bool) \<Rightarrow> (position list, anyhow) result" where
  "get_sibling_positions num_leaves leaf_index flt =
     bind_result (root_from_leaf_count num_leaves) (\<lambda>root_pos.
       Ok (filter flt (iter_ancestor_sibling (level root_pos) (from_leaf_index leaf_index))))"

definition get_siblings ::
    "node_hash \<Rightarrow> hash_reader \<Rightarrow> u64 \<Rightarrow> u64 \<Rightarrow> (position \<Rightarrow> bool) \<Rightarrow> (hash_value list, anyhow) result" where
  "get_siblings H reader num_leaves leaf_index flt =
     bind_result (get_sibling_positions num_leaves leaf_index flt) (get_hashes H reader num_leaves)"

definition get_proof :: "node_hash \<Rightarrow> hash_reader \<Rightarrow> u64 \<Rightarrow> u64 \<Rightarrow> (hash_value list, anyhow) result" where
  "get_proof H reader num_leaves leaf_index =
     bind_result (ensure (leaf_index < num_leaves) (Msg ''invalid leaf_index'')) (\<lambda>_.
       get_siblings H reader num_leaves leaf_index (\<lambda>_. True))"

text \<open>The positions the two iterators over full subtrees yield, in order.\<close>

lemma bit_length_pos: "0 < n \<Longrightarrow> 0 < bit_length n"
  by (subst bit_length.simps) simp

lemma top_bit_le: "0 < n \<Longrightarrow> 2 ^ (bit_length n - 1) \<le> n"
  using less_bit_length [of "bit_length n - 1" n] bit_length_pos [of n] by simp

lemma bit_length_u64: "bit_length (unat (w :: u64)) \<le> 64"
  by (rule bit_length_le) (use unsigned_less [of w] in simp)

lemma unat_push_bit_1: "j < 64 \<Longrightarrow> unat (push_bit j 1 :: u64) = 2 ^ j"
  using unat_of_nat [of "2 ^ j", where 'a = 64] power_strict_increasing [of j 64 "2 :: nat"] by simp

lemma next_batch:
  assumes "r \<noteq> 0"
  shows "unat (shl 1 (max_accumulator_proof_depth - leading_zeros r)) = 2 ^ (bit_length (unat r) - 1)"
proof -
  have b: "0 < bit_length (unat r)" "bit_length (unat r) \<le> 64"
    using assms bit_length_pos [of "unat r"] bit_length_u64 by (auto simp: unat_gt_0)
  then have "63 - (64 - bit_length (unat r)) = bit_length (unat r) - 1" by simp
  then show ?thesis
    using b unat_push_bit_1 [of "bit_length (unat r) - 1"]
    by (simp add: max_accumulator_proof_depth_def leading_zeros_def shl_def)
qed

lemma and_not_top:
  assumes "r < 2 ^ j"
  shows "of_nat (2 ^ j + r) AND NOT (push_bit j 1) = (of_nat r :: u64)"
proof -
  have "(of_nat (2 ^ j + r) :: u64) = push_bit j 1 OR of_nat r"
    using push_bit_top [OF assms, of 0] by simp
  moreover have "(push_bit j 1 OR of_nat r) AND NOT (push_bit j 1) = (of_nat r :: u64)"
  proof (rule bit_eqI)
    fix i
    show "bit ((push_bit j 1 OR of_nat r) AND NOT (push_bit j 1) :: u64) i \<longleftrightarrow> bit (of_nat r :: u64) i"
      using bit_nat_bound [OF assms, of i] by (auto simp only: bit_u64_simps, auto)
  qed
  ultimately show ?thesis by simp
qed

lemma fsi_top:
  assumes "w \<noteq> 0"
  defines "j \<equiv> bit_length (unat w) - 1"
  shows "drop_bit 1 (smear_ones_for_u64 w) = mask j"
    and "w AND NOT (mask j + 1) = of_nat (unat w - 2 ^ j)"
    and "2 ^ j \<le> unat w"
proof -
  have n: "0 < unat w" using assms(1) by (simp add: unat_gt_0)
  then have b: "bit_length (unat w) = Suc j" unfolding j_def using bit_length_pos [OF n] by simp
  then have j: "j < 64" using bit_length_u64 [of w] by simp
  show "drop_bit 1 (smear_ones_for_u64 w) = mask j" by (simp only: smear_mask b drop_mask_u64 [OF j])
  show le: "2 ^ j \<le> unat w" unfolding j_def by (rule top_bit_le [OF n])
  have "unat w < 2 ^ Suc j" using le_pow_bit_length [of "unat w"] unfolding b .
  then have r: "unat w - 2 ^ j < 2 ^ j" by simp
  have "w = of_nat (2 ^ j + (unat w - 2 ^ j))" using le by simp
  moreover have "mask j + 1 = (push_bit j 1 :: u64)" by (simp add: mask_eq_exp_minus_1)
  ultimately show "w AND NOT (mask j + 1) = of_nat (unat w - 2 ^ j)" using and_not_top [OF r] by metis
qed

lemma fsi_next_less: "fsi_next it = (Some p, it') \<Longrightarrow> unat (fsi_bitmap it') < unat (fsi_bitmap it)"
proof -
  assume step: "fsi_next it = (Some p, it')"
  then have nz: "fsi_bitmap it \<noteq> 0" by (auto simp: fsi_next_def)
  let ?n = "unat (fsi_bitmap it)"
  have "fsi_bitmap it' = of_nat (?n - 2 ^ (bit_length ?n - 1))"
    using step nz fsi_top(1,2) [OF nz] by (auto simp: fsi_next_def Let_def)
  moreover have "?n - 2 ^ (bit_length ?n - 1) < ?n" using nz by (simp add: unat_gt_0)
  ultimately show ?thesis using unsigned_less [of "fsi_bitmap it"] by (simp add: unat_of_nat)
qed

definition fss_batch :: "frozen_subtree_sibling_iterator \<Rightarrow> u64" where
  "fss_batch it =
     (if 0 < fss_current_num_leaves it
      then let s = shl 1 (trailing_zeros (fss_current_num_leaves it))
           in if s \<le> fss_remaining_new_leaves it then s else next_new_leaf_batch it
      else next_new_leaf_batch it)"

lemma fss_next_batch:
  "fss_next it =
     (if fss_remaining_new_leaves it = 0 then (None, it)
      else (Some (fss_current_num_leaves it + (fss_current_num_leaves it + fss_batch it - 1)),
            \<lparr>fss_current_num_leaves = fss_current_num_leaves it + fss_batch it,
             fss_remaining_new_leaves = fss_remaining_new_leaves it - fss_batch it\<rparr>))"
  by (simp add: fss_next_def fss_batch_def from_inorder_index_def Let_def)

lemma fss_batch_bounds:
  assumes "fss_remaining_new_leaves it \<noteq> 0"
  shows "0 < unat (fss_batch it) \<and> unat (fss_batch it) \<le> unat (fss_remaining_new_leaves it)"
proof -
  let ?r = "fss_remaining_new_leaves it" and ?c = "fss_current_num_leaves it"
  have "unat (next_new_leaf_batch it) = 2 ^ (bit_length (unat ?r) - 1)"
    using next_batch [OF assms] by (simp add: next_new_leaf_batch_def)
  moreover have "2 ^ (bit_length (unat ?r) - 1) \<le> unat ?r" using assms by (intro top_bit_le) (simp add: unat_gt_0)
  moreover have "0 < unat (shl 1 (trailing_zeros ?c) :: u64)"
    using unat_push_bit_1 [of "trailing_zeros ?c mod 64"] by (simp add: shl_def)
  ultimately show ?thesis by (auto simp: fss_batch_def Let_def word_le_nat_alt)
qed

lemma fss_next_less:
  assumes "fss_next it = (Some p, it')"
  shows "unat (fss_remaining_new_leaves it') < unat (fss_remaining_new_leaves it)"
proof -
  let ?r = "fss_remaining_new_leaves it"
  have nz: "?r \<noteq> 0" using assms by (auto simp: fss_next_batch)
  have "fss_remaining_new_leaves it' = ?r - fss_batch it" using assms nz by (auto simp: fss_next_batch)
  moreover have "unat (?r - fss_batch it) = unat ?r - unat (fss_batch it)"
    using fss_batch_bounds [OF nz] by (intro unat_sub) (simp add: word_le_nat_alt)
  ultimately show ?thesis using fss_batch_bounds [OF nz] by simp
qed

function fsi_positions :: "frozen_subtree_iterator \<Rightarrow> position list" where
  "fsi_positions it =
     (case fsi_next it of (None, it') \<Rightarrow> [] | (Some p, it') \<Rightarrow> p # fsi_positions it')"
  by pat_completeness auto
termination
  by (relation "measure (\<lambda>it. unat (fsi_bitmap it))") (auto dest: fsi_next_less [OF sym])

function fss_positions :: "frozen_subtree_sibling_iterator \<Rightarrow> position list" where
  "fss_positions it =
     (case fss_next it of (None, it') \<Rightarrow> [] | (Some p, it') \<Rightarrow> p # fss_positions it')"
  by pat_completeness auto
termination
  by (relation "measure (\<lambda>it. unat (fss_remaining_new_leaves it))") (auto dest: fss_next_less [OF sym])

declare fsi_positions.simps [simp del] fss_positions.simps [simp del]

definition get_frozen_subtree_hashes :: "hash_reader \<Rightarrow> u64 \<Rightarrow> (hash_value list, anyhow) result" where
  "get_frozen_subtree_hashes reader num_leaves = collect_results (map reader (fsi_positions (fsi_new num_leaves)))"

definition get_consistency_proof :: "hash_reader \<Rightarrow> u64 \<Rightarrow> u64 \<Rightarrow> (hash_value list, anyhow) result" where
  "get_consistency_proof reader num_leaves sub_acc_leaves =
     bind_result (ensure (sub_acc_leaves \<le> num_leaves)
        (Msg ''Can't get accumulator consistency proof for a version newer than the local version.'')) (\<lambda>_.
     bind_result (fss_new sub_acc_leaves num_leaves) (\<lambda>it.
       collect_results (map reader (fss_positions it))))"

text \<open>Range proofs: the left and the right siblings.\<close>

definition get_range_proof_positions ::
    "u64 \<Rightarrow> u64 option \<Rightarrow> u64 \<Rightarrow> (position list \<times> position list, anyhow) result" where
  "get_range_proof_positions full_acc_leaves first_leaf_index num_leaves =
     (case first_leaf_index of
        None \<Rightarrow> bind_result (ensure (num_leaves = 0) (Msg ''num_leaves is not zero while first_leaf_index is None.''))
                  (\<lambda>_. Ok ([], []))
      | Some first_leaf_index \<Rightarrow>
          bind_result (ensure (0 < num_leaves) (Msg ''num_leaves is zero while first_leaf_index is not None.'')) (\<lambda>_.
          bind_result (ok_or (Msg ''Requesting too many leaves.'') (checked_add first_leaf_index (num_leaves - 1)))
            (\<lambda>last_leaf_index.
          bind_result (ensure (last_leaf_index < full_acc_leaves) (Msg ''Invalid last_leaf_index'')) (\<lambda>_.
          bind_result (get_sibling_positions full_acc_leaves first_leaf_index is_left_child) (\<lambda>left_siblings.
          bind_result (get_sibling_positions full_acc_leaves last_leaf_index is_right_child) (\<lambda>right_siblings.
            Ok (left_siblings, right_siblings)))))))"

definition get_range_proof ::
    "node_hash \<Rightarrow> hash_reader \<Rightarrow> u64 \<Rightarrow> u64 option \<Rightarrow> u64 \<Rightarrow> (hash_value list \<times> hash_value list, anyhow) result" where
  "get_range_proof H reader full_acc_leaves first_leaf_index num_leaves =
     bind_result (get_range_proof_positions full_acc_leaves first_leaf_index num_leaves) (\<lambda>(left_siblings, right_siblings).
     bind_result (get_hashes H reader full_acc_leaves left_siblings) (\<lambda>left.
     bind_result (get_hashes H reader full_acc_leaves right_siblings) (\<lambda>right. Ok (left, right))))"

end
