(* ===== verification/Merkle_Accumulator_Spec.thy ===== *)
theory Merkle_Accumulator_Spec
  imports Merkle_Accumulator
begin

unbundle bit_operations_syntax

text \<open>
  What the stored accumulator of \<open>Merkle_Accumulator\<close> promises, against the Merkle tree over the list
  of leaves of \<open>Accumulator_Spec\<close>: appending computes its root and the nodes to store, and the proofs
  that are read from the store convince the verifiers.
\<close>

section \<open>Subtrees of a list of leaves\<close>

definition leaves_under :: "'a list \<Rightarrow> nat \<Rightarrow> nat \<Rightarrow> 'a list" where
  "leaves_under xs l k = take (2 ^ l) (drop (k * 2 ^ l) xs)"

definition hash_under :: "node_hash \<Rightarrow> hash_value list \<Rightarrow> nat \<Rightarrow> nat \<Rightarrow> hash_value" where
  "hash_under H xs l k = merkle H l (leaves_under xs l k)"

text \<open>The store holds the hash of every node whose leaves are all there.\<close>

definition stores :: "node_hash \<Rightarrow> hash_reader \<Rightarrow> hash_value list \<Rightarrow> bool" where
  "stores H reader xs \<longleftrightarrow> length xs \<le> 2 ^ 63 \<and>
     (\<forall>l k. Suc k * 2 ^ l \<le> length xs \<longrightarrow> reader (node l k) = Ok (hash_under H xs l k))"

lemma storesD: "stores H reader xs \<Longrightarrow> Suc k * 2 ^ l \<le> length xs \<Longrightarrow> reader (node l k) = Ok (hash_under H xs l k)"
  by (simp add: stores_def)

lemma leaves_under_left: "take (2 ^ l) (leaves_under xs (Suc l) k) = leaves_under xs l (2 * k)"
  by (simp add: leaves_under_def min_def mult.assoc mult.left_commute)

lemma leaves_under_right: "drop (2 ^ l) (leaves_under xs (Suc l) k) = leaves_under xs l (Suc (2 * k))"
  by (simp add: leaves_under_def drop_take algebra_simps)

lemma leaves_under_Nil: "leaves_under xs l k = [] \<longleftrightarrow> length xs \<le> k * 2 ^ l"
  by (auto simp: leaves_under_def)

lemma hash_under_0: "k < length xs \<Longrightarrow> hash_under H xs 0 k = xs ! k"
  by (simp add: hash_under_def leaves_under_def hd_drop_conv_nth)

lemma hash_under_empty: "length xs \<le> k * 2 ^ l \<Longrightarrow> hash_under H xs l k = accumulator_placeholder_hash"
  using leaves_under_Nil [of xs l k] by (simp add: hash_under_def)

lemma hash_under_Suc:
  "k * 2 ^ Suc l < length xs \<Longrightarrow>
     hash_under H xs (Suc l) k = H (hash_under H xs l (2 * k)) (hash_under H xs l (Suc (2 * k)))"
  using leaves_under_Nil [of xs "Suc l" k]
  by (simp add: hash_under_def leaves_under_left leaves_under_right del: power_Suc)

lemma hash_under_append:
  assumes "Suc k * 2 ^ l \<le> length xs"
  shows "hash_under H (xs @ ys) l k = hash_under H xs l k"
proof -
  have "2 ^ l \<le> length xs - k * 2 ^ l" using assms by simp
  then show ?thesis by (simp add: hash_under_def leaves_under_def)
qed

lemma hash_under_root: "length xs \<le> 2 ^ d \<Longrightarrow> hash_under H xs d 0 = merkle H d xs"
  by (simp add: hash_under_def leaves_under_def)

lemma in_tree_leaf_count: "Suc k * 2 ^ l \<le> 2 ^ 63 \<Longrightarrow> in_tree l k"
proof -
  assume a: "Suc k * 2 ^ l \<le> 2 ^ 63"
  have "2 ^ l \<le> Suc k * (2 :: nat) ^ l" by simp
  with a have "(2 :: nat) ^ l \<le> 2 ^ 63" by (rule order_trans [rotated])
  then have l: "l \<le> 63" by (rule power_le_imp_le_exp [rotated]) simp
  then have "(2 :: nat) ^ 63 = 2 ^ (63 - l) * 2 ^ l" by (simp only: power_add [symmetric]) simp
  with a have "Suc k * 2 ^ l \<le> 2 ^ (63 - l) * (2 :: nat) ^ l" by (simp only:)
  then have "Suc k \<le> 2 ^ (63 - l)" by (rule mult_right_le_imp_le) simp
  with l show ?thesis by (simp add: in_tree_def)
qed

section \<open>Reading nodes\<close>

lemma last_index:
  assumes "stores H reader xs" and "xs \<noteq> []"
  shows "length xs - 1 < 2 ^ 63" and "rightmost_leaf_index (of_nat (length xs)) = of_nat (length xs - 1)"
proof -
  have "0 < length xs" "length xs \<le> 2 ^ 63" using assms by (simp_all add: stores_def)
  then show "length xs - 1 < 2 ^ 63" "rightmost_leaf_index (of_nat (length xs)) = of_nat (length xs - 1)"
    unfolding rightmost_leaf_index_def by (linarith, simp only: of_nat_pred)
qed

lemma node_state:
  assumes "stores H reader xs" and "xs \<noteq> []" and "in_tree l k"
  shows "is_placeholder (node l k) (rightmost_leaf_index (of_nat (length xs))) \<longleftrightarrow> length xs \<le> k * 2 ^ l"
    and "is_freezable (node l k) (rightmost_leaf_index (of_nat (length xs))) \<longleftrightarrow> Suc k * 2 ^ l \<le> length xs"
proof -
  note n = last_index [OF assms(1,2)]
  obtain m where "length xs = Suc m" using assms(2) by (cases xs) simp_all
  then show "is_placeholder (node l k) (rightmost_leaf_index (of_nat (length xs))) \<longleftrightarrow> length xs \<le> k * 2 ^ l"
    and "is_freezable (node l k) (rightmost_leaf_index (of_nat (length xs))) \<longleftrightarrow> Suc k * 2 ^ l \<le> length xs"
    unfolding n(2) is_placeholder_node [OF assms(3) n(1)] is_freezable_node [OF assms(3) n(1)] by auto
qed

lemma get_hash_node:
  assumes "stores H reader xs" and "xs \<noteq> []" and "in_tree l k"
  shows "get_hash H reader (of_nat (length xs)) (node l k) = Ok (hash_under H xs l k)"
  using assms(3)
proof (induction l arbitrary: k)
  case 0
  then show ?case
    using node_state [OF assms(1,2) 0] storesD [OF assms(1), of k 0]
    by (subst get_hash.simps) (auto simp: Let_def hash_under_empty)
next
  case (Suc l)
  have "l < 63" using Suc.prems by (simp add: in_tree_def)
  then show ?case
    using node_state [OF assms(1,2) Suc.prems] storesD [OF assms(1), of k "Suc l"]
      Suc.IH [of "2 * k"] Suc.IH [of "Suc (2 * k)"] in_tree_down [OF Suc.prems]
    by (subst get_hash.simps)
      (auto simp: Let_def hash_under_empty not_le left_child_node right_child_node hash_under_Suc
        simp del: power_Suc mult_Suc)
qed

lemma length_stores: "stores H reader xs \<Longrightarrow> length xs \<le> 2 ^ 63"
  by (simp add: stores_def)

lemma root_hash_stored:
  assumes "stores H reader xs" and "xs \<noteq> []"
  shows "get_root_hash H reader (of_nat (length xs)) = Ok (merkle_root H xs)"
proof -
  have "0 < length xs" "length xs \<le> 2 ^ 63" using assms(2) length_stores [OF assms(1)] by simp_all
  moreover from this have "in_tree (tree_depth (length xs)) 0" using tree_depth_le_63 [of "length xs"] by (simp add: in_tree_def)
  ultimately show ?thesis
    using get_hash_node [OF assms, of "tree_depth (length xs)" 0] le_pow_tree_depth [of "length xs"]
    by (simp add: get_root_hash_def root_from_leaf_count_node hash_under_root merkle_root_def)
qed

lemma collect_results_Ok: "collect_results (map (\<lambda>x. Ok (f x)) xs) = Ok (map f xs)"
  by (induction xs) simp_all

lemma collect_results_map:
  assumes "\<And>x. x \<in> set xs \<Longrightarrow> g x = Ok (f x)"
  shows "collect_results (map g xs) = Ok (map f xs)"
  using assms by (induction xs) simp_all

section \<open>Inclusion proofs\<close>

lemma ancestor_siblings:
  "l + d \<le> 63 \<Longrightarrow> iter_ancestor_sibling d (node l k) = map (\<lambda>j. node (l + j) (buddy (k div 2 ^ j))) [0..<d]"
proof (induction d arbitrary: l k)
  case (Suc d)
  have "map (\<lambda>j. node (l + j) (buddy (k div 2 ^ j))) [0..<Suc d]
      = node l (buddy k) # map (\<lambda>j. node (Suc l + j) (buddy (k div 2 div 2 ^ j))) [0..<d]"
    by (simp only: upt_conv_Cons map_Suc_upt [symmetric] list.map) (simp add: div_mult2_eq)
  with Suc show ?case by (simp add: sibling_node parent_node)
qed simp

definition sibling_hashes :: "node_hash \<Rightarrow> hash_value list \<Rightarrow> nat \<Rightarrow> nat \<Rightarrow> hash_value list" where
  "sibling_hashes H xs d i = map (\<lambda>j. hash_under H xs j (buddy (i div 2 ^ j))) [0..<d]"

lemma audit_path_siblings:
  "audit_path H d (leaves_under xs d (i div 2 ^ d)) (i mod 2 ^ d) = sibling_hashes H xs d i"
proof (induction d)
  case (Suc d)
  let ?k = "i div 2 ^ Suc d"
  have k: "?k = i div 2 ^ d div 2" by (simp only: power_Suc2 div_mult2_eq)
  show ?case
  proof (cases "even (i div 2 ^ d)")
    case True
    then have "i mod 2 ^ Suc d < 2 ^ d" "i mod 2 ^ d = i mod 2 ^ Suc d" "2 * ?k = i div 2 ^ d"
      using index_step [of i d] unfolding k by simp_all
    then show ?thesis
      using True Suc.IH
      by (simp add: leaves_under_left leaves_under_right sibling_hashes_def hash_under_def buddy_def del: power_Suc)
  next
    case False
    then have "\<not> i mod 2 ^ Suc d < 2 ^ d" "i mod 2 ^ d = i mod 2 ^ Suc d - 2 ^ d" "Suc (2 * ?k) = i div 2 ^ d"
      using index_step [of i d] unfolding k by simp_all
    moreover from this(3) have "2 * ?k = i div 2 ^ d - 1" by simp
    ultimately show ?thesis
      using False Suc.IH
      by (simp add: leaves_under_left leaves_under_right sibling_hashes_def hash_under_def buddy_def del: power_Suc)
  qed
qed (simp add: sibling_hashes_def)


lemma get_hashes_nodes:
  assumes "stores H reader xs" and "xs \<noteq> []" and "\<And>j. j \<in> set js \<Longrightarrow> in_tree (f j) (g j)"
  shows "get_hashes H reader (of_nat (length xs)) (map (\<lambda>j. node (f j) (g j)) js)
    = Ok (map (\<lambda>j. hash_under H xs (f j) (g j)) js)"
proof -
  have "get_hash H reader (of_nat (length xs)) (node (f j) (g j)) = Ok (hash_under H xs (f j) (g j))"
    if "j \<in> set js" for j
    using get_hash_node [OF assms(1,2)] assms(3) that by blast
  then show ?thesis unfolding get_hashes_def map_map comp_def by (rule collect_results_map)
qed

lemma in_tree_ancestor: "i < 2 ^ 63 \<Longrightarrow> j \<le> 63 \<Longrightarrow> in_tree j (i div 2 ^ j)"
  by (simp add: in_tree_def less_mult_imp_div_less flip: power_add)

lemma get_sibling_positions_eq:
  assumes "0 < n" and "n \<le> 2 ^ 63" and "i < 2 ^ 63"
  shows "get_sibling_positions (of_nat n) (of_nat i) flt
    = Ok (filter flt (map (\<lambda>j. node j (buddy (i div 2 ^ j))) [0..<tree_depth n]))"
  using assms tree_depth_le_63 [OF assms(2)] ancestor_siblings [of 0 "tree_depth n" i]
  by (simp add: get_sibling_positions_def root_from_leaf_count_node level_node in_tree_root from_leaf_index_node)

lemma get_proof_audit_path:
  assumes "stores H reader xs" and "i < length xs"
  shows "get_proof H reader (of_nat (length xs)) (of_nat i) = Ok (audit_path H (tree_depth (length xs)) xs i)"
proof -
  let ?n = "length xs" and ?d = "tree_depth (length xs)"
  have n: "0 < ?n" "?n \<le> 2 ^ 63" using assms(2) length_stores [OF assms(1)] by auto
  have i: "i < 2 ^ 63" using assms(2) n(2) by (rule less_le_trans)
  have d: "?d \<le> 63" by (rule tree_depth_le_63 [OF n(2)])
  have lt: "(of_nat i :: u64) < of_nat ?n"
    using assms(2) n(2) by (simp add: word_less_nat_alt unat_of_nat)
  have "in_tree j (buddy (i div 2 ^ j))" if "j \<in> set [0..<?d]" for j
    using that d in_tree_ancestor [OF i, of j] by (intro in_tree_buddy) simp_all
  then have "get_hashes H reader (of_nat ?n) (map (\<lambda>j. node j (buddy (i div 2 ^ j))) [0..<?d])
      = Ok (sibling_hashes H xs ?d i)"
    unfolding sibling_hashes_def using assms by (intro get_hashes_nodes) auto
  moreover have "sibling_hashes H xs ?d i = audit_path H ?d xs i"
    using audit_path_siblings [of H ?d xs i] le_pow_tree_depth [of ?n] assms(2)
    by (simp add: leaves_under_def)
  ultimately show ?thesis
    using lt by (simp add: get_proof_def ensure_def get_siblings_def get_sibling_positions_eq [OF n i])
qed

section \<open>Appending\<close>

text \<open>
  The full subtrees that end at leaf \<open>m\<close> and before, down from the first that reaches past leaf \<open>n\<close>:
  the stack \<open>left_siblings\<close> after \<open>m\<close> leaves, when the store has the first \<open>n\<close>.
\<close>

function new_roots :: "node_hash \<Rightarrow> nat \<Rightarrow> hash_value list \<Rightarrow> nat \<Rightarrow> hash_node list" where
  "new_roots H n zs m =
     (if m \<le> n then []
      else let l = trailing_zeros_nat m; k = m div 2 ^ l - 1
           in new_roots H n zs (m - 2 ^ l) @ [(node l k, hash_under H zs l k)])"
  by pat_completeness auto
termination
  by (relation "measure (\<lambda>(H, n, zs, m). m)") auto

declare new_roots.simps [simp del]

lemma new_roots_old: "m \<le> n \<Longrightarrow> new_roots H n zs m = []"
  by (simp add: new_roots.simps)

lemma trailing_zeros_nat_odd: "odd k \<Longrightarrow> trailing_zeros_nat (k * 2 ^ l) = l"
proof (induction l)
  case (Suc l)
  have "k * 2 ^ Suc l = 2 * (k * 2 ^ l)" by simp
  moreover have "k * 2 ^ l \<noteq> 0" using Suc.prems by (auto elim: oddE)
  ultimately show ?case using Suc by (subst trailing_zeros_nat.simps) simp
qed (simp add: trailing_zeros_nat.simps)

lemma new_roots_odd:
  assumes "even k" and "n < Suc k * 2 ^ l"
  shows "new_roots H n zs (Suc k * 2 ^ l) = new_roots H n zs (k * 2 ^ l) @ [(node l k, hash_under H zs l k)]"
proof -
  have "trailing_zeros_nat (Suc k * 2 ^ l) = l" using assms(1) by (intro trailing_zeros_nat_odd) simp
  then show ?thesis using assms(2) by (subst new_roots.simps) (simp add: Let_def del: mult_Suc, simp)
qed

lemma left_sibling_new_roots:
  assumes "stores H reader xs" and "xs = take (length xs) zs" and "odd k" and "in_tree l k" and "k * 2 ^ l \<le> length zs"
  shows "left_sibling reader (node l k) (new_roots H (length xs) zs (k * 2 ^ l))
    = Ok (hash_under H zs l (k - 1), new_roots H (length xs) zs ((k - 1) * 2 ^ l))"
proof -
  obtain j where k: "k = Suc j" "even j" using assms(3) by (cases k) auto
  have sib: "sibling (node l k) = node l j" using k by (simp add: sibling_node buddy_def)
  show ?thesis
  proof (cases "length xs < k * 2 ^ l")
    case True
    then show ?thesis
      using new_roots_odd [of j "length xs" l H zs] k sib
      by (simp add: left_sibling_def vec_pop_def del: mult_Suc)
  next
    case False
    then have le: "Suc j * 2 ^ l \<le> length xs" using k by simp
    obtain ys where "zs = xs @ ys" using assms(2) by (metis append_take_drop_id)
    then have "hash_under H zs l j = hash_under H xs l j" using hash_under_append [OF le] by simp
    moreover have "j * 2 ^ l \<le> length xs" using le by simp
    ultimately have "hash_under H zs l j = hash_under H xs l j" "new_roots H (length xs) zs (j * 2 ^ l) = []"
      by (simp_all add: new_roots_old)
    then show ?thesis
      using False k sib storesD [OF assms(1) le]
      by (simp add: left_sibling_def vec_pop_def new_roots_old del: mult_Suc)
  qed
qed

text \<open>The nodes that become full with leaf \<open>m\<close>, from the leaf upwards.\<close>

definition completed :: "node_hash \<Rightarrow> hash_value list \<Rightarrow> nat \<Rightarrow> nat \<Rightarrow> nat \<Rightarrow> hash_node list" where
  "completed H zs m a b = map (\<lambda>j. (node j (m div 2 ^ j), hash_under H zs j (m div 2 ^ j))) [a..<b]"

lemma div_last: "Suc k * 2 ^ l = n \<Longrightarrow> (n - 1) div 2 ^ l = k"
  by (rule div_nat_eqI) (cases "(2 :: nat) ^ l"; auto)+

lemma freeze_loop_completed:
  assumes "stores H reader xs" and "xs = take (length xs) zs" and "length xs < length zs"
    and "in_tree l k" and "Suc k * 2 ^ l = length zs"
  shows "freeze_loop H reader (node l k) (hash_under H zs l k) (new_roots H (length xs) zs (k * 2 ^ l)) fr
    = Ok (new_roots H (length xs) zs (length zs),
          fr @ completed H zs (length zs - 1) (Suc l) (Suc (l + trailing_ones k)))"
  using assms(4,5)
proof (induction k arbitrary: l fr rule: less_induct)
  case (less k)
  show ?case
  proof (cases "even k")
    case True
    then show ?thesis
      using less.prems assms(3) new_roots_odd [of k "length xs" l H zs]
      by (subst freeze_loop.simps)
        (simp add: is_right_child_def is_left_child_node completed_def trailing_ones.simps del: mult_Suc)
  next
    case False
    then obtain j where k: "k = Suc (2 * j)" by (auto elim!: oddE)
    have l: "l < 63" using less.prems(1) False by (cases "l = 63") (auto simp: in_tree_def)
    have up: "in_tree (Suc l) j" using in_tree_up [OF less.prems(1) l] k by simp
    have len: "Suc j * 2 ^ Suc l = length zs" using less.prems(2) k by simp
    have sib: "left_sibling reader (node l k) (new_roots H (length xs) zs (k * 2 ^ l))
        = Ok (hash_under H zs l (2 * j), new_roots H (length xs) zs (j * 2 ^ Suc l))"
      using left_sibling_new_roots [OF assms(1,2) False less.prems(1)] less.prems(2) k
      by (simp add: mult.assoc mult.left_commute)
    have hash: "hash_under H zs (Suc l) j = H (hash_under H zs l (2 * j)) (hash_under H zs l k)"
      unfolding k by (rule hash_under_Suc) (simp add: len [symmetric])
    have first: "(length zs - 1) div 2 ^ Suc l = j" using len by (rule div_last)
    have "completed H zs (length zs - 1) (Suc l) (Suc (l + trailing_ones k))
        = (node (Suc l) j, hash_under H zs (Suc l) j)
          # completed H zs (length zs - 1) (Suc (Suc l)) (Suc (Suc l + trailing_ones j))"
      unfolding completed_def using first
      by (simp only: upt_conv_Cons k trailing_ones_Suc_double) (simp add: upt_conv_Cons del: power_Suc)
    then show ?thesis
      using less.IH [OF _ up len] False k l sib hash
      by (subst freeze_loop.simps)
        (simp add: is_right_child_def is_left_child_node parent_node Let_def del: mult_Suc power_Suc)
  qed
qed

lemma dvd_completed: "2 ^ j dvd Suc m \<Longrightarrow> Suc (m div 2 ^ j) * 2 ^ j = Suc m"
proof -
  assume "2 ^ j dvd Suc m"
  then obtain c where c: "Suc m = 2 ^ j * c" by (rule dvdE)
  then obtain b where "c = Suc b" by (cases c) simp_all
  with c have "Suc b * 2 ^ j = Suc m" by (simp only: mult.commute)
  with div_last [OF this] show ?thesis by simp
qed

lemma pow2_dvd_odd:
  fixes m :: nat
  assumes "odd m"
  shows "2 ^ j dvd m * 2 ^ t \<longleftrightarrow> j \<le> t"
proof
  assume d: "2 ^ j dvd m * 2 ^ t"
  show "j \<le> t"
  proof (rule ccontr)
    assume "\<not> j \<le> t"
    then have "2 ^ Suc t dvd (2 :: nat) ^ j" by (intro le_imp_power_dvd) simp
    then have "2 ^ Suc t dvd m * 2 ^ t" using d by (rule dvd_trans)
    then have "2 * 2 ^ t dvd m * 2 ^ t" by (simp only: power_Suc)
    then have "2 dvd m" by (rule dvd_times_right_cancel_iff [THEN iffD1, rotated]) simp
    then show False using assms by simp
  qed
qed (intro dvd_mult le_imp_power_dvd)

lemma trailing_ones_dvd: "j \<le> trailing_ones m \<longleftrightarrow> 2 ^ j dvd Suc m"
proof -
  let ?t = "trailing_ones m"
  obtain q where "m = q * 2 ^ Suc ?t + (2 ^ ?t - 1)" using trailing_ones_split by blast
  moreover have "Suc (q * 2 ^ Suc ?t + (2 ^ ?t - 1)) = Suc (2 * q) * 2 ^ ?t" by simp
  ultimately have m: "Suc m = Suc (2 * q) * 2 ^ ?t" by metis
  show ?thesis unfolding m by (rule pow2_dvd_odd [symmetric]) simp
qed

lemma trailing_zeros_dvd: "0 < m \<Longrightarrow> j \<le> trailing_zeros_nat m \<longleftrightarrow> 2 ^ j dvd m"
  using trailing_zeros_nat_split [of m] pow2_dvd_odd [of "m div 2 ^ trailing_zeros_nat m" j "trailing_zeros_nat m"] by simp

lemma completed_append:
  assumes "m < length zs" and "b \<le> Suc (trailing_ones m)"
  shows "completed H (zs @ ys) m a b = completed H zs m a b"
proof -
  have "hash_under H (zs @ ys) j (m div 2 ^ j) = hash_under H zs j (m div 2 ^ j)" if "j < b" for j
  proof (rule hash_under_append)
    have "Suc (m div 2 ^ j) * 2 ^ j = Suc m" using that assms(2) by (intro dvd_completed trailing_ones_dvd [THEN iffD1]) simp
    then show "Suc (m div 2 ^ j) * 2 ^ j \<le> length zs" using assms(1) by simp
  qed
  then show ?thesis by (simp add: completed_def)
qed

text \<open>All the nodes that become full with the leaves from \<open>n\<close> up to \<open>m\<close>.\<close>

definition new_nodes :: "node_hash \<Rightarrow> hash_value list \<Rightarrow> nat \<Rightarrow> nat \<Rightarrow> hash_node list" where
  "new_nodes H zs n m = concat (map (\<lambda>i. completed H zs i 0 (Suc (trailing_ones i))) [n..<m])"

lemma new_roots_append: "m \<le> length zs \<Longrightarrow> new_roots H n (zs @ ys) m = new_roots H n zs m"
proof (induction m rule: less_induct)
  case (less m)
  show ?case
  proof (cases "m \<le> n")
    case False
    let ?l = "trailing_zeros_nat m"
    have "0 < m" using False by simp
    then have m: "odd (m div 2 ^ ?l)" "m = m div 2 ^ ?l * 2 ^ ?l" using trailing_zeros_nat_split [of m] by simp_all
    then have "Suc (m div 2 ^ ?l - 1) * 2 ^ ?l = m" by (metis Suc_pred' odd_pos)
    then have "hash_under H (zs @ ys) ?l (m div 2 ^ ?l - 1) = hash_under H zs ?l (m div 2 ^ ?l - 1)"
      using less.prems by (intro hash_under_append) simp
    moreover have "new_roots H n (zs @ ys) (m - 2 ^ ?l) = new_roots H n zs (m - 2 ^ ?l)"
      using \<open>0 < m\<close> less.prems by (intro less.IH) simp_all
    ultimately show ?thesis using False by (simp add: new_roots.simps [of H n _ m] Let_def)
  qed (simp add: new_roots_old)
qed

lemma append_leaves_new_nodes:
  assumes "stores H reader xs" and "length (xs @ ys @ vs) \<le> 2 ^ 63"
  shows "append_leaves H reader (of_nat (length xs)) (length ys) vs
      (new_roots H (length xs) (xs @ ys) (length (xs @ ys))) fr
    = Ok (new_roots H (length xs) (xs @ ys @ vs) (length (xs @ ys @ vs)),
          fr @ new_nodes H (xs @ ys @ vs) (length (xs @ ys)) (length (xs @ ys @ vs)))"
  using assms(2)
proof (induction vs arbitrary: ys fr)
  case Nil
  then show ?case by (simp add: new_nodes_def)
next
  case (Cons v vs)
  let ?m = "length (xs @ ys)" and ?zs = "xs @ ys @ [v]"
  have m: "?m < 2 ^ 63" using Cons.prems by simp
  then have t: "in_tree 0 ?m" by (simp add: in_tree_def)
  have pos: "from_leaf_index (of_nat (length xs) + of_nat (length ys)) = node 0 ?m"
    using from_leaf_index_node [OF m] by simp
  have hash: "hash_under H ?zs 0 ?m = v" by (simp add: hash_under_0 nth_append)
  have roots: "new_roots H (length xs) (xs @ ys) ?m = new_roots H (length xs) ?zs (?m * 2 ^ 0)"
    using new_roots_append [of ?m "xs @ ys" H "length xs" "[v]"] by simp
  have "freeze_loop H reader (node 0 ?m) v (new_roots H (length xs) (xs @ ys) ?m) (fr @ [(node 0 ?m, v)])
      = Ok (new_roots H (length xs) ?zs (length ?zs),
            (fr @ [(node 0 ?m, v)]) @ completed H ?zs ?m (Suc 0) (Suc (trailing_ones ?m)))"
    using freeze_loop_completed [OF assms(1) _ _ t, of ?zs "fr @ [(node 0 ?m, v)]"] unfolding roots hash by simp
  moreover have "(node 0 ?m, v) # completed H ?zs ?m (Suc 0) (Suc (trailing_ones ?m))
      = completed H ?zs ?m 0 (Suc (trailing_ones ?m))"
    using hash unfolding completed_def by (simp add: upt_conv_Cons del: upt_Suc)
  moreover have "completed H (?zs @ vs) ?m 0 (Suc (trailing_ones ?m)) = completed H ?zs ?m 0 (Suc (trailing_ones ?m))"
    by (rule completed_append) simp_all
  moreover have "new_nodes H (?zs @ vs) ?m (length (?zs @ vs))
      = completed H (?zs @ vs) ?m 0 (Suc (trailing_ones ?m)) @ new_nodes H (?zs @ vs) (length ?zs) (length (?zs @ vs))"
    unfolding new_nodes_def by (simp add: upt_conv_Cons del: upt_Suc)
  ultimately show ?case
    using Cons.IH [of "ys @ [v]"] Cons.prems by (simp add: Let_def pos)
qed

lemma climb_to_root_hash:
  assumes "stores H reader xs" and "xs = take (length xs) zs" and "zs \<noteq> []" and "length zs \<le> 2 ^ (l + d)" and "l + d \<le> 63"
  defines "k \<equiv> (length zs - 1) div 2 ^ l"
  shows "climb_to_root H reader d (node l k) (hash_under H zs l k) (new_roots H (length xs) zs (k * 2 ^ l))
    = Ok (merkle H (l + d) zs, [])"
  using assms(4,5) unfolding k_def
proof (induction d arbitrary: l)
  case 0
  have "(length zs - 1) div 2 ^ l = 0" using 0 assms(3) by (intro div_less) (cases zs; simp)
  then show ?case using 0 by (simp add: hash_under_root new_roots_old)
next
  case (Suc d)
  let ?k = "(length zs - 1) div 2 ^ l" and ?j = "(length zs - 1) div 2 ^ Suc l"
  have j: "?j = ?k div 2" by (simp only: power_Suc2 div_mult2_eq)
  have le: "?k * 2 ^ l \<le> length zs"
    using div_times_less_eq_dividend [of "length zs - 1" "2 ^ l"] diff_le_self by (rule le_trans)
  have "length zs - 1 < length zs" using assms(3) by simp
  with div_times_less_eq_dividend have below: "?j * 2 ^ Suc l < length zs" by (rule le_less_trans)
  have above: "length zs - 1 < Suc ?k * 2 ^ l" using dividend_less_div_times [of "2 ^ l" "length zs - 1"] by simp
  have "(2 :: nat) ^ (l + Suc d) \<le> 2 ^ 63" using Suc.prems(2) by (intro power_increasing) simp_all
  then have "length zs - 1 < 2 ^ 63" using Suc.prems(1) assms(3) by (cases zs) simp_all
  then have t: "in_tree l ?k" using Suc.prems(2) by (intro in_tree_ancestor) simp_all
  note IH = Suc.IH [of "Suc l"]
  show ?case
  proof (cases "even ?k")
    case True
    then have k: "?k = 2 * ?j" unfolding j by simp
    have "length zs \<le> Suc (2 * ?j) * 2 ^ l" using above assms(3) unfolding k by (cases zs) simp_all
    then have "hash_under H zs (Suc l) ?j = H (hash_under H zs l ?k) accumulator_placeholder_hash"
      using hash_under_Suc [OF below, of H] hash_under_empty [of zs "Suc (2 * ?j)" l H] k by simp
    moreover have "?k * 2 ^ l = ?j * 2 ^ Suc l" using k by simp
    ultimately show ?thesis
      using IH Suc.prems True j by (simp add: is_left_child_node parent_node del: power_Suc)
  next
    case False
    then have k: "?k = Suc (2 * ?j)" unfolding j by simp
    have "left_sibling reader (node l ?k) (new_roots H (length xs) zs (?k * 2 ^ l))
        = Ok (hash_under H zs l (2 * ?j), new_roots H (length xs) zs (?j * 2 ^ Suc l))"
      using left_sibling_new_roots [OF assms(1,2) False t le] k by (simp add: mult.assoc mult.left_commute)
    moreover have "hash_under H zs (Suc l) ?j = H (hash_under H zs l (2 * ?j)) (hash_under H zs l ?k)"
      unfolding k by (rule hash_under_Suc [OF below])
    ultimately show ?thesis
      using IH Suc.prems False j by (simp add: is_left_child_node parent_node del: power_Suc)
  qed
qed

lemma new_roots_last:
  assumes "n < length zs"
  obtains l k where "Suc k * 2 ^ l = length zs"
    and "new_roots H n zs (length zs) = new_roots H n zs (k * 2 ^ l) @ [(node l k, hash_under H zs l k)]"
proof -
  have "0 < length zs" using assms(1) by linarith
  from trailing_zeros_nat_split [OF this] obtain l m where "odd m" and m: "length zs = m * 2 ^ l" by blast
  then obtain k where k: "m = Suc k" "even k" by (cases m) auto
  from new_roots_odd [OF k(2), of n l H zs] m k(1) assms show ?thesis by (intro that [of k l]) simp_all
qed

lemma store_append_eq:
  assumes "stores H reader xs" and "length (xs @ ys) \<le> 2 ^ 63" and "ys \<noteq> []"
  shows "store_append H reader (of_nat (length xs)) ys
    = Ok (merkle_root H (xs @ ys), new_nodes H (xs @ ys) (length xs) (length (xs @ ys)))"
proof -
  let ?zs = "xs @ ys" and ?n = "length xs"
  let ?d = "tree_depth (length ?zs)"
  have n: "?n < length ?zs" using assms(3) by simp
  obtain l k where len: "Suc k * 2 ^ l = length ?zs" and
    roots: "new_roots H ?n ?zs (length ?zs) = new_roots H ?n ?zs (k * 2 ^ l) @ [(node l k, hash_under H ?zs l k)]"
    by (rule new_roots_last [OF n])
  have div: "(length ?zs - 1) div 2 ^ l = k" using len by (rule div_last)
  have "2 ^ l \<le> Suc k * 2 ^ l" by simp
  also have "\<dots> \<le> 2 ^ ?d" unfolding len by (rule le_pow_tree_depth)
  finally have ld: "l \<le> ?d" by (rule power_le_imp_le_exp [rotated]) simp
  have d: "?d \<le> 63" using assms(2) by (rule tree_depth_le_63)
  have "in_tree l k" using in_tree_leaf_count [of k l] len assms(2) by (simp only:)
  then have lev: "level (node l k) = l" by (rule level_node)
  have climb: "climb_to_root H reader (?d - l) (node l k) (hash_under H ?zs l k)
      (new_roots H ?n ?zs (k * 2 ^ l)) = Ok (merkle H ?d ?zs, [])"
    using climb_to_root_hash [OF assms(1), of ?zs l "?d - l"] ld d assms(3) le_pow_tree_depth [of "length ?zs"]
    unfolding div by simp
  have leaves: "append_leaves H reader (of_nat ?n) 0 ys [] []
      = Ok (new_roots H ?n ?zs (length ?zs), new_nodes H ?zs ?n (length ?zs))"
    using append_leaves_new_nodes [OF assms(1), of "[]" ys "[]"] assms(2) by (simp add: new_roots_old)
  have root: "root_level_from_leaf_count (of_nat ?n + of_nat (length ys)) = Ok ?d"
    using root_level_from_leaf_count_depth [of "length ?zs"] assms(2,3) by simp
  show ?thesis
    using assms(3) climb unfolding store_append_def Let_def
    by (simp only: root leaves roots if_False bind_result.simps prod.case vec_pop_def) (simp add: lev merkle_root_def)
qed

section \<open>The nodes to store\<close>

definition frozen_count :: "nat \<Rightarrow> nat" where
  "frozen_count n = 2 * n - count_ones_nat n"

lemma count_ones_nat_Suc: "count_ones_nat (Suc n) + trailing_ones n = Suc (count_ones_nat n)"
proof (induction n rule: less_induct)
  case (less n)
  show ?case
  proof (cases "odd n")
    case True
    then obtain m where m: "n = Suc (2 * m)" by (auto elim!: oddE)
    have "Suc n = 2 * Suc m" by (simp add: m)
    then show ?thesis
      using less.IH [of m] m by (simp only: count_ones_nat_double count_ones_nat_Suc_double trailing_ones_Suc_double) simp
  next
    case False
    then obtain m where "n = 2 * m" by (auto elim!: evenE)
    then show ?thesis by (simp add: count_ones_nat_double count_ones_nat_Suc_double)
  qed
qed

lemma frozen_count_Suc: "frozen_count (Suc i) = frozen_count i + Suc (trailing_ones i)"
  using count_ones_nat_Suc [of i] count_ones_nat_le [of i] count_ones_nat_le [of "Suc i"]
  by (simp add: frozen_count_def)

lemma postorder_index_parent:
  assumes "odd k"
  shows "postorder_index (Suc j) (k div 2) = Suc (postorder_index j k)"
proof -
  obtain p where k: "k = Suc (2 * p)" using assms by (auto elim!: oddE)
  obtain c where c: "(2 :: nat) ^ j = Suc c" using not0_implies_Suc [of "2 ^ j"] by auto
  have "count_ones_nat p \<le> p * 2 ^ Suc (Suc j)" by (rule count_ones_nat_le_mult)
  then show ?thesis by (simp add: postorder_index_def k count_ones_nat_Suc_double c)
qed

lemma postorder_index_completed: "j \<le> trailing_ones i \<Longrightarrow> postorder_index j (i div 2 ^ j) = frozen_count i + j"
proof (induction j)
  case 0
  then show ?case by (simp add: postorder_index_def frozen_count_def)
next
  case (Suc j)
  have "Suc (i div 2 ^ Suc j) * 2 ^ Suc j = Suc i"
    using Suc.prems by (intro dvd_completed trailing_ones_dvd [THEN iffD1])
  then have "i div 2 ^ j = Suc (2 * (i div 2 ^ Suc j))"
    using div_last [of "Suc (2 * (i div 2 ^ Suc j))" j "Suc i"] by simp
  then have "odd (i div 2 ^ j)" by simp
  moreover have "i div 2 ^ Suc j = i div 2 ^ j div 2" by (simp only: power_Suc2 div_mult2_eq)
  ultimately show ?case using Suc postorder_index_parent [of "i div 2 ^ j" j] by simp
qed

lemma completed_in_tree: "i < 2 ^ 63 \<Longrightarrow> j \<le> trailing_ones i \<Longrightarrow> in_tree j (i div 2 ^ j)"
  using dvd_completed [of j i] trailing_ones_dvd [of j i] by (intro in_tree_leaf_count) simp

lemma completed_postorder:
  assumes "i < 2 ^ 63"
  shows "map (\<lambda>x. unat (to_postorder_index (fst x))) (completed H zs i 0 (Suc (trailing_ones i)))
    = [frozen_count i..<frozen_count (Suc i)]"
proof -
  have "map (\<lambda>x. unat (to_postorder_index (fst x))) (completed H zs i 0 (Suc (trailing_ones i)))
      = map (\<lambda>j. j + frozen_count i) [0..<Suc (trailing_ones i)]"
    unfolding completed_def map_map
    by (rule map_cong) (auto simp: unat_to_postorder postorder_index_completed completed_in_tree [OF assms] simp del: upt_Suc)
  then show ?thesis by (simp only: map_add_upt frozen_count_Suc add.commute)
qed

lemma frozen_count_mono: "n \<le> m \<Longrightarrow> frozen_count n \<le> frozen_count m"
  by (induction rule: dec_induct) (simp_all add: frozen_count_Suc)

lemma new_nodes_postorder:
  "n \<le> m \<Longrightarrow> m \<le> 2 ^ 63 \<Longrightarrow>
     map (\<lambda>x. unat (to_postorder_index (fst x))) (new_nodes H zs n m) = [frozen_count n..<frozen_count m]"
proof (induction rule: dec_induct)
  case (step m)
  have "new_nodes H zs n (Suc m) = new_nodes H zs n m @ completed H zs m 0 (Suc (trailing_ones m))"
    using step.hyps by (simp add: new_nodes_def)
  moreover have "[frozen_count n..<frozen_count (Suc m)]
      = [frozen_count n..<frozen_count m] @ [frozen_count m..<frozen_count (Suc m)]"
    using frozen_count_mono [OF step.hyps(1)] unfolding frozen_count_Suc by (rule upt_add_eq_append)
  ultimately show ?case using step completed_postorder [of m H zs] by simp
qed (simp add: new_nodes_def)

definition node_at :: "node_hash \<Rightarrow> hash_value list \<Rightarrow> nat \<Rightarrow> nat \<Rightarrow> hash_node" where
  "node_at H zs l k = (node l k, hash_under H zs l k)"

lemma in_new_nodes:
  "set (new_nodes H zs n m) = (\<Union>i \<in> {n..<m}. (\<lambda>j. node_at H zs j (i div 2 ^ j)) ` {0..<Suc (trailing_ones i)})"
  unfolding new_nodes_def completed_def node_at_def [symmetric] by (simp only: set_concat set_map set_upt image_image)

lemma new_nodes_set:
  "set (new_nodes H zs n m) = {node_at H zs l k |l k. n < Suc k * 2 ^ l \<and> Suc k * 2 ^ l \<le> m}"
proof (intro equalityI subsetI)
  fix x
  assume "x \<in> set (new_nodes H zs n m)"
  then obtain i where "i \<in> {n..<m}" and "x \<in> (\<lambda>j. node_at H zs j (i div 2 ^ j)) ` {0..<Suc (trailing_ones i)}"
    unfolding in_new_nodes by (rule UN_E)
  moreover from this(2) obtain j where "x = node_at H zs j (i div 2 ^ j)" "j \<in> {0..<Suc (trailing_ones i)}"
    by (rule imageE)
  ultimately have i: "n \<le> i" "i < m" "j \<le> trailing_ones i" "x = node_at H zs j (i div 2 ^ j)" by simp_all
  from i(3) have "Suc (i div 2 ^ j) * 2 ^ j = Suc i" by (intro dvd_completed trailing_ones_dvd [THEN iffD1])
  with i show "x \<in> {node_at H zs l k |l k. n < Suc k * 2 ^ l \<and> Suc k * 2 ^ l \<le> m}"
    unfolding mem_Collect_eq by (metis Suc_leI le_imp_less_Suc)
next
  fix x
  assume "x \<in> {node_at H zs l k |l k. n < Suc k * 2 ^ l \<and> Suc k * 2 ^ l \<le> m}"
  then obtain l k where lk: "n < Suc k * 2 ^ l" "Suc k * 2 ^ l \<le> m" "x = node_at H zs l k" by blast
  obtain i where i: "Suc k * 2 ^ l = Suc i" by (cases "Suc k * 2 ^ l") simp_all
  have "i div 2 ^ l = k" using div_last [OF i] by simp
  moreover have "l \<le> trailing_ones i" unfolding trailing_ones_dvd i [symmetric] by simp
  ultimately show "x \<in> set (new_nodes H zs n m)"
    using lk unfolding i in_new_nodes by (intro UN_I [of i] image_eqI [of _ _ l]) simp_all
qed

definition write_nodes :: "hash_node list \<Rightarrow> hash_reader \<Rightarrow> hash_reader" where
  "write_nodes nodes reader = (\<lambda>p. case map_of nodes p of Some h \<Rightarrow> Ok h | None \<Rightarrow> reader p)"

lemma stores_write_nodes:
  assumes "stores H reader xs" and "length (xs @ ys) \<le> 2 ^ 63"
  shows "stores H (write_nodes (new_nodes H (xs @ ys) (length xs) (length (xs @ ys))) reader) (xs @ ys)"
proof -
  let ?zs = "xs @ ys" and ?new = "new_nodes H (xs @ ys) (length xs) (length (xs @ ys))"
  have "write_nodes ?new reader (node l k) = Ok (hash_under H ?zs l k)" if le: "Suc k * 2 ^ l \<le> length ?zs" for l k
  proof (cases "map_of ?new (node l k)")
    case None
    then have "node_at H ?zs l k \<notin> set ?new" unfolding node_at_def by (force simp: map_of_eq_None_iff)
    then have old: "Suc k * 2 ^ l \<le> length xs" using le unfolding new_nodes_set mem_Collect_eq by (metis not_le)
    then show ?thesis
      using None storesD [OF assms(1) old] hash_under_append [OF old] by (simp add: write_nodes_def)
  next
    case (Some h)
    then obtain l' k' where e: "node l k = node l' k'" "h = hash_under H ?zs l' k'" "Suc k' * 2 ^ l' \<le> length ?zs"
      using map_of_SomeD [OF Some] unfolding new_nodes_set mem_Collect_eq node_at_def by blast
    have "in_tree l k" "in_tree l' k'" using le e(3) assms(2) by (intro in_tree_leaf_count; linarith)+
    then have "l = l' \<and> k = k'" using e(1) by (simp only: node_eq_iff)
    then show ?thesis using Some e by (simp add: write_nodes_def)
  qed
  then show ?thesis using assms(2) by (simp only: stores_def) blast
qed

section \<open>Properties\<close>

text \<open>
  C11. Appending to the stored accumulator is appending to the list of its leaves: the root hash is that
  of the Merkle tree over all leaves, the one an in-memory accumulator computes, the nodes
  returned are numbered consecutively in post-order from the first number not yet in the store, and
  once they are written the store holds the longer list. No assertion in the loops fails.
\<close>

theorem stored_append_refines:
  assumes "stores H reader xs" and "length (xs @ ys) \<le> 2 ^ 63"
  shows "\<exists>nodes. store_append H reader (of_nat (length xs)) ys = Ok (merkle_root H (xs @ ys), nodes)
    \<and> map (\<lambda>(p, h). unat (to_postorder_index p)) nodes = [frozen_count (length xs)..<frozen_count (length (xs @ ys))]
    \<and> stores H (write_nodes nodes reader) (xs @ ys)
    \<and> (\<forall>acc. represents H acc xs \<longrightarrow>
          (\<exists>acc'. accumulator_append H acc ys = Ok acc' \<and> acc_root_hash acc' = merkle_root H (xs @ ys)))"
proof -
  let ?new = "new_nodes H (xs @ ys) (length xs) (length (xs @ ys))"
  have app: "store_append H reader (of_nat (length xs)) ys = Ok (merkle_root H (xs @ ys), ?new)"
  proof (cases "ys = []")
    case True
    show ?thesis
    proof (cases "xs = []")
      case False
      then have "(of_nat (length xs) :: u64) \<noteq> 0"
        using of_nat_u64_pos [of "length xs"] length_stores [OF assms(1)] by auto
      with True root_hash_stored [OF assms(1) False] show ?thesis by (simp add: store_append_def new_nodes_def)
    qed (use True in \<open>simp add: store_append_def new_nodes_def merkle_root_def\<close>)
  next
    case False
    then show ?thesis by (rule store_append_eq [OF assms])
  qed
  have mem: "\<exists>acc'. accumulator_append H acc ys = Ok acc' \<and> acc_root_hash acc' = merkle_root H (xs @ ys)"
    if "represents H acc xs" for acc
    using append_represents [OF that, of ys] assms(2) by (auto simp: represents_def)
  show ?thesis
    using app new_nodes_postorder [of "length xs" "length (xs @ ys)" H "xs @ ys"] assms(2) stores_write_nodes [OF assms] mem
    by (intro exI [of _ ?new]) (simp add: case_prod_unfold)
qed

text \<open>
  C12. The inclusion proofs read from the store convince the verifier: for every leaf \<open>get_proof\<close>
  returns siblings with which \<open>AccumulatorProof::verify\<close> accepts the leaf under the root hash
  \<open>get_root_hash\<close> returns, and for an index that is not a leaf it returns an error.
\<close>

theorem stored_proofs_verify:
  assumes "stores H reader xs" and "xs \<noteq> []"
  shows "get_root_hash H reader (of_nat (length xs)) = Ok (merkle_root H xs)
    \<and> (\<forall>i. (i < length xs \<longrightarrow> (\<exists>siblings. get_proof H reader (of_nat (length xs)) (of_nat i) = Ok siblings
            \<and> accumulator_proof_verify H siblings (merkle_root H xs) (xs ! i) (of_nat i) = Ok ()))
         \<and> (length xs \<le> i \<and> i < 2 ^ 64 \<longrightarrow> (\<exists>e. get_proof H reader (of_nat (length xs)) (of_nat i) = Err e)))"
proof (intro conjI allI impI)
  let ?n = "length xs" and ?d = "tree_depth (length xs)"
  have n: "?n \<le> 2 ^ 63" by (rule length_stores [OF assms(1)])
  show "get_root_hash H reader (of_nat ?n) = Ok (merkle_root H xs)" by (rule root_hash_stored [OF assms])
  show "\<exists>siblings. get_proof H reader (of_nat ?n) (of_nat i) = Ok siblings
      \<and> accumulator_proof_verify H siblings (merkle_root H xs) (xs ! i) (of_nat i) = Ok ()" if "i < ?n" for i
  proof -
    have "unat (of_nat i :: u64) mod 2 ^ ?d = i"
      using that n le_pow_tree_depth [of ?n] by (simp add: unat_of_nat)
    from fold_audit_path [OF that le_pow_tree_depth this, of H] tree_depth_le_63 [OF n] get_proof_audit_path [OF assms(1) that]
    show ?thesis by (simp add: accumulator_proof_verify_def ensure_def max_accumulator_proof_depth_def merkle_root_def)
  qed
  show "\<exists>e. get_proof H reader (of_nat ?n) (of_nat i) = Err e" if "?n \<le> i \<and> i < 2 ^ 64" for i
    using that n by (simp add: get_proof_def ensure_def word_less_nat_alt unat_of_nat)
qed

theorem stored_append_refines_witness:
  "\<exists>nodes. store_append (\<lambda>l r. 2 * l + r) (\<lambda>_. Panic) 0 [5, 6, 7] = Ok (merkle_root (\<lambda>l r. 2 * l + r) [5, 6, 7], nodes)
     \<and> map (\<lambda>(p, h). unat (to_postorder_index p)) nodes = [0..<4]"
proof -
  have "frozen_count (length ([] :: hash_value list)) = 0" "frozen_count (length ([] @ [5, 6, 7 :: hash_value])) = 4"
    by (simp_all add: frozen_count_def count_ones_nat.simps)
  with stored_append_refines [of "\<lambda>l r. 2 * l + r" "\<lambda>_. Panic" "[]" "[5, 6, 7]"] show ?thesis
    by (auto simp: stores_def)
qed

theorem stored_proofs_verify_witness:
  "\<exists>reader siblings. get_proof (\<lambda>l r. 2 * l + r) reader 3 2 = Ok siblings
     \<and> accumulator_proof_verify (\<lambda>l r. 2 * l + r) siblings (merkle_root (\<lambda>l r. 2 * l + r) [5, 6, 7]) 7 2 = Ok ()"
proof -
  let ?H = "\<lambda>l r. 2 * l + r :: hash_value"
  have "stores ?H (\<lambda>_. Panic) []" by (simp add: stores_def)
  from stores_write_nodes [OF this, of "[5, 6, 7]"] obtain reader where "stores ?H reader [5, 6, 7]" by auto
  note stored_proofs_verify [OF this, THEN conjunct2, THEN spec, of 2, THEN conjunct1]
  then show ?thesis by (intro exI [of _ reader]) simp
qed

end
