(* ===== verification/Validator_Verifier.thy ===== *)
theory Validator_Verifier
  imports Diem_Types
begin

text \<open>
  \<open>types/src/validator_verifier.rs\<close>: the validator set of an epoch with its voting powers, the
  quorum threshold, and the verification of single and aggregated signatures. The lemmas show that
  the running sum of voting power is exact on the keys of a map, that two quorums share a validator
  outside any set of less than a third of the power, and that batch verification accepts what
  one-by-one verification accepts.
\<close>

section \<open>The model\<close>

fun fold_voting_power :: "u64 \<Rightarrow> validator_consensus_info list \<Rightarrow> (u64, anyhow) result" where
  "fold_voting_power acc [] = Ok acc"
| "fold_voting_power acc (x # xs) =
     bind_result (expect (checked_add acc (vci_voting_power x))) (\<lambda>s. fold_voting_power s xs)"

definition sum_voting_power ::
    "(account_address, validator_consensus_info) btree_map \<Rightarrow> (u64, anyhow) result" where
  "sum_voting_power infos = fold_voting_power 0 (btree_values infos)"

definition validator_verifier_new ::
    "(account_address, validator_consensus_info) btree_map \<Rightarrow> (validator_verifier, anyhow) result" where
  "validator_verifier_new infos =
     bind_result (sum_voting_power infos) (\<lambda>total.
       Ok \<lparr>address_to_validator_info = infos,
           quorum_voting_power = (if btree_is_empty infos then 0 else total * 2 div 3 + 1),
           total_voting_power = total\<rparr>)"

definition validator_verifier_new_single ::
    "account_address \<Rightarrow> public_key \<Rightarrow> (validator_verifier, anyhow) result" where
  "validator_verifier_new_single a pk =
     validator_verifier_new
       (btree_insert a \<lparr>vci_public_key = pk, vci_voting_power = 1\<rparr> btree_new)"

definition get_public_key :: "validator_verifier \<Rightarrow> account_address \<Rightarrow> public_key option" where
  "get_public_key vv a = map_option vci_public_key (btree_get (address_to_validator_info vv) a)"

definition get_voting_power :: "validator_verifier \<Rightarrow> account_address \<Rightarrow> u64 option" where
  "get_voting_power vv a = map_option vci_voting_power (btree_get (address_to_validator_info vv) a)"

definition get_ordered_account_addresses :: "validator_verifier \<Rightarrow> account_address list" where
  "get_ordered_account_addresses vv = btree_keys (address_to_validator_info vv)"

definition vv_len :: "validator_verifier \<Rightarrow> nat" where
  "vv_len vv = btree_len (address_to_validator_info vv)"

definition vv_is_empty :: "validator_verifier \<Rightarrow> bool" where
  "vv_is_empty vv \<longleftrightarrow> vv_len vv = 0"

definition vv_verify ::
    "crypto \<Rightarrow> validator_verifier \<Rightarrow> account_address \<Rightarrow> crypto_hash \<Rightarrow> signature
     \<Rightarrow> (unit, verify_error) result" where
  "vv_verify C vv a msg sig =
     (case get_public_key vv a of
        Some pk \<Rightarrow> if \<not> verify_struct_signature C pk msg sig then Err InvalidSignature else Ok ()
      | None \<Rightarrow> Err UnknownAuthor)"

definition check_num_of_signatures ::
    "validator_verifier \<Rightarrow> (account_address, signature) btree_map \<Rightarrow> (unit, verify_error) result" where
  "check_num_of_signatures vv sigs =
     (if vv_len vv < btree_len sigs then Err (TooManySignatures (btree_len sigs) (vv_len vv)) else Ok ())"

fun aggregate_voting_power ::
    "validator_verifier \<Rightarrow> u64 \<Rightarrow> account_address list \<Rightarrow> (u64, verify_error) result" where
  "aggregate_voting_power vv acc [] = Ok acc"
| "aggregate_voting_power vv acc (a # as) =
     (case get_voting_power vv a of
        Some p \<Rightarrow> aggregate_voting_power vv (acc + p) as
      | None \<Rightarrow> Err UnknownAuthor)"

definition check_voting_power ::
    "validator_verifier \<Rightarrow> account_address list \<Rightarrow> (unit, verify_error) result" where
  "check_voting_power vv as =
     bind_result (aggregate_voting_power vv 0 as) (\<lambda>power.
       if power < quorum_voting_power vv
       then Err (TooLittleVotingPower power (quorum_voting_power vv))
       else Ok ())"

fun verify_each ::
    "crypto \<Rightarrow> validator_verifier \<Rightarrow> crypto_hash \<Rightarrow> (account_address \<times> signature) list
     \<Rightarrow> (unit, verify_error) result" where
  "verify_each C vv msg [] = Ok ()"
| "verify_each C vv msg ((a, sig) # xs) =
     bind_result (vv_verify C vv a msg sig) (\<lambda>_. verify_each C vv msg xs)"

definition verify_aggregated_struct_signature ::
    "crypto \<Rightarrow> validator_verifier \<Rightarrow> crypto_hash \<Rightarrow> (account_address, signature) btree_map
     \<Rightarrow> (unit, verify_error) result" where
  "verify_aggregated_struct_signature C vv msg sigs =
     bind_result (check_num_of_signatures vv sigs) (\<lambda>_.
     bind_result (check_voting_power vv (btree_keys sigs)) (\<lambda>_.
       verify_each C vv msg (entries sigs)))"

definition keys_and_signatures ::
    "validator_verifier \<Rightarrow> (account_address, signature) btree_map \<Rightarrow> (public_key \<times> signature) list" where
  "keys_and_signatures vv sigs =
     List.map_filter (\<lambda>(a, sig). map_option (\<lambda>pk. (pk, sig)) (get_public_key vv a)) (entries sigs)"

definition batch_verify_aggregated_signatures ::
    "crypto \<Rightarrow> validator_verifier \<Rightarrow> crypto_hash \<Rightarrow> (account_address, signature) btree_map
     \<Rightarrow> (unit, verify_error) result" where
  "batch_verify_aggregated_signatures C vv msg sigs =
     bind_result (check_num_of_signatures vv sigs) (\<lambda>_.
     bind_result (check_voting_power vv (btree_keys sigs)) (\<lambda>_.
       if \<not> batch_verify C msg (keys_and_signatures vv sigs)
       then verify_aggregated_struct_signature C vv msg sigs
       else Ok ()))"

text \<open>The conversion from the on-chain validator set.\<close>

record validator_info =
  vi_account_address :: account_address
  vi_consensus_voting_power :: u64
  vi_consensus_public_key :: public_key

definition validator_set_infos ::
    "validator_info list \<Rightarrow> (account_address, validator_consensus_info) btree_map" where
  "validator_set_infos vs =
     fold (\<lambda>v m. btree_insert (vi_account_address v)
        \<lparr>vci_public_key = vi_consensus_public_key v,
         vci_voting_power = vi_consensus_voting_power v\<rparr> m) vs btree_new"

definition validator_verifier_from_set :: "validator_info list \<Rightarrow> (validator_verifier, anyhow) result" where
  "validator_verifier_from_set vs = validator_verifier_new (validator_set_infos vs)"

section \<open>Voting power\<close>

text \<open>The voting power of an address as a number, zero outside the validator set.\<close>

definition vpower :: "validator_verifier \<Rightarrow> account_address \<Rightarrow> nat" where
  "vpower vv a = (case get_voting_power vv a of None \<Rightarrow> 0 | Some p \<Rightarrow> unat p)"

definition members :: "validator_verifier \<Rightarrow> account_address set" where
  "members vv = set (get_ordered_account_addresses vv)"

definition power_of :: "validator_verifier \<Rightarrow> account_address set \<Rightarrow> nat" where
  "power_of vv S = sum (vpower vv) (S \<inter> members vv)"

text \<open>A verifier as \<open>ValidatorVerifier::new\<close> returns it.\<close>

definition wf_verifier :: "validator_verifier \<Rightarrow> bool" where
  "wf_verifier vv \<longleftrightarrow>
     validator_verifier_new (address_to_validator_info vv) = Ok vv"

lemma members_iff: "a \<in> members vv \<longleftrightarrow> (\<exists>i. btree_get (address_to_validator_info vv) a = Some i)"
  by (simp add: members_def get_ordered_account_addresses_def btree_keys_get)

lemma get_voting_power_Some: "get_voting_power vv a = Some p \<Longrightarrow> a \<in> members vv \<and> vpower vv a = unat p"
  by (auto simp: vpower_def members_iff get_voting_power_def)

lemma get_public_key_members: "get_public_key vv a = Some pk \<Longrightarrow> a \<in> members vv"
  by (auto simp: get_public_key_def members_iff)

lemma members_public_key: "a \<in> members vv \<Longrightarrow> \<exists>pk. get_public_key vv a = Some pk"
  by (auto simp: get_public_key_def members_iff)

lemma finite_members [simp]: "finite (members vv)"
  by (simp add: members_def)

lemma power_of_mono: "A \<subseteq> B \<Longrightarrow> power_of vv A \<le> power_of vv B"
  unfolding power_of_def by (rule sum_mono2) auto

lemma power_of_insert:
  "a \<in> members vv \<Longrightarrow> a \<notin> S \<Longrightarrow> power_of vv (insert a S) = vpower vv a + power_of vv S"
  by (simp add: power_of_def)

lemma fold_voting_power_exact:
  "fold_voting_power acc xs = Ok t \<Longrightarrow>
     unat t = unat acc + sum_list (map (unat \<circ> vci_voting_power) xs)"
proof (induction xs arbitrary: acc)
  case (Cons x xs)
  then obtain s where s: "checked_add acc (vci_voting_power x) = Some s"
    and rest: "fold_voting_power s xs = Ok t"
    by (auto simp: ok_simps)
  from Cons.IH [OF rest] checked_add_SomeD [OF s] show ?case by simp
qed simp

lemma power_entries:
  assumes "(a, i) \<in> set (entries (address_to_validator_info vv))"
  shows "vpower vv a = unat (vci_voting_power i)"
  using assms by (simp add: vpower_def get_voting_power_def entries_iff_get)

lemma power_of_members_values:
  "power_of vv (members vv) =
     sum_list (map (unat \<circ> vci_voting_power) (btree_values (address_to_validator_info vv)))"
proof -
  let ?es = "entries (address_to_validator_info vv)"
  have d: "distinct (map fst ?es)"
    by (rule sorted_entries_distinct [OF entries_sorted])
  have "power_of vv (members vv) = sum_list (map (vpower vv) (map fst ?es))"
    using d by (simp add: power_of_def members_def get_ordered_account_addresses_def btree_keys_def
        sum_list_distinct_conv_sum_set del: map_map)
  also have "\<dots> = sum_list (map (\<lambda>(a, i). unat (vci_voting_power i)) ?es)"
    unfolding map_map by (rule arg_cong [where f = sum_list], rule map_cong)
      (auto simp: power_entries)
  finally show ?thesis
    by (simp add: btree_values_def comp_def case_prod_unfold)
qed

lemma wf_verifier_total:
  assumes "wf_verifier vv"
  shows "unat (total_voting_power vv) = power_of vv (members vv)"
proof -
  from assms have "sum_voting_power (address_to_validator_info vv)
      = Ok (total_voting_power vv)"
    unfolding wf_verifier_def validator_verifier_new_def by (cases vv) (auto simp: ok_simps)
  then show ?thesis
    by (simp add: sum_voting_power_def power_of_members_values fold_voting_power_exact)
qed

lemma wf_verifier_quorum:
  assumes "wf_verifier vv" and "members vv \<noteq> {}"
  shows "quorum_voting_power vv = total_voting_power vv * 2 div 3 + 1"
proof -
  have "\<not> btree_is_empty (address_to_validator_info vv)"
    using assms(2) by (auto simp: btree_is_empty_def members_def get_ordered_account_addresses_def btree_keys_def)
  with assms(1) show ?thesis
    unfolding wf_verifier_def validator_verifier_new_def by (cases vv) (auto simp: ok_simps)
qed

lemma aggregate_voting_power_Ok:
  assumes "aggregate_voting_power vv acc as = Ok t"
    and "unat acc + sum_list (map (vpower vv) as) < 2 ^ 64"
  shows "unat t = unat acc + sum_list (map (vpower vv) as)"
  using assms
proof (induction vv acc as arbitrary: t rule: aggregate_voting_power.induct)
  case (2 vv acc a as)
  then obtain p where p: "get_voting_power vv a = Some p"
    and rest: "aggregate_voting_power vv (acc + p) as = Ok t"
    by (auto split: option.splits)
  have pow: "vpower vv a = unat p"
    using get_voting_power_Some [OF p] by simp
  with "2.prems" have "unat (acc + p) = unat acc + unat p"
    by (simp add: unat_word_ariths)
  with "2.IH" [OF p rest] "2.prems" pow show ?case by simp
qed simp

lemma aggregate_voting_power_cases:
  "aggregate_voting_power vv acc as =
     (if set as \<subseteq> members vv then Ok (acc + sum_list (map (the \<circ> get_voting_power vv) as))
      else Err UnknownAuthor)"
proof (induction vv acc as rule: aggregate_voting_power.induct)
  case (2 vv acc a as)
  show ?case
  proof (cases "get_voting_power vv a")
    case None
    then have "a \<notin> members vv" by (auto simp: members_iff get_voting_power_def)
    with None show ?thesis by simp
  next
    case (Some p)
    with "2.IH" [OF Some] get_voting_power_Some [OF Some] show ?thesis
      by (simp add: add.assoc comp_def)
  qed
qed simp

lemma power_of_distinct:
  "distinct as \<Longrightarrow> set as \<subseteq> members vv \<Longrightarrow> power_of vv (set as) = sum_list (map (vpower vv) as)"
  by (simp add: power_of_def Int_absorb2 sum_list_distinct_conv_sum_set)

text \<open>
  On distinct known authors the wrapping sum of \<open>check_voting_power\<close> is the true sum: the total
  was added with overflow checks when the verifier was built.
\<close>

lemma aggregate_voting_power_exact:
  assumes wf: "wf_verifier vv" and d: "distinct as" and known: "set as \<subseteq> members vv"
  obtains t where "aggregate_voting_power vv 0 as = Ok t" and "unat t = power_of vv (set as)"
proof -
  have "power_of vv (set as) \<le> power_of vv (members vv)"
    by (rule power_of_mono [OF known])
  also have "\<dots> < 2 ^ 64"
    using wf_verifier_total [OF wf, symmetric] by simp
  finally have lt: "unat (0 :: u64) + sum_list (map (vpower vv) as) < 2 ^ 64"
    using power_of_distinct [OF d known] by simp
  from known obtain t where t: "aggregate_voting_power vv 0 as = Ok t"
    by (simp add: aggregate_voting_power_cases)
  show thesis
    by (rule that [OF t])
      (use aggregate_voting_power_Ok [OF t lt] power_of_distinct [OF d known] in simp)
qed

lemma check_voting_power_iff:
  assumes wf: "wf_verifier vv" and d: "distinct as"
  shows "check_voting_power vv as = Ok () \<longleftrightarrow>
    set as \<subseteq> members vv \<and> unat (quorum_voting_power vv) \<le> power_of vv (set as)"
proof (cases "set as \<subseteq> members vv")
  case True
  then obtain t where "aggregate_voting_power vv 0 as = Ok t" "unat t = power_of vv (set as)"
    by (rule aggregate_voting_power_exact [OF wf d])
  with True show ?thesis
    by (auto simp: check_voting_power_def word_less_nat_alt)
next
  case False
  then show ?thesis
    by (simp add: check_voting_power_def aggregate_voting_power_cases)
qed

lemma check_voting_power_members:
  "check_voting_power vv as = Ok () \<Longrightarrow> set as \<subseteq> members vv"
  by (auto simp: check_voting_power_def aggregate_voting_power_cases ok_simps split: if_splits)

lemma quorum_exact:
  assumes "wf_verifier vv" and "members vv \<noteq> {}" and "unat (total_voting_power vv) < 2 ^ 63"
  shows "unat (quorum_voting_power vv) = 2 * unat (total_voting_power vv) div 3 + 1"
proof -
  let ?T = "total_voting_power vv"
  from assms(3) have "unat (?T * 2) = unat ?T * 2"
    by (simp add: unat_word_ariths)
  then have d: "unat (?T * 2 div 3) = unat ?T * 2 div 3"
    by (simp add: unat_div)
  with assms(3) have "unat (?T * 2 div 3 + 1) = unat ?T * 2 div 3 + 1"
    by (simp add: unat_word_ariths)
  then show ?thesis
    using wf_verifier_quorum [OF assms(1,2)] by (simp add: mult.commute)
qed

lemma power_of_Int:
  "power_of vv (A \<inter> B) + power_of vv (A \<union> B) = power_of vv A + power_of vv B"
proof -
  have "power_of vv A + power_of vv B
      = sum (vpower vv) ((A \<inter> members vv) \<union> (B \<inter> members vv))
        + sum (vpower vv) ((A \<inter> members vv) \<inter> (B \<inter> members vv))"
    unfolding power_of_def by (rule sum.union_inter [symmetric]) auto
  also have "(A \<inter> members vv) \<union> (B \<inter> members vv) = (A \<union> B) \<inter> members vv"
    by auto
  also have "(A \<inter> members vv) \<inter> (B \<inter> members vv) = (A \<inter> B) \<inter> members vv"
    by auto
  finally show ?thesis by (simp add: power_of_def)
qed

text \<open>The assumption of the BFT model: the faulty validators hold less than a third of the power.\<close>

definition minority :: "validator_verifier \<Rightarrow> account_address set \<Rightarrow> bool" where
  "minority vv F \<longleftrightarrow> 3 * power_of vv F < unat (total_voting_power vv)"

text \<open>A verifier whose total power leaves room for the doubling in \<open>ValidatorVerifier::new\<close>.\<close>

definition sound_verifier :: "validator_verifier \<Rightarrow> bool" where
  "sound_verifier vv \<longleftrightarrow> wf_verifier vv \<and> unat (total_voting_power vv) < 2 ^ 63"

lemma quorums_intersect:
  assumes vv: "sound_verifier vv" and F: "minority vv F"
    and A: "check_voting_power vv as = Ok ()" "distinct as"
    and B: "check_voting_power vv bs = Ok ()" "distinct bs"
  shows "\<exists>a. a \<in> set as \<and> a \<in> set bs \<and> a \<in> members vv \<and> a \<notin> F"
proof -
  from vv have wf: "wf_verifier vv" and small: "unat (total_voting_power vv) < 2 ^ 63"
    by (auto simp: sound_verifier_def)
  let ?T = "unat (total_voting_power vv)" and ?q = "unat (quorum_voting_power vv)"
  let ?A = "set as" and ?B = "set bs"
  have ne: "members vv \<noteq> {}"
    using F wf_verifier_total [OF wf] by (auto simp: minority_def power_of_def)
  have q: "?q = 2 * ?T div 3 + 1"
    by (rule quorum_exact [OF wf ne small])
  from A B check_voting_power_iff [OF wf] have
    pA: "?q \<le> power_of vv ?A" "?A \<subseteq> members vv" and pB: "?q \<le> power_of vv ?B" "?B \<subseteq> members vv"
    by auto
  have "power_of vv (?A \<union> ?B) \<le> ?T"
    using pA pB wf_verifier_total [OF wf] by (simp add: power_of_mono)
  moreover have "2 * ?T < 3 * ?q"
    unfolding q by simp
  ultimately have "?T < 3 * power_of vv (?A \<inter> ?B)"
    using power_of_Int [of vv ?A ?B] pA(1) pB(1) by linarith
  then have "\<not> ?A \<inter> ?B \<subseteq> F"
    using F power_of_mono [of "?A \<inter> ?B" F vv] by (auto simp: minority_def)
  with pA show ?thesis by auto
qed

section \<open>Aggregated signatures\<close>

lemma vv_verify_Ok_iff [ok_simps]:
  "vv_verify C vv a msg sig = Ok u \<longleftrightarrow>
     (\<exists>pk. get_public_key vv a = Some pk \<and> verify_struct_signature C pk msg sig)"
  by (auto simp: vv_verify_def split: option.splits)

lemma verify_each_Ok_iff:
  "verify_each C vv msg xs = Ok () \<longleftrightarrow>
     (\<forall>a sig. (a, sig) \<in> set xs \<longrightarrow> vv_verify C vv a msg sig = Ok ())"
  by (induction C vv msg xs rule: verify_each.induct) (auto simp: bind_result_Ok_iff)

lemma verify_aggregated_Ok_iff:
  "verify_aggregated_struct_signature C vv msg sigs = Ok () \<longleftrightarrow>
     btree_len sigs \<le> vv_len vv \<and> check_voting_power vv (btree_keys sigs) = Ok () \<and>
     (\<forall>a sig. btree_get sigs a = Some sig \<longrightarrow> vv_verify C vv a msg sig = Ok ())"
  by (simp add: verify_aggregated_struct_signature_def check_num_of_signatures_def
      bind_result_Ok_iff verify_each_Ok_iff entries_iff_get not_less)

lemma keys_and_signatures_complete:
  assumes "btree_get sigs a = Some sig" and "get_public_key vv a = Some pk"
  shows "(pk, sig) \<in> set (keys_and_signatures vv sigs)"
proof -
  from assms have "(a, sig) \<in> set (entries sigs)"
    and "map_option (\<lambda>pk. (pk, sig)) (get_public_key vv a) = Some (pk, sig)"
    by (simp_all add: entries_iff_get)
  then show ?thesis
    unfolding keys_and_signatures_def List.map_filter_def set_map set_filter
    by (intro image_eqI [of _ _ "(a, sig)"]) auto
qed

text \<open>
  The batch path accepts exactly the signature maps the sequential path accepts, so the fallback
  only decides which error is reported.
\<close>

lemma batch_verify_iff:
  assumes sound: "batch_sound C"
  shows "batch_verify_aggregated_signatures C vv msg sigs = Ok () \<longleftrightarrow>
    verify_aggregated_struct_signature C vv msg sigs = Ok ()" (is "?b \<longleftrightarrow> ?s")
proof
  assume ?s
  then show ?b
    by (auto simp: batch_verify_aggregated_signatures_def verify_aggregated_struct_signature_def ok_simps)
next
  assume b: ?b
  show ?s
  proof (cases "batch_verify C msg (keys_and_signatures vv sigs)")
    case False
    with b show ?thesis
      by (auto simp: batch_verify_aggregated_signatures_def ok_simps)
  next
    case True
    with sound have each: "\<forall>(pk, sig) \<in> set (keys_and_signatures vv sigs). verify_struct_signature C pk msg sig"
      by (auto simp: batch_sound_def)
    from b have num: "check_num_of_signatures vv sigs = Ok ()"
      and pow: "check_voting_power vv (btree_keys sigs) = Ok ()"
      by (auto simp: batch_verify_aggregated_signatures_def ok_simps)
    have "vv_verify C vv a msg sig = Ok ()" if g: "btree_get sigs a = Some sig" for a sig
    proof -
      from g have "a \<in> members vv"
        using check_voting_power_members [OF pow] by (auto simp: btree_keys_get)
      then obtain pk where "get_public_key vv a = Some pk"
        using members_public_key by blast
      with keys_and_signatures_complete [OF g this] each show ?thesis
        by (auto simp: ok_simps)
    qed
    with num pow show ?thesis
      by (auto simp: verify_aggregated_Ok_iff check_num_of_signatures_def split: if_splits)
  qed
qed

lemma verify_aggregated_signers:
  assumes "verify_aggregated_struct_signature C vv msg sigs = Ok ()"
    and "a \<in> set (btree_keys sigs)"
  obtains pk sig where "get_public_key vv a = Some pk" and "btree_get sigs a = Some sig"
    and "verify_struct_signature C pk msg sig"
proof -
  from assms(2) obtain sig where sig: "btree_get sigs a = Some sig"
    by (auto simp: btree_keys_get)
  with assms(1) have "vv_verify C vv a msg sig = Ok ()"
    by (simp add: verify_aggregated_Ok_iff)
  with sig that show thesis
    by (auto simp: vv_verify_Ok_iff)
qed

section \<open>Properties\<close>

definition ex_infos :: "(account_address, validator_consensus_info) btree_map" where
  "ex_infos = btree_insert 1 \<lparr>vci_public_key = 11, vci_voting_power = 1\<rparr>
     (btree_insert 2 \<lparr>vci_public_key = 12, vci_voting_power = 1\<rparr>
     (btree_insert 3 \<lparr>vci_public_key = 13, vci_voting_power = 1\<rparr>
     (btree_insert 4 \<lparr>vci_public_key = 14, vci_voting_power = 1\<rparr> btree_new)))"

definition ex_verifier :: validator_verifier where
  "ex_verifier = \<lparr>address_to_validator_info = ex_infos, quorum_voting_power = 3, total_voting_power = 4\<rparr>"

lemma ex_verifier_wf: "wf_verifier ex_verifier"
  by (simp add: wf_verifier_def ex_verifier_def ex_infos_def validator_verifier_new_def sum_voting_power_def
      btree_values_def btree_is_empty_def checked_add_def)

lemma ex_members: "members ex_verifier = {1, 2, 3, 4}"
  by (auto simp: members_def get_ordered_account_addresses_def ex_verifier_def ex_infos_def btree_keys_def)

lemma ex_powers: "vpower ex_verifier 1 = 1" "vpower ex_verifier 2 = 1" "vpower ex_verifier 3 = 1" "vpower ex_verifier 4 = 1"
  by (simp_all add: vpower_def get_voting_power_def ex_verifier_def ex_infos_def btree_get_def)

text \<open>
  C30. \<open>check_voting_power\<close> decides the quorum exactly: for distinct authors it succeeds if and only if
  all of them are in the validator set and their true (unbounded) voting power reaches the quorum,
  which is more than two thirds of the total, although the code adds with wrap-around.
\<close>

theorem check_voting_power_exact:
  assumes "sound_verifier vv" and "members vv \<noteq> {}" and "distinct as"
  shows "check_voting_power vv as = Ok () \<longleftrightarrow>
    set as \<subseteq> members vv \<and> 2 * power_of vv (members vv) < 3 * power_of vv (set as)"
proof -
  from assms(1) have wf: "wf_verifier vv" and small: "unat (total_voting_power vv) < 2 ^ 63"
    by (auto simp: sound_verifier_def)
  have q: "unat (quorum_voting_power vv) = 2 * power_of vv (members vv) div 3 + 1"
    using quorum_exact [OF wf assms(2) small] wf_verifier_total [OF wf] by simp
  have "2 * t div 3 + 1 \<le> p \<longleftrightarrow> 2 * t < 3 * p" for t p :: nat by presburger
  with check_voting_power_iff [OF wf assms(3)] q show ?thesis by simp
qed

theorem check_voting_power_exact_witness:
  "check_voting_power ex_verifier [1, 3, 4] = Ok () \<and> check_voting_power ex_verifier [1, 2] \<noteq> Ok ()"
proof -
  have s: "sound_verifier ex_verifier" using ex_verifier_wf by (simp add: sound_verifier_def ex_verifier_def)
  show ?thesis
    using check_voting_power_exact [OF s, of "[1, 3, 4]"] check_voting_power_exact [OF s, of "[1, 2]"]
    by (simp add: ex_members power_of_def ex_powers insert_commute)
qed

text \<open>
  C29. Two quorums of a validator set, the signers of two certificates, have an honest validator in
  common whenever the faulty validators hold less than a third of the voting power.
\<close>

theorem quorum_intersection:
  assumes "sound_verifier vv" and "minority vv F"
    and "check_voting_power vv as = Ok ()" and "distinct as"
    and "check_voting_power vv bs = Ok ()" and "distinct bs"
  shows "\<exists>a. a \<in> set as \<and> a \<in> set bs \<and> a \<in> members vv \<and> a \<notin> F"
  using assms by (rule quorums_intersect)

theorem quorum_intersection_witness:
  "\<exists>a. a \<in> set [1, 3, 4 :: account_address] \<and> a \<in> set [1, 2, 3] \<and> a \<in> members ex_verifier \<and> a \<notin> {3}"
proof -
  have s: "sound_verifier ex_verifier" using ex_verifier_wf by (simp add: sound_verifier_def ex_verifier_def)
  have m: "minority ex_verifier {3}" by (simp add: minority_def power_of_def ex_members ex_powers) (simp add: ex_verifier_def)
  have ok: "check_voting_power ex_verifier [1, 3, 4] = Ok ()" "check_voting_power ex_verifier [1, 2, 3] = Ok ()"
    by (simp_all add: check_voting_power_def get_voting_power_def ex_verifier_def ex_infos_def btree_get_def)
  from quorum_intersection [OF s m ok(1) _ ok(2)] show ?thesis by simp
qed

text \<open>
  C31. Batch verification of an aggregated signature accepts exactly the signature maps that checking
  the signatures one by one accepts: no more signatures than validators, a quorum of known signers,
  and every signature valid.
\<close>

theorem batch_verification_agrees:
  assumes "batch_sound C"
  shows "batch_verify_aggregated_signatures C vv msg sigs = Ok () \<longleftrightarrow>
    btree_len sigs \<le> vv_len vv \<and> check_voting_power vv (btree_keys sigs) = Ok () \<and>
    (\<forall>a sig. btree_get sigs a = Some sig \<longrightarrow>
       (\<exists>pk. get_public_key vv a = Some pk \<and> verify_struct_signature C pk msg sig))"
  using batch_verify_iff [OF assms, of vv msg sigs] by (simp add: verify_aggregated_Ok_iff vv_verify_Ok_iff)

theorem batch_verification_agrees_witness:
  "batch_verify_aggregated_signatures \<lparr>hash_of = (\<lambda>_. 0), verify_struct_signature = (\<lambda>pk _ sig. sig = ucast pk),
     batch_verify = (\<lambda>_ ks. list_all (\<lambda>(pk, sig). sig = ucast pk) ks), sign_message = (\<lambda>k _. ucast k),
     public_key_of = id, txn_node_hash = (\<lambda>l r. l)\<rparr> ex_verifier (H_Timeout \<lparr>to_epoch = 1, to_round = 1\<rparr>)
     (btree_insert 1 11 (btree_insert 2 12 (btree_insert 3 99 btree_new))) \<noteq> Ok ()"
proof -
  let ?C = "\<lparr>hash_of = (\<lambda>_. 0), verify_struct_signature = (\<lambda>pk _ sig. sig = ucast pk),
     batch_verify = (\<lambda>_ ks. list_all (\<lambda>(pk, sig). sig = ucast pk) ks), sign_message = (\<lambda>k _. ucast k),
     public_key_of = id, txn_node_hash = (\<lambda>l r. l)\<rparr>"
  let ?sigs = "btree_insert 1 11 (btree_insert 2 12 (btree_insert 3 99 btree_new)) :: (account_address, signature) btree_map"
  have b: "batch_sound ?C" by (auto simp: batch_sound_def list_all_iff)
  have g: "btree_get ?sigs 3 = Some 99" "get_public_key ex_verifier 3 = Some 13"
    by (simp_all add: btree_get_def get_public_key_def ex_verifier_def ex_infos_def)
  show ?thesis
  proof
    assume "batch_verify_aggregated_signatures ?C ex_verifier (H_Timeout \<lparr>to_epoch = 1, to_round = 1\<rparr>) ?sigs = Ok ()"
    then have "\<forall>a sig. btree_get ?sigs a = Some sig \<longrightarrow> (\<exists>pk. get_public_key ex_verifier a = Some pk \<and>
        verify_struct_signature ?C pk (H_Timeout \<lparr>to_epoch = 1, to_round = 1\<rparr>) sig)"
      unfolding batch_verification_agrees [OF b] by (elim conjE)
    from this [rule_format, OF g(1)] g(2) show False by simp
  qed
qed


end
