(* ===== verification/Ledger_Info.thy ===== *)
theory Ledger_Info
  imports Validator_Verifier Accumulator
begin

text \<open>
  \<open>types/src/block_info.rs\<close>, \<open>types/src/ledger_info.rs\<close>, \<open>types/src/epoch_state.rs\<close> and
  \<open>types/src/waypoint.rs\<close>: the summary of a block, the ledger info with its signatures, the epoch
  state that verifies it and the waypoint derived from it.
\<close>

section \<open>BlockInfo\<close>

definition genesis_epoch :: u64 where
  "genesis_epoch = 0"

definition genesis_round :: round where
  "genesis_round = 0"

definition genesis_version :: version where
  "genesis_version = 0"

definition genesis_timestamp_usecs :: u64 where
  "genesis_timestamp_usecs = 0"

definition block_info_new ::
    "u64 \<Rightarrow> round \<Rightarrow> hash_value \<Rightarrow> hash_value \<Rightarrow> version \<Rightarrow> u64 \<Rightarrow> epoch_state option \<Rightarrow> block_info" where
  "block_info_new e r i st v t nes =
     \<lparr>bi_epoch = e, bi_round = r, bi_id = i, bi_executed_state_id = st, bi_version = v,
      bi_timestamp_usecs = t, bi_next_epoch_state = nes\<rparr>"

definition block_info_empty :: block_info where
  "block_info_empty =
     \<lparr>bi_epoch = 0, bi_round = 0, bi_id = 0, bi_executed_state_id = 0, bi_version = 0,
      bi_timestamp_usecs = 0, bi_next_epoch_state = None\<rparr>"

definition block_info_genesis :: "hash_value \<Rightarrow> validator_info list \<Rightarrow> (block_info, anyhow) result" where
  "block_info_genesis root vs =
     bind_result (validator_verifier_from_set vs) (\<lambda>vv.
       Ok \<lparr>bi_epoch = genesis_epoch, bi_round = genesis_round, bi_id = 0, bi_executed_state_id = root,
           bi_version = genesis_version, bi_timestamp_usecs = genesis_timestamp_usecs,
           bi_next_epoch_state = Some \<lparr>es_epoch = 1, es_verifier = vv\<rparr>\<rparr>)"

definition bi_next_block_epoch :: "block_info \<Rightarrow> u64" where
  "bi_next_block_epoch b = (case bi_next_epoch_state b of None \<Rightarrow> bi_epoch b | Some e \<Rightarrow> es_epoch e)"

definition has_reconfiguration :: "block_info \<Rightarrow> bool" where
  "has_reconfiguration b \<longleftrightarrow> bi_next_epoch_state b \<noteq> None"

definition allow_timestamp_change :: "block_info \<Rightarrow> u64 \<Rightarrow> bool" where
  "allow_timestamp_change b t \<longleftrightarrow> has_reconfiguration b \<and> t \<le> bi_timestamp_usecs b"

definition change_timestamp :: "block_info \<Rightarrow> u64 \<Rightarrow> (block_info, anyhow) result" where
  "change_timestamp b t =
     (if allow_timestamp_change b t then Ok (b\<lparr>bi_timestamp_usecs := t\<rparr>) else Panic)"

definition match_ordered_only :: "block_info \<Rightarrow> block_info \<Rightarrow> bool" where
  "match_ordered_only b executed \<longleftrightarrow>
     bi_epoch b = bi_epoch executed \<and> bi_round b = bi_round executed \<and> bi_id b = bi_id executed \<and>
     (bi_timestamp_usecs b = bi_timestamp_usecs executed \<or>
      bi_timestamp_usecs executed < bi_timestamp_usecs b \<and> has_reconfiguration executed)"

definition is_ordered_only :: "block_info \<Rightarrow> bool" where
  "is_ordered_only b \<longleftrightarrow>
     b \<noteq> block_info_empty \<and> bi_next_epoch_state b = None \<and>
     bi_executed_state_id b = accumulator_placeholder_hash \<and> bi_version b = 0"

section \<open>LedgerInfo\<close>

definition ledger_info_new :: "block_info \<Rightarrow> hash_value \<Rightarrow> ledger_info" where
  "ledger_info_new b h = \<lparr>li_commit_info = b, li_consensus_data_hash = h\<rparr>"

definition ledger_info_genesis :: "hash_value \<Rightarrow> validator_info list \<Rightarrow> (ledger_info, anyhow) result" where
  "ledger_info_genesis root vs =
     bind_result (block_info_genesis root vs) (\<lambda>b. Ok (ledger_info_new b 0))"

definition li_epoch :: "ledger_info \<Rightarrow> u64" where
  "li_epoch li = bi_epoch (li_commit_info li)"

definition li_next_block_epoch :: "ledger_info \<Rightarrow> u64" where
  "li_next_block_epoch li = bi_next_block_epoch (li_commit_info li)"

definition li_round :: "ledger_info \<Rightarrow> round" where
  "li_round li = bi_round (li_commit_info li)"

definition li_consensus_block_id :: "ledger_info \<Rightarrow> hash_value" where
  "li_consensus_block_id li = bi_id (li_commit_info li)"

definition li_transaction_accumulator_hash :: "ledger_info \<Rightarrow> hash_value" where
  "li_transaction_accumulator_hash li = bi_executed_state_id (li_commit_info li)"

definition li_version :: "ledger_info \<Rightarrow> version" where
  "li_version li = bi_version (li_commit_info li)"

definition li_timestamp_usecs :: "ledger_info \<Rightarrow> u64" where
  "li_timestamp_usecs li = bi_timestamp_usecs (li_commit_info li)"

definition li_next_epoch_state :: "ledger_info \<Rightarrow> epoch_state option" where
  "li_next_epoch_state li = bi_next_epoch_state (li_commit_info li)"

definition li_ends_epoch :: "ledger_info \<Rightarrow> bool" where
  "li_ends_epoch li \<longleftrightarrow> li_next_epoch_state li \<noteq> None"

definition set_consensus_data_hash :: "hash_value \<Rightarrow> ledger_info \<Rightarrow> ledger_info" where
  "set_consensus_data_hash h li = li\<lparr>li_consensus_data_hash := h\<rparr>"

lemmas li_defs = li_epoch_def li_next_block_epoch_def li_round_def li_consensus_block_id_def
  li_transaction_accumulator_hash_def li_version_def li_timestamp_usecs_def li_next_epoch_state_def
  li_ends_epoch_def

section \<open>LedgerInfoWithSignatures\<close>

definition lis_new ::
    "ledger_info \<Rightarrow> (account_address, signature) btree_map \<Rightarrow> ledger_info_with_signatures" where
  "lis_new li sigs = \<lparr>lis_ledger_info = li, lis_signatures = sigs\<rparr>"

definition lis_genesis :: "hash_value \<Rightarrow> validator_info list \<Rightarrow> (ledger_info_with_signatures, anyhow) result" where
  "lis_genesis root vs =
     bind_result (ledger_info_genesis root vs) (\<lambda>li. Ok (lis_new li btree_new))"

definition lis_commit_info :: "ledger_info_with_signatures \<Rightarrow> block_info" where
  "lis_commit_info l = li_commit_info (lis_ledger_info l)"

definition lis_add_signature ::
    "account_address \<Rightarrow> signature \<Rightarrow> ledger_info_with_signatures \<Rightarrow> ledger_info_with_signatures" where
  "lis_add_signature a sig l = l\<lparr>lis_signatures := btree_or_insert a sig (lis_signatures l)\<rparr>"

definition lis_remove_signature ::
    "account_address \<Rightarrow> ledger_info_with_signatures \<Rightarrow> ledger_info_with_signatures" where
  "lis_remove_signature a l = l\<lparr>lis_signatures := btree_remove a (lis_signatures l)\<rparr>"

definition verify_signatures ::
    "crypto \<Rightarrow> validator_verifier \<Rightarrow> ledger_info_with_signatures \<Rightarrow> (unit, verify_error) result" where
  "verify_signatures C vv l =
     batch_verify_aggregated_signatures C vv (H_LedgerInfo (lis_ledger_info l)) (lis_signatures l)"

definition lis_check_voting_power ::
    "validator_verifier \<Rightarrow> ledger_info_with_signatures \<Rightarrow> (unit, verify_error) result" where
  "lis_check_voting_power vv l = check_voting_power vv (btree_keys (lis_signatures l))"

section \<open>EpochState\<close>

definition epoch_state_empty :: "(epoch_state, anyhow) result" where
  "epoch_state_empty =
     bind_result (validator_verifier_new btree_new) (\<lambda>vv. Ok \<lparr>es_epoch = 0, es_verifier = vv\<rparr>)"

definition es_verify :: "crypto \<Rightarrow> epoch_state \<Rightarrow> ledger_info_with_signatures \<Rightarrow> (unit, anyhow) result" where
  "es_verify C es l =
     bind_result (ensure (es_epoch es = li_epoch (lis_ledger_info l))
        (Msg ''LedgerInfo has unexpected epoch'')) (\<lambda>_.
       map_err From_Verify_Error (verify_signatures C (es_verifier es) l))"

definition es_epoch_change_verification_required :: "epoch_state \<Rightarrow> u64 \<Rightarrow> bool" where
  "es_epoch_change_verification_required es e \<longleftrightarrow> es_epoch es < e"

definition es_is_ledger_info_stale :: "epoch_state \<Rightarrow> ledger_info \<Rightarrow> bool" where
  "es_is_ledger_info_stale es li \<longleftrightarrow> li_epoch li < es_epoch es"

section \<open>Waypoint\<close>

definition l2w_new :: "ledger_info \<Rightarrow> ledger2waypoint_converter" where
  "l2w_new li =
     \<lparr>l2w_epoch = li_epoch li, l2w_root_hash = li_transaction_accumulator_hash li,
      l2w_version = li_version li, l2w_timestamp_usecs = li_timestamp_usecs li,
      l2w_next_epoch_state = li_next_epoch_state li\<rparr>"

definition waypoint_new_any :: "crypto \<Rightarrow> ledger_info \<Rightarrow> waypoint" where
  "waypoint_new_any C li =
     \<lparr>wp_version = li_version li, wp_value = hash_of C (H_Ledger2WaypointConverter (l2w_new li))\<rparr>"

definition waypoint_new_epoch_boundary :: "crypto \<Rightarrow> ledger_info \<Rightarrow> (waypoint, anyhow) result" where
  "waypoint_new_epoch_boundary C li =
     bind_result (ensure (li_ends_epoch li) (Msg ''No validator set'')) (\<lambda>_. Ok (waypoint_new_any C li))"

definition waypoint_verify :: "crypto \<Rightarrow> waypoint \<Rightarrow> ledger_info \<Rightarrow> (unit, anyhow) result" where
  "waypoint_verify C w li =
     bind_result (ensure (li_version li = wp_version w) (Msg ''Waypoint version mismatch'')) (\<lambda>_.
       ensure (hash_of C (H_Ledger2WaypointConverter (l2w_new li)) = wp_value w)
         (Msg ''Waypoint value mismatch''))"

definition wp_is_ledger_info_stale :: "waypoint \<Rightarrow> ledger_info \<Rightarrow> bool" where
  "wp_is_ledger_info_stale w li \<longleftrightarrow> li_version li < wp_version w"

definition wp_epoch_change_verification_required :: "waypoint \<Rightarrow> u64 \<Rightarrow> bool" where
  "wp_epoch_change_verification_required w e \<longleftrightarrow> True"

section \<open>Lemmas\<close>

lemma verify_signatures_Ok_iff:
  assumes "batch_sound C"
  shows "verify_signatures C vv l = Ok () \<longleftrightarrow>
    verify_aggregated_struct_signature C vv (H_LedgerInfo (lis_ledger_info l)) (lis_signatures l) = Ok ()"
  using batch_verify_iff [OF assms] by (simp add: verify_signatures_def)

lemma verify_signatures_quorum:
  assumes "verify_signatures C vv l = Ok ()"
  shows "check_voting_power vv (btree_keys (lis_signatures l)) = Ok ()"
  using assms by (auto simp: verify_signatures_def batch_verify_aggregated_signatures_def ok_simps)

lemma es_verify_Ok_iff [ok_simps]:
  "es_verify C es l = Ok u \<longleftrightarrow>
     es_epoch es = li_epoch (lis_ledger_info l) \<and> verify_signatures C (es_verifier es) l = Ok ()"
  by (simp add: es_verify_def ok_simps)

lemma waypoint_verify_new_any: "waypoint_verify C (waypoint_new_any C li) li = Ok ()"
  by (simp add: waypoint_verify_def waypoint_new_any_def ensure_def)

lemma waypoint_verify_Ok_iff [ok_simps]:
  "waypoint_verify C w li = Ok u \<longleftrightarrow> w = waypoint_new_any C li"
  by (cases w) (auto simp: waypoint_verify_def waypoint_new_any_def ok_simps)

lemma change_timestamp_keeps_match:
  assumes "match_ordered_only b executed" and "change_timestamp executed t = Ok executed'"
  shows "match_ordered_only b executed'"
  using assms by (auto simp: match_ordered_only_def change_timestamp_def allow_timestamp_change_def
      has_reconfiguration_def split: if_splits)

end
