(* ===== verification/Epoch_Change.thy ===== *)
theory Epoch_Change
  imports Ledger_Info
begin

text \<open>
  \<open>types/src/epoch_change.rs\<close> and \<open>types/src/trusted_state.rs\<close>: how a client that trusts a waypoint
  or a validator set follows a chain of epoch changes. The trait \<open>Verifier\<close> is a locale with the
  law its implementations keep (what verifies is not stale), interpreted on the dispatch over the
  three implementors. The lemmas characterise the accepted proofs exactly and show that ratcheting
  a trusted state never moves its version back.
\<close>

section \<open>TransactionAccumulatorSummary\<close>

type_synonym transaction_accumulator_summary = in_memory_accumulator

definition summary_new :: "in_memory_accumulator \<Rightarrow> (transaction_accumulator_summary, anyhow) result" where
  "summary_new acc =
     bind_result (ensure (\<not> accumulator_is_empty acc) (Msg ''empty accumulator'')) (\<lambda>_. Ok acc)"

definition verify_consistency :: "transaction_accumulator_summary \<Rightarrow> ledger_info \<Rightarrow> (unit, anyhow) result" where
  "verify_consistency acc li =
     bind_result (ensure (li_version li = accumulator_version acc)
        (Msg ''ledger info and accumulator must be at the same version'')) (\<lambda>_.
       ensure (li_transaction_accumulator_hash li = acc_root_hash acc)
         (Msg ''ledger info root hash and accumulator root hash must match''))"

definition try_from_genesis_proof ::
    "crypto \<Rightarrow> hash_value list \<Rightarrow> version \<Rightarrow> (transaction_accumulator_summary, anyhow) result" where
  "try_from_genesis_proof C subtrees target =
     accumulator_new (txn_node_hash C) subtrees (saturating_add target 1)"

text \<open>\<open>AccumulatorConsistencyProof\<close> is the list of its subtrees.\<close>

definition try_extend_with_proof ::
    "crypto \<Rightarrow> transaction_accumulator_summary \<Rightarrow> hash_value list \<Rightarrow> ledger_info
     \<Rightarrow> (transaction_accumulator_summary, anyhow) result" where
  "try_extend_with_proof C acc subtrees target_li =
     bind_result (ensure (accumulator_version acc \<le> li_version target_li)
        (Msg ''target ledger info version must be newer than our current accumulator'')) (\<lambda>_.
     bind_result (append_subtrees (txn_node_hash C) acc subtrees
        (li_version target_li - accumulator_version acc)) (\<lambda>new_acc.
     bind_result (map_err (Context ''accumulator is not consistent with the target ledger info'')
        (verify_consistency new_acc target_li)) (\<lambda>_.
       Ok new_acc)))"

section \<open>TrustedState and the Verifier trait\<close>

datatype trusted_state =
    TS_EpochWaypoint waypoint
  | TS_EpochState waypoint epoch_state transaction_accumulator_summary

datatype trusted_state_change =
    Version trusted_state
  | Epoch trusted_state ledger_info_with_signatures
  | NoChange

datatype dyn_verifier =
    Dyn_EpochState epoch_state
  | Dyn_Waypoint waypoint
  | Dyn_TrustedState trusted_state

fun ts_verify :: "crypto \<Rightarrow> trusted_state \<Rightarrow> ledger_info_with_signatures \<Rightarrow> (unit, anyhow) result" where
  "ts_verify C (TS_EpochWaypoint w) l = waypoint_verify C w (lis_ledger_info l)"
| "ts_verify C (TS_EpochState w es acc) l = es_verify C es l"

fun ts_epoch_change_verification_required :: "trusted_state \<Rightarrow> u64 \<Rightarrow> bool" where
  "ts_epoch_change_verification_required (TS_EpochWaypoint w) e = wp_epoch_change_verification_required w e"
| "ts_epoch_change_verification_required (TS_EpochState w es acc) e = es_epoch_change_verification_required es e"

fun ts_is_ledger_info_stale :: "trusted_state \<Rightarrow> ledger_info \<Rightarrow> bool" where
  "ts_is_ledger_info_stale (TS_EpochWaypoint w) li = wp_is_ledger_info_stale w li"
| "ts_is_ledger_info_stale (TS_EpochState w es acc) li = es_is_ledger_info_stale es li"

fun dyn_verify :: "crypto \<Rightarrow> dyn_verifier \<Rightarrow> ledger_info_with_signatures \<Rightarrow> (unit, anyhow) result" where
  "dyn_verify C (Dyn_EpochState es) l = es_verify C es l"
| "dyn_verify C (Dyn_Waypoint w) l = waypoint_verify C w (lis_ledger_info l)"
| "dyn_verify C (Dyn_TrustedState ts) l = ts_verify C ts l"

fun dyn_is_ledger_info_stale :: "dyn_verifier \<Rightarrow> ledger_info \<Rightarrow> bool" where
  "dyn_is_ledger_info_stale (Dyn_EpochState es) li = es_is_ledger_info_stale es li"
| "dyn_is_ledger_info_stale (Dyn_Waypoint w) li = wp_is_ledger_info_stale w li"
| "dyn_is_ledger_info_stale (Dyn_TrustedState ts) li = ts_is_ledger_info_stale ts li"

section \<open>EpochChangeProof\<close>

definition ecp_epoch :: "epoch_change_proof \<Rightarrow> (u64, anyhow) result" where
  "ecp_epoch p = (case ledger_info_with_sigs p of
      [] \<Rightarrow> Err (Msg ''Empty EpochChangeProof'')
    | l # _ \<Rightarrow> Ok (li_epoch (lis_ledger_info l)))"

fun ecp_loop :: "crypto \<Rightarrow> dyn_verifier \<Rightarrow> ledger_info_with_signatures list \<Rightarrow> (unit, anyhow) result" where
  "ecp_loop C v [] = Ok ()"
| "ecp_loop C v (l # ls) =
     bind_result (dyn_verify C v l) (\<lambda>_.
     bind_result (ok_or (Msg ''LedgerInfo does not carry a ValidatorSet'')
        (li_next_epoch_state (lis_ledger_info l))) (\<lambda>es.
       ecp_loop C (Dyn_EpochState es) ls))"

definition ecp_verify ::
    "crypto \<Rightarrow> epoch_change_proof \<Rightarrow> dyn_verifier \<Rightarrow> (ledger_info_with_signatures, anyhow) result" where
  "ecp_verify C p v =
     (let ls = ledger_info_with_sigs p in
      bind_result (ensure (ls \<noteq> []) (Msg ''The EpochChangeProof is empty'')) (\<lambda>_.
      bind_result (ensure (\<not> dyn_is_ledger_info_stale v (lis_ledger_info (last ls)))
        (Msg ''The EpochChangeProof is stale'')) (\<lambda>_.
      bind_result (ecp_loop C v (dropWhile (\<lambda>l. dyn_is_ledger_info_stale v (lis_ledger_info l)) ls)) (\<lambda>_.
        Ok (last ls)))))"

section \<open>Ratcheting a trusted state\<close>

fun ts_waypoint :: "trusted_state \<Rightarrow> waypoint" where
  "ts_waypoint (TS_EpochWaypoint w) = w"
| "ts_waypoint (TS_EpochState w es acc) = w"

definition ts_version :: "trusted_state \<Rightarrow> version" where
  "ts_version ts = wp_version (ts_waypoint ts)"

fun accumulator_summary :: "trusted_state \<Rightarrow> transaction_accumulator_summary option" where
  "accumulator_summary (TS_EpochWaypoint w) = None"
| "accumulator_summary (TS_EpochState w es acc) = Some acc"

definition try_from_epoch_change_li ::
    "crypto \<Rightarrow> ledger_info \<Rightarrow> transaction_accumulator_summary \<Rightarrow> (trusted_state, anyhow) result" where
  "try_from_epoch_change_li C li acc =
     bind_result (verify_consistency acc li) (\<lambda>_.
     bind_result (ok_or (Msg ''No EpochState in LedgerInfo'') (li_next_epoch_state li)) (\<lambda>es.
     bind_result (waypoint_new_epoch_boundary C li) (\<lambda>w.
       Ok (TS_EpochState w es acc))))"

fun current_accumulator ::
    "trusted_state \<Rightarrow> epoch_change_proof \<Rightarrow> transaction_accumulator_summary option
     \<Rightarrow> (transaction_accumulator_summary, anyhow) result" where
  "current_accumulator (TS_EpochWaypoint w) p initial =
     bind_result (expect initial) (\<lambda>acc.
     bind_result (ok_or (Msg ''Empty epoch change proof'')
        (case ledger_info_with_sigs p of [] \<Rightarrow> None | l # _ \<Rightarrow> Some (lis_ledger_info l))) (\<lambda>li.
     bind_result (verify_consistency acc li) (\<lambda>_. Ok acc)))"
| "current_accumulator (TS_EpochState w es acc) p initial = Ok acc"

definition ratchet_epoch ::
    "crypto \<Rightarrow> trusted_state \<Rightarrow> ledger_info_with_signatures \<Rightarrow> epoch_change_proof \<Rightarrow> hash_value list
     \<Rightarrow> transaction_accumulator_summary \<Rightarrow> (trusted_state_change, anyhow) result" where
  "ratchet_epoch C ts latest_li p subtrees acc =
     bind_result (ecp_verify C p (Dyn_TrustedState ts)) (\<lambda>epoch_change_li.
     bind_result (ok_or (Msg ''A valid EpochChangeProof will never return a non-epoch change ledger info'')
        (li_next_epoch_state (lis_ledger_info epoch_change_li))) (\<lambda>new_es.
     bind_result
       (if epoch_change_li = latest_li then Ok latest_li
        else if li_epoch (lis_ledger_info latest_li) = es_epoch new_es
        then bind_result (es_verify C new_es latest_li) (\<lambda>_. Ok latest_li)
        else if es_epoch new_es < li_epoch (lis_ledger_info latest_li) \<and> ecp_more p then Ok epoch_change_li
        else Err (Msg ''Inconsistent epoch change proof and latest ledger info'')) (\<lambda>verified.
     bind_result (try_extend_with_proof C acc subtrees (lis_ledger_info verified)) (\<lambda>new_acc.
       Ok (Epoch (TS_EpochState (waypoint_new_any C (lis_ledger_info verified)) new_es new_acc)
             epoch_change_li)))))"

fun ratchet_version ::
    "crypto \<Rightarrow> trusted_state \<Rightarrow> ledger_info_with_signatures \<Rightarrow> hash_value list
     \<Rightarrow> transaction_accumulator_summary \<Rightarrow> (trusted_state_change, anyhow) result" where
  "ratchet_version C (TS_EpochWaypoint w) latest_li subtrees acc =
     Err (Msg ''EpochWaypoint can only verify an epoch change ledger info'')"
| "ratchet_version C (TS_EpochState w es acc0) latest_li subtrees acc =
     (let new_w = waypoint_new_any C (lis_ledger_info latest_li) in
      if wp_version new_w = wp_version w
      then bind_result (ensure (new_w = w) (Msg ''LedgerInfo does not match verified state''))
             (\<lambda>_. Ok NoChange)
      else bind_result (es_verify C es latest_li) (\<lambda>_.
           bind_result (try_extend_with_proof C acc subtrees (lis_ledger_info latest_li)) (\<lambda>new_acc.
             Ok (Version (TS_EpochState new_w es new_acc)))))"

definition verify_and_ratchet_inner ::
    "crypto \<Rightarrow> trusted_state \<Rightarrow> ledger_info_with_signatures \<Rightarrow> epoch_change_proof \<Rightarrow> hash_value list
     \<Rightarrow> transaction_accumulator_summary option \<Rightarrow> (trusted_state_change, anyhow) result" where
  "verify_and_ratchet_inner C ts latest_li p subtrees initial =
     bind_result (ensure (ts_version ts \<le> li_version (lis_ledger_info latest_li))
        (Msg ''The target latest ledger info version is stale'')) (\<lambda>_.
     bind_result (current_accumulator ts p initial) (\<lambda>acc.
     if ts_epoch_change_verification_required ts (li_next_block_epoch (lis_ledger_info latest_li))
     then ratchet_epoch C ts latest_li p subtrees acc
     else ratchet_version C ts latest_li subtrees acc))"

fun new_state :: "trusted_state_change \<Rightarrow> trusted_state option" where
  "new_state (Version ts) = Some ts"
| "new_state (Epoch ts l) = Some ts"
| "new_state NoChange = None"

section \<open>The contract of a verifier\<close>

locale ledger_info_verifier =
  fixes verify :: "'v \<Rightarrow> ledger_info_with_signatures \<Rightarrow> (unit, anyhow) result"
    and stale :: "'v \<Rightarrow> ledger_info \<Rightarrow> bool"
  assumes verified_not_stale: "verify v l = Ok () \<Longrightarrow> \<not> stale v (lis_ledger_info l)"
begin

text \<open>The stale prefix a proof skips ends before the first ledger info the verifier accepts.\<close>

lemma skip_stale_iff:
  assumes "verify v l = Ok ()"
  shows "dropWhile (\<lambda>l. stale v (lis_ledger_info l)) ls = l # ls' \<longleftrightarrow>
    (\<exists>pre. ls = pre @ l # ls' \<and> (\<forall>x \<in> set pre. stale v (lis_ledger_info x)))"
proof
  assume d: "dropWhile (\<lambda>l. stale v (lis_ledger_info l)) ls = l # ls'"
  show "\<exists>pre. ls = pre @ l # ls' \<and> (\<forall>x \<in> set pre. stale v (lis_ledger_info x))"
    using d takeWhile_dropWhile_id [of "\<lambda>l. stale v (lis_ledger_info l)" ls] set_takeWhileD
    by (metis (mono_tags, lifting))
next
  assume "\<exists>pre. ls = pre @ l # ls' \<and> (\<forall>x \<in> set pre. stale v (lis_ledger_info x))"
  with verified_not_stale [OF assms] show "dropWhile (\<lambda>l. stale v (lis_ledger_info l)) ls = l # ls'"
    by (auto simp: dropWhile_append2)
qed

end

interpretation dyn: ledger_info_verifier "dyn_verify C" dyn_is_ledger_info_stale for C
proof
  fix v l
  assume ok: "dyn_verify C v l = Ok ()"
  show "\<not> dyn_is_ledger_info_stale v (lis_ledger_info l)"
  proof (cases v)
    case (Dyn_TrustedState ts)
    with ok show ?thesis
      by (cases ts) (auto simp: ok_simps es_is_ledger_info_stale_def wp_is_ledger_info_stale_def waypoint_new_any_def)
  qed (use ok in \<open>auto simp: ok_simps es_is_ledger_info_stale_def wp_is_ledger_info_stale_def waypoint_new_any_def\<close>)
qed

section \<open>Accepted proofs\<close>

text \<open>
  A verified chain: the verifier accepts the first ledger info, every ledger info ends its epoch, and
  the validator set each one carries accepts the next one.
\<close>

definition verified_chain :: "crypto \<Rightarrow> dyn_verifier \<Rightarrow> ledger_info_with_signatures list \<Rightarrow> bool" where
  "verified_chain C v ls \<longleftrightarrow>
     (ls \<noteq> [] \<longrightarrow> dyn_verify C v (hd ls) = Ok ()) \<and>
     (\<forall>l \<in> set ls. li_ends_epoch (lis_ledger_info l)) \<and>
     (\<forall>i. Suc i < length ls \<longrightarrow>
        es_verify C (the (li_next_epoch_state (lis_ledger_info (ls ! i)))) (ls ! Suc i) = Ok ())"

lemma all_links_Cons:
  "(\<forall>i. Suc i < length (x # xs) \<longrightarrow> Q i) \<longleftrightarrow>
     (xs \<noteq> [] \<longrightarrow> Q 0) \<and> (\<forall>i. Suc i < length xs \<longrightarrow> Q (Suc i))"
  (is "?L \<longleftrightarrow> ?R")
proof
  assume R: ?R
  show ?L
  proof (intro allI impI)
    fix i
    assume "Suc i < length (x # xs)"
    with R show "Q i" by (cases i) auto
  qed
qed auto

lemma verified_chain_Cons:
  "verified_chain C v (l # ls) \<longleftrightarrow> dyn_verify C v l = Ok () \<and>
     (\<exists>es. li_next_epoch_state (lis_ledger_info l) = Some es \<and> verified_chain C (Dyn_EpochState es) ls)"
  unfolding verified_chain_def all_links_Cons by (auto simp: li_ends_epoch_def hd_conv_nth)

lemma ecp_loop_iff: "ecp_loop C v ls = Ok u \<longleftrightarrow> verified_chain C v ls"
proof (induction ls arbitrary: v)
  case Nil
  then show ?case by (simp add: verified_chain_def)
next
  case (Cons l ls)
  then show ?case by (auto simp: ok_simps verified_chain_Cons)
qed

lemma ecp_verify_Ok_iff:
  "ecp_verify C p v = Ok r \<longleftrightarrow>
     (\<exists>pre suf. ledger_info_with_sigs p = pre @ suf \<and> suf \<noteq> [] \<and>
        (\<forall>x \<in> set pre. dyn_is_ledger_info_stale v (lis_ledger_info x)) \<and>
        verified_chain C v suf \<and> r = last suf \<and> \<not> dyn_is_ledger_info_stale v (lis_ledger_info r))"
  (is "?L \<longleftrightarrow> ?R")
proof
  let ?d = "dropWhile (\<lambda>l. dyn_is_ledger_info_stale v (lis_ledger_info l)) (ledger_info_with_sigs p)"
  assume ?L
  then have ne: "ledger_info_with_sigs p \<noteq> []" and r: "r = last (ledger_info_with_sigs p)"
    and fresh: "\<not> dyn_is_ledger_info_stale v (lis_ledger_info r)" and chain: "verified_chain C v ?d"
    by (auto simp: ecp_verify_def Let_def ok_simps ecp_loop_iff)
  have "?d \<noteq> []" using ne r fresh by (auto simp: dropWhile_eq_Nil_conv)
  then obtain l ls where d: "?d = l # ls" by (cases ?d) auto
  with chain have "dyn_verify C v l = Ok ()" by (simp add: verified_chain_Cons)
  from dyn.skip_stale_iff [THEN iffD1, OF this d] obtain pre where
    "ledger_info_with_sigs p = pre @ l # ls" "\<forall>x \<in> set pre. dyn_is_ledger_info_stale v (lis_ledger_info x)" by auto
  with chain d r fresh show ?R by (intro exI [of _ pre] exI [of _ "l # ls"]) auto
next
  assume ?R
  then obtain pre l ls where p: "ledger_info_with_sigs p = pre @ l # ls"
    and pre: "\<forall>x \<in> set pre. dyn_is_ledger_info_stale v (lis_ledger_info x)"
    and chain: "verified_chain C v (l # ls)" and r: "r = last (l # ls)"
    and fresh: "\<not> dyn_is_ledger_info_stale v (lis_ledger_info r)"
    by (metis neq_Nil_conv)
  then have "dyn_verify C v l = Ok ()" by (simp add: verified_chain_Cons)
  from dyn.skip_stale_iff [THEN iffD2, OF this] p pre
  have "dropWhile (\<lambda>l. dyn_is_ledger_info_stale v (lis_ledger_info l)) (ledger_info_with_sigs p) = l # ls" by blast
  with chain p r fresh show ?L
    by (simp add: ecp_verify_def Let_def ecp_loop_iff ok_simps del: ecp_loop.simps)
qed

section \<open>Ratcheting\<close>

text \<open>A trusted state that carries an accumulator carries it at the version of its waypoint.\<close>

fun ts_inv :: "trusted_state \<Rightarrow> bool" where
  "ts_inv (TS_EpochWaypoint w) \<longleftrightarrow> True"
| "ts_inv (TS_EpochState w es acc) \<longleftrightarrow> wp_version w = accumulator_version acc"

lemma verify_consistency_Ok_iff [ok_simps]:
  "verify_consistency acc li = Ok u \<longleftrightarrow>
     li_version li = accumulator_version acc \<and> li_transaction_accumulator_hash li = acc_root_hash acc"
  by (simp add: verify_consistency_def ok_simps)

lemma try_extend_consistent:
  assumes "try_extend_with_proof C acc subtrees li = Ok acc'"
  shows "li_version li = accumulator_version acc'" and "li_transaction_accumulator_hash li = acc_root_hash acc'"
    and "accumulator_version acc \<le> li_version li"
  using assms by (auto simp: try_extend_with_proof_def ok_simps)

lemma ratchet_epoch_inv:
  assumes run: "ratchet_epoch C ts latest_li p subtrees acc = Ok change"
    and latest: "ts_version ts \<le> li_version (lis_ledger_info latest_li)"
    and acc: "\<And>w es a. ts = TS_EpochState w es a \<Longrightarrow> a = acc" and inv: "ts_inv ts"
  shows "\<exists>ts' li. new_state change = Some ts' \<and> ts_inv ts' \<and> ts_version ts \<le> ts_version ts' \<and>
    ts_waypoint ts' = waypoint_new_any C li \<and>
    map_option acc_root_hash (accumulator_summary ts') = Some (li_transaction_accumulator_hash li)"
proof -
  from run obtain ecl new_es verified new_acc where
    ecl: "ecp_verify C p (Dyn_TrustedState ts) = Ok ecl"
    and ext: "try_extend_with_proof C acc subtrees (lis_ledger_info verified) = Ok new_acc"
    and ch: "change = Epoch (TS_EpochState (waypoint_new_any C (lis_ledger_info verified)) new_es new_acc) ecl"
    and which: "verified = latest_li \<or> verified = ecl"
    by (auto simp: ratchet_epoch_def ok_simps split: if_splits)
  have mono: "ts_version ts \<le> li_version (lis_ledger_info verified)"
  proof (cases ts)
    case (TS_EpochWaypoint w)
    from ecl have "\<not> dyn_is_ledger_info_stale (Dyn_TrustedState ts) (lis_ledger_info ecl)"
      by (auto simp: ecp_verify_Ok_iff)
    with TS_EpochWaypoint which latest show ?thesis
      by (auto simp: wp_is_ledger_info_stale_def ts_version_def)
  next
    case (TS_EpochState w es a)
    with acc inv try_extend_consistent(3) [OF ext] show ?thesis by (simp add: ts_version_def)
  qed
  show ?thesis
    using ch mono try_extend_consistent [OF ext]
    by (intro exI [of _ "TS_EpochState (waypoint_new_any C (lis_ledger_info verified)) new_es new_acc"]
        exI [of _ "lis_ledger_info verified"]) (auto simp: ts_version_def waypoint_new_any_def)
qed

lemma ratchet_version_inv:
  assumes run: "ratchet_version C ts latest_li subtrees acc = Ok change"
    and latest: "ts_version ts \<le> li_version (lis_ledger_info latest_li)"
  shows "change = NoChange \<and> ts_waypoint ts = waypoint_new_any C (lis_ledger_info latest_li) \<or>
    (\<exists>ts' li. new_state change = Some ts' \<and> ts_inv ts' \<and> ts_version ts \<le> ts_version ts' \<and>
      ts_waypoint ts' = waypoint_new_any C li \<and>
      map_option acc_root_hash (accumulator_summary ts') = Some (li_transaction_accumulator_hash li))"
proof (cases ts)
  case (TS_EpochWaypoint w)
  with run show ?thesis by simp
next
  case (TS_EpochState w es a)
  show ?thesis
  proof (cases "li_version (lis_ledger_info latest_li) = wp_version w")
    case True
    with run TS_EpochState show ?thesis by (auto simp: Let_def ok_simps waypoint_new_any_def)
  next
    case False
    with run TS_EpochState obtain new_acc where
      ext: "try_extend_with_proof C acc subtrees (lis_ledger_info latest_li) = Ok new_acc"
      and ch: "change = Version (TS_EpochState (waypoint_new_any C (lis_ledger_info latest_li)) es new_acc)"
      by (auto simp: Let_def ok_simps waypoint_new_any_def)
    show ?thesis
      using ch latest try_extend_consistent [OF ext]
      by (intro disjI2 exI [of _ "TS_EpochState (waypoint_new_any C (lis_ledger_info latest_li)) es new_acc"]
          exI [of _ "lis_ledger_info latest_li"]) (auto simp: ts_version_def waypoint_new_any_def)
  qed
qed

section \<open>Properties\<close>

text \<open>
  C6. \<open>EpochChangeProof::verify\<close> accepts exactly the proofs that consist of ledger infos that are stale
  for the verifier followed by a verified chain: the verifier accepts the first ledger info of the
  chain, each one carries the validator set of the next epoch, and that set has signed the next one
  with a quorum. The result is the end of the chain and is not stale itself.
\<close>

theorem epoch_change_proof_exact:
  "ecp_verify C p v = Ok r \<longleftrightarrow>
     (\<exists>pre suf. ledger_info_with_sigs p = pre @ suf \<and> suf \<noteq> [] \<and>
        list_all (\<lambda>x. dyn_is_ledger_info_stale v (lis_ledger_info x)) pre \<and>
        verified_chain C v suf \<and> r = last suf \<and> \<not> dyn_is_ledger_info_stale v (lis_ledger_info r))"
  unfolding list_all_iff by (rule ecp_verify_Ok_iff)

text \<open>
  C14. Ratcheting a trusted state keeps its invariant (the accumulator is at the version of the
  waypoint and has the root hash the waypoint's ledger info commits to) and never moves the trusted
  version back. When nothing changes, the latest ledger info is the one the state already trusts.
\<close>

theorem trusted_state_ratchet:
  assumes run: "verify_and_ratchet_inner C ts latest_li p subtrees initial = Ok change" and inv: "ts_inv ts"
  shows "case new_state change of
      None \<Rightarrow> ts_waypoint ts = waypoint_new_any C (lis_ledger_info latest_li)
    | Some ts' \<Rightarrow> ts_inv ts' \<and> ts_version ts \<le> ts_version ts' \<and>
        (\<exists>li. ts_waypoint ts' = waypoint_new_any C li \<and>
          map_option acc_root_hash (accumulator_summary ts') = Some (li_transaction_accumulator_hash li))"
proof -
  from run obtain acc where latest: "ts_version ts \<le> li_version (lis_ledger_info latest_li)"
    and acc: "current_accumulator ts p initial = Ok acc"
    and step: "ratchet_epoch C ts latest_li p subtrees acc = Ok change \<or>
      ratchet_version C ts latest_li subtrees acc = Ok change"
    by (auto simp: verify_and_ratchet_inner_def ok_simps split: if_splits)
  have "a = acc" if "ts = TS_EpochState w es a" for w es a using acc that by simp
  with ratchet_epoch_inv [OF _ latest _ inv] ratchet_version_inv [OF _ latest] step
  have "change = NoChange \<and> ts_waypoint ts = waypoint_new_any C (lis_ledger_info latest_li) \<or>
    (\<exists>ts' li. new_state change = Some ts' \<and> ts_inv ts' \<and> ts_version ts \<le> ts_version ts' \<and>
      ts_waypoint ts' = waypoint_new_any C li \<and>
      map_option acc_root_hash (accumulator_summary ts') = Some (li_transaction_accumulator_hash li))"
    by meson
  then show ?thesis by (elim disjE exE conjE) (simp, simp, blast)
qed

theorem trusted_state_ratchet_witness:
  "\<exists>C ts l change. verify_and_ratchet_inner C ts l \<lparr>ledger_info_with_sigs = [], ecp_more = False\<rparr> [6] None = Ok change \<and>
     ts_inv ts \<and> (case new_state change of None \<Rightarrow> False | Some ts' \<Rightarrow> ts_inv ts' \<and> ts_version ts \<le> ts_version ts')"
proof -
  let ?C = "\<lparr>hash_of = (\<lambda>_. 7), verify_struct_signature = (\<lambda>_ _ _. True), batch_verify = (\<lambda>_ _. True),
    sign_message = (\<lambda>_ _. 0), public_key_of = (\<lambda>k. k), txn_node_hash = (\<lambda>l r. 2 * l + r)\<rparr>"
  let ?es = "\<lparr>es_epoch = 0, es_verifier = \<lparr>address_to_validator_info = btree_new,
    quorum_voting_power = 0, total_voting_power = 0\<rparr>\<rparr>"
  let ?acc = "\<lparr>acc_frozen_subtree_roots = [5], acc_num_leaves = 1, acc_root_hash = 5\<rparr>"
  let ?ts = "TS_EpochState \<lparr>wp_version = 0, wp_value = 7\<rparr> ?es ?acc"
  let ?l = "\<lparr>lis_ledger_info = \<lparr>li_commit_info = block_info_new 0 1 0 16 1 0 None, li_consensus_data_hash = 0\<rparr>,
    lis_signatures = btree_new\<rparr>"
  let ?p = "\<lparr>ledger_info_with_sigs = [], ecp_more = False\<rparr>"
  let ?change = "Version (TS_EpochState \<lparr>wp_version = 1, wp_value = 7\<rparr> ?es
    \<lparr>acc_frozen_subtree_roots = [16], acc_num_leaves = 2, acc_root_hash = 16\<rparr>)"
  have es: "es_verify ?C ?es ?l = Ok ()"
    by (simp add: es_verify_def li_defs block_info_new_def verify_signatures_def ensure_def
        batch_verify_aggregated_signatures_def check_num_of_signatures_def btree_len_def check_voting_power_def)
  have bits: "trailing_zeros 1 = 0" "count_ones 2 = 1"
    by (simp_all add: trailing_zeros_def trailing_zeros_nat.simps count_ones_def count_ones_nat.simps)
  have carry: "carry_loop (\<lambda>l r. 2 * l + r) 1 1 [5] 6 = Ok ([], 16, 2)"
    by (simp add: carry_loop.simps [of _ 1 1] carry_loop.simps [of _ 1 2] vec_pop_def)
  have app: "append_subtrees (\<lambda>l r. 2 * l + r) ?acc [6] 1
      = Ok \<lparr>acc_frozen_subtree_roots = [16], acc_num_leaves = 2, acc_root_hash = 16\<rparr>"
    by (simp add: append_subtrees_def max_accumulator_leaves_def ensure_def bits carry accumulator_new_def
        compute_root_hash_def)
  have run: "verify_and_ratchet_inner ?C ?ts ?l ?p [6] None = Ok ?change"
    using es app by (simp add: verify_and_ratchet_inner_def ts_version_def li_defs block_info_new_def ensure_def
        es_epoch_change_verification_required_def bi_next_block_epoch_def waypoint_new_any_def
        try_extend_with_proof_def accumulator_version_def verify_consistency_def)
  have inv: "ts_inv ?ts" by (simp add: accumulator_version_def)
  show ?thesis
    using trusted_state_ratchet [OF run inv] run inv
    by (intro exI [of _ ?C] exI [of _ ?ts] exI [of _ ?l] exI [of _ ?change]) simp
qed

end
