(* ===== verification/Accumulator_Consistency.thy ===== *)
theory Accumulator_Consistency
  imports Merkle_Accumulator_Spec Epoch_Change
begin

unbundle bit_operations_syntax

text \<open>
  Consistency proofs, from the store to the client: the subtrees \<open>get_consistency_proof\<close> reads are the
  ones \<open>append_subtrees\<close> needs to take an accumulator from the smaller number of leaves to the larger.
\<close>

section \<open>Full subtrees of a range of leaves\<close>

text \<open>The full subtrees, as level and index, over \<open>r\<close> leaves from leaf \<open>c\<close> on, the largest first.\<close>

function range_subtrees :: "nat \<Rightarrow> nat \<Rightarrow> (nat \<times> nat) list" where
  "range_subtrees c r =
     (if r = 0 then []
      else let j = bit_length r - 1 in (j, c div 2 ^ j) # range_subtrees (c + 2 ^ j) (r - 2 ^ j))"
  by pat_completeness auto
termination
  by (relation "measure snd") (auto simp: Let_def)

text \<open>The ones that take an accumulator of \<open>c\<close> leaves to one of \<open>c + r\<close>.\<close>

function ext_subtrees :: "nat \<Rightarrow> nat \<Rightarrow> (nat \<times> nat) list" where
  "ext_subtrees c r =
     (if r = 0 then []
      else let j = (if 0 < c \<and> 2 ^ trailing_zeros_nat c \<le> r then trailing_zeros_nat c else bit_length r - 1)
           in (j, c div 2 ^ j) # ext_subtrees (c + 2 ^ j) (r - 2 ^ j))"
  by pat_completeness auto
termination
  by (relation "measure snd") (auto simp: Let_def)

declare range_subtrees.simps [simp del] ext_subtrees.simps [simp del]

definition hashes_at :: "node_hash \<Rightarrow> hash_value list \<Rightarrow> (nat \<times> nat) list \<Rightarrow> hash_value list" where
  "hashes_at H zs = map (\<lambda>(l, k). hash_under H zs l k)"

lemma bit_length_eq: "2 ^ d \<le> n \<Longrightarrow> n < 2 ^ Suc d \<Longrightarrow> bit_length n = Suc d"
  using less_bit_length [of d n] bit_length_le [of n "Suc d"] by simp

lemma exponent_le: "2 ^ j \<le> r \<Longrightarrow> r < 2 ^ t \<Longrightarrow> j \<le> t" for r :: nat
  by (rule less_imp_le, rule power_less_imp_less_exp [of 2], simp, erule (1) le_less_trans)

lemma rest_less: "0 < n \<Longrightarrow> n - 2 ^ (bit_length n - 1) < 2 ^ (bit_length n - 1)"
proof -
  assume "0 < n"
  then have "n < 2 ^ Suc (bit_length n - 1)" using le_pow_bit_length [of n] bit_length_pos [of n] by simp
  then show ?thesis by simp
qed

lemma frozen_range_subtrees:
  assumes "r < 2 ^ d" and "2 ^ d dvd c" and "c + r \<le> length zs"
  shows "frozen H d (take r (drop c zs)) = hashes_at H zs (range_subtrees c r)"
  using assms
proof (induction d arbitrary: c r)
  case 0
  then show ?case by (simp add: range_subtrees.simps hashes_at_def)
next
  case (Suc d)
  have dvd: "2 ^ d dvd c" using Suc.prems(2) by (simp add: dvd_mult_right)
  show ?case
  proof (cases "2 ^ d \<le> r")
    case True
    then have "bit_length r = Suc d" using Suc.prems(1) by (rule bit_length_eq)
    then have step: "range_subtrees c r = (d, c div 2 ^ d) # range_subtrees (c + 2 ^ d) (r - 2 ^ d)"
      using less_le_trans [OF _ True, of 0] by (subst range_subtrees.simps) (simp add: Let_def)
    have "r - 2 ^ d < 2 ^ d" using Suc.prems(1) by simp
    moreover have "2 ^ d dvd c + 2 ^ d" using dvd by simp
    ultimately have "frozen H d (take (r - 2 ^ d) (drop (c + 2 ^ d) zs)) = hashes_at H zs (range_subtrees (c + 2 ^ d) (r - 2 ^ d))"
      using Suc.prems(3) True by (intro Suc.IH) simp_all
    moreover have "take (2 ^ d) (take r (drop c zs)) = leaves_under zs d (c div 2 ^ d)"
      using True dvd by (simp add: leaves_under_def min_def)
    moreover have "drop (2 ^ d) (take r (drop c zs)) = take (r - 2 ^ d) (drop (c + 2 ^ d) zs)"
      by (simp add: drop_take add.commute)
    ultimately show ?thesis
      using True Suc.prems(3) by (simp add: step hashes_at_def hash_under_def)
  next
    case False
    then show ?thesis using Suc dvd by simp
  qed
qed

lemma ext_subtrees_range:
  assumes "r < 2 ^ t" and "2 ^ t dvd c"
  shows "ext_subtrees c r = range_subtrees c r"
  using assms
proof (induction r arbitrary: c t rule: less_induct)
  case (less r)
  show ?case
  proof (cases "r = 0")
    case False
    let ?j = "bit_length r - 1"
    have "r < 2 ^ trailing_zeros_nat c" if "0 < c"
    proof -
      have "(2 :: nat) ^ t \<le> 2 ^ trailing_zeros_nat c"
        using less.prems(2) that by (intro power_increasing) (simp_all add: trailing_zeros_dvd)
      with less.prems(1) show ?thesis by (rule less_le_trans)
    qed
    then have j: "(if 0 < c \<and> 2 ^ trailing_zeros_nat c \<le> r then trailing_zeros_nat c else ?j) = ?j" by auto
    have top: "2 ^ ?j \<le> r" "r - 2 ^ ?j < 2 ^ ?j" using False top_bit_le [of r] rest_less [of r] by simp_all
    have "?j \<le> t" using top(1) less.prems(1) by (rule exponent_le)
    then have "2 ^ ?j dvd c" using less.prems(2) by (rule dvd_trans [OF le_imp_power_dvd])
    then have "2 ^ ?j dvd c + 2 ^ ?j" by simp
    then have "ext_subtrees (c + 2 ^ ?j) (r - 2 ^ ?j) = range_subtrees (c + 2 ^ ?j) (r - 2 ^ ?j)"
      using False top(2) by (intro less.IH [of _ ?j]) simp_all
    then show ?thesis
      using False by (subst ext_subtrees.simps, subst range_subtrees.simps) (simp only: j Let_def if_False)
  qed (simp add: ext_subtrees.simps range_subtrees.simps)
qed

section \<open>The two iterators\<close>

lemma subtree_root:
  assumes "2 ^ j dvd c"
  shows "node j (c div 2 ^ j) = of_nat (2 * c + (2 ^ j - 1))"
proof -
  have "c div 2 ^ j * 2 ^ Suc j = 2 * c" using assms by simp
  then show ?thesis by (simp only: node_of_nat)
qed

lemma from_leaf_index_of_nat: "from_leaf_index (of_nat c) = of_nat (2 * c)"
  by (simp add: from_leaf_index_push push_bit_eq_mult)

lemma of_nat_unat_u64: "(of_nat (unat w) :: u64) = w"
  by simp

lemma fsi_next_node:
  assumes "0 < n" and "n < 2 ^ 64" and "2 ^ (bit_length n - 1) dvd c"
  defines "j \<equiv> bit_length n - 1"
  shows "fsi_next \<lparr>fsi_bitmap = of_nat n, fsi_seen_leaves = of_nat c\<rparr>
    = (Some (node j (c div 2 ^ j)), \<lparr>fsi_bitmap = of_nat (n - 2 ^ j), fsi_seen_leaves = of_nat (c + 2 ^ j)\<rparr>)"
proof -
  have nz: "(of_nat n :: u64) \<noteq> 0" using assms of_nat_u64_pos [of n] by auto
  have un: "unat (of_nat n :: u64) = n" using assms(2) by (simp add: unat_of_nat)
  note top = fsi_top [OF nz, unfolded un, folded j_def]
  have "from_leaf_index (of_nat c) + mask j = node j (c div 2 ^ j)"
    unfolding from_leaf_index_of_nat mask_of_nat of_nat_add [symmetric] using subtree_root assms(3) j_def by simp
  moreover have "of_nat c + (mask j + 1) = (of_nat (c + 2 ^ j) :: u64)" by (simp add: mask_eq_exp_minus_1)
  ultimately show ?thesis
    using nz top(1,2) by (simp add: fsi_next_def Let_def to_inorder_index_def from_inorder_index_def)
qed

lemma fsi_positions_nodes:
  assumes "n < 2 ^ d" and "d \<le> 64" and "2 ^ d dvd c"
  shows "fsi_positions \<lparr>fsi_bitmap = of_nat n, fsi_seen_leaves = of_nat c\<rparr> = map (\<lambda>(l, k). node l k) (range_subtrees c n)"
  using assms
proof (induction n arbitrary: c d rule: less_induct)
  case (less n)
  show ?case
  proof (cases "n = 0")
    case True
    then show ?thesis by (simp add: fsi_positions.simps fsi_next_def range_subtrees.simps)
  next
    case False
    let ?j = "bit_length n - 1"
    have "(2 :: nat) ^ d \<le> 2 ^ 64" using less.prems(2) by (intro power_increasing) simp_all
    with less.prems(1) have n: "0 < n" "n < 2 ^ 64" using False by simp_all
    have j: "?j \<le> d" using top_bit_le [OF n(1)] less.prems(1) by (rule exponent_le)
    then have dvd: "2 ^ ?j dvd c" using less.prems(3) by (rule dvd_trans [OF le_imp_power_dvd])
    have "fsi_positions \<lparr>fsi_bitmap = of_nat (n - 2 ^ ?j), fsi_seen_leaves = of_nat (c + 2 ^ ?j)\<rparr>
        = map (\<lambda>(l, k). node l k) (range_subtrees (c + 2 ^ ?j) (n - 2 ^ ?j))"
      using dvd rest_less [OF n(1)] n(1) j less.prems(2) by (intro less.IH [of _ ?j]) simp_all
    then show ?thesis
      using n(1) fsi_next_node [OF n dvd]
      by (subst fsi_positions.simps, subst range_subtrees.simps) (simp add: Let_def del: of_nat_diff of_nat_add)
  qed
qed

lemma trailing_zeros_of_nat: "0 < c \<Longrightarrow> c < 2 ^ 64 \<Longrightarrow> trailing_zeros (of_nat c) = trailing_zeros_nat c"
  using of_nat_u64_pos [of c] by (auto simp: trailing_zeros_def unat_of_nat)

definition ext_level :: "nat \<Rightarrow> nat \<Rightarrow> nat" where
  "ext_level c r = (if 0 < c \<and> 2 ^ trailing_zeros_nat c \<le> r then trailing_zeros_nat c else bit_length r - 1)"

lemma ext_level_bounds:
  assumes "0 < r"
  shows "2 ^ ext_level c r \<le> r" and "2 ^ ext_level c r dvd c"
proof -
  note top = top_bit_le [OF assms]
  show "2 ^ ext_level c r \<le> r" using top by (simp add: ext_level_def)
  show "2 ^ ext_level c r dvd c"
  proof (cases "0 < c")
    case True
    have "bit_length r - 1 \<le> trailing_zeros_nat c" if "r < 2 ^ trailing_zeros_nat c" using top that by (rule exponent_le)
    with True show ?thesis by (auto simp: ext_level_def not_le simp flip: trailing_zeros_dvd)
  qed simp
qed

lemma fss_batch_of_nat:
  assumes "c + r \<le> 2 ^ 63" and "0 < r"
  shows "fss_batch \<lparr>fss_current_num_leaves = of_nat c, fss_remaining_new_leaves = of_nat r\<rparr> = of_nat (2 ^ ext_level c r)"
  (is "fss_batch ?it = _")
proof -
  have c: "c < 2 ^ 64" and r: "r < 2 ^ 64" and nz: "(of_nat r :: u64) \<noteq> 0"
    using assms of_nat_u64_pos [of r] by auto
  have ur: "unat (of_nat r :: u64) = r" using r by (simp add: unat_of_nat)
  have "unat (next_new_leaf_batch ?it) = 2 ^ (bit_length r - 1)"
    using next_batch [OF nz] unfolding ur by (simp add: next_new_leaf_batch_def)
  then have batch: "next_new_leaf_batch ?it = of_nat (2 ^ (bit_length r - 1))" by (metis of_nat_unat_u64)
  show ?thesis
  proof (cases "0 < c")
    case True
    have "2 ^ trailing_zeros_nat c dvd c" using trailing_zeros_dvd [OF True] by blast
    then have "2 ^ trailing_zeros_nat c < (2 :: nat) ^ 64" using dvd_imp_le True c by (metis le_less_trans)
    then have tz: "trailing_zeros_nat c < 64" by (rule power_less_imp_less_exp [rotated]) simp
    have "shl 1 (trailing_zeros (of_nat c)) = (of_nat (2 ^ trailing_zeros_nat c) :: u64)"
      using tz True c by (simp add: trailing_zeros_of_nat shl_def)
    moreover have "(of_nat (2 ^ trailing_zeros_nat c) :: u64) \<le> of_nat r \<longleftrightarrow> 2 ^ trailing_zeros_nat c \<le> r"
      using unat_push_bit_1 [OF tz] ur by (simp add: word_le_nat_alt)
    ultimately show ?thesis
      using True batch of_nat_u64_pos [OF True c] by (simp add: fss_batch_def ext_level_def Let_def)
  next
    case False
    then show ?thesis using batch by (simp add: fss_batch_def ext_level_def)
  qed
qed

lemma fss_positions_nodes:
  assumes "c + r \<le> 2 ^ 63"
  shows "fss_positions \<lparr>fss_current_num_leaves = of_nat c, fss_remaining_new_leaves = of_nat r\<rparr>
    = map (\<lambda>(l, k). node l k) (ext_subtrees c r)"
  using assms
proof (induction r arbitrary: c rule: less_induct)
  case (less r)
  show ?case
  proof (cases "r = 0")
    case True
    then show ?thesis by (simp add: fss_positions.simps fss_next_def ext_subtrees.simps)
  next
    case False
    let ?j = "ext_level c r"
    have r: "0 < r" using False by simp
    note j = ext_level_bounds [OF r, of c]
    have "(of_nat r :: u64) \<noteq> 0" using r less.prems of_nat_u64_pos [of r] by simp
    moreover have "of_nat r - of_nat (2 ^ ?j) = (of_nat (r - 2 ^ ?j) :: u64)" using j(1) by (simp only: of_nat_diff)
    moreover have "of_nat c + (of_nat c + of_nat (2 ^ ?j) - 1) = (of_nat (2 * c + (2 ^ ?j - 1)) :: u64)"
      by (cases "(2 :: nat) ^ ?j") (simp_all only: of_nat_Suc diff_Suc_1, simp_all)
    ultimately have "fss_next \<lparr>fss_current_num_leaves = of_nat c, fss_remaining_new_leaves = of_nat r\<rparr>
        = (Some (node ?j (c div 2 ^ ?j)), \<lparr>fss_current_num_leaves = of_nat (c + 2 ^ ?j), fss_remaining_new_leaves = of_nat (r - 2 ^ ?j)\<rparr>)"
      using fss_batch_of_nat [OF less.prems r] subtree_root [OF j(2)] by (simp add: fss_next_batch del: of_nat_diff)
    moreover have "fss_positions \<lparr>fss_current_num_leaves = of_nat (c + 2 ^ ?j), fss_remaining_new_leaves = of_nat (r - 2 ^ ?j)\<rparr>
        = map (\<lambda>(l, k). node l k) (ext_subtrees (c + 2 ^ ?j) (r - 2 ^ ?j))"
      using j(1) less.prems r by (intro less.IH) simp_all
    ultimately show ?thesis
      using r by (subst fss_positions.simps, subst ext_subtrees.simps)
        (simp add: Let_def ext_level_def [symmetric] del: of_nat_diff of_nat_add)
  qed
qed

section \<open>Appending the subtrees\<close>

lemma leaves_under_take: "Suc k * 2 ^ l \<le> c \<Longrightarrow> leaves_under (take c zs) l k = leaves_under zs l k"
  by (auto simp: leaves_under_def drop_take min_def)

lemma take_split: "take (Suc k * 2 ^ l) zs = take (k * 2 ^ l) zs @ leaves_under zs l k"
  by (simp only: leaves_under_def take_add [symmetric] mult_Suc add.commute)

lemma frozen_extend:
  assumes "even k" and "Suc k * 2 ^ l \<le> length zs" and "length zs \<le> 2 ^ 63"
  shows "frozen H 64 (take (Suc k * 2 ^ l) zs) = frozen H 64 (take (k * 2 ^ l) zs) @ [hash_under H zs l k]"
proof -
  have "k * 2 ^ l \<le> Suc k * 2 ^ l" by simp
  then have len: "k * 2 ^ l \<le> length zs" using assms(2) by (rule le_trans)
  have "2 ^ Suc l dvd length (take (k * 2 ^ l) zs)" using assms(1) len by (auto simp: min_absorb2 mult_dvd_mono)
  moreover have "2 ^ l \<le> length zs - k * 2 ^ l" using assms(2) by simp
  then have "length (leaves_under zs l k) = 2 ^ l" by (simp add: leaves_under_def)
  moreover have "length (take (k * 2 ^ l) zs @ leaves_under zs l k) < 2 ^ 64"
    unfolding take_split [symmetric] using assms(3) by simp
  ultimately show ?thesis unfolding take_split hash_under_def by (rule frozen_lowest)
qed

lemma bit_test_u64: "c < 2 ^ 64 \<Longrightarrow> l < 64 \<Longrightarrow> (of_nat c :: u64) AND push_bit l 1 \<noteq> 0 \<longleftrightarrow> odd (c div 2 ^ l)"
proof -
  assume "c < 2 ^ 64" "l < 64"
  then have "bit ((of_nat c :: u64) AND push_bit l 1) i \<longleftrightarrow> i = l \<and> bit c l" for i
    by (cases i l rule: linorder_cases) (auto simp only: bit_u64_simps)
  then have "(of_nat c :: u64) AND push_bit l 1 \<noteq> 0 \<longleftrightarrow> bit c l" unfolding u64_eq_0_iff by blast
  then show ?thesis by (simp add: bit_iff_odd)
qed

lemma carry_loop_frozen:
  assumes "e \<le> length zs" and "length zs \<le> 2 ^ 63" and "c < e" and "Suc (c div 2 ^ l) * 2 ^ l = e"
  shows "\<exists>roots cur j k. carry_loop H (of_nat c) (push_bit l 1) (frozen H 64 (take (c div 2 ^ l * 2 ^ l) zs))
        (hash_under H zs l (c div 2 ^ l)) = Ok (roots, cur, push_bit j 1)
      \<and> roots @ [cur] = frozen H 64 (take e zs) \<and> even k \<and> e = Suc k * 2 ^ j"
  using assms(4)
proof (induction "c div 2 ^ l" arbitrary: l rule: less_induct)
  case less
  let ?k = "c div 2 ^ l"
  have "2 ^ l \<le> Suc ?k * 2 ^ l" by simp
  also have "\<dots> \<le> 2 ^ 63" using less.prems assms(1,2) by simp
  finally have "l \<le> 63" by (rule power_le_imp_le_exp [rotated]) simp
  then have l: "l < 64" by simp
  have "c < 2 ^ 64" using assms(1-3) by simp
  note test = bit_test_u64 [OF this l]
  show ?case
  proof (cases "even ?k")
    case True
    then show ?thesis
      using test frozen_extend [OF True, of l zs H] less.prems assms(1,2)
      by (subst carry_loop.simps) (auto simp del: mult_Suc)
  next
    case False
    define q where "q = c div 2 ^ Suc l"
    have "q = ?k div 2" by (simp only: q_def power_Suc2 div_mult2_eq)
    then have k: "?k = Suc (2 * q)" using False by simp
    have e: "Suc q * 2 ^ Suc l = e" using less.prems k by simp
    have "Suc (2 * q) * 2 ^ l \<le> length zs" using e assms(1) by simp
    then have pop: "frozen H 64 (take (?k * 2 ^ l) zs) = frozen H 64 (take (q * 2 ^ Suc l) zs) @ [hash_under H zs l (2 * q)]"
      using frozen_extend [of "2 * q" l zs H] assms(2) unfolding k by (simp add: mult.assoc mult.left_commute)
    have "q * 2 ^ Suc l < Suc q * 2 ^ Suc l" by simp
    then have "q * 2 ^ Suc l < length zs" using assms(1) unfolding e by (rule less_le_trans)
    then have hash: "H (hash_under H zs l (2 * q)) (hash_under H zs l ?k) = hash_under H zs (Suc l) q"
      unfolding k by (rule hash_under_Suc [symmetric])
    have "q < ?k" using k by simp
    from less.hyps [of "Suc l", folded q_def, OF this e] show ?thesis
      using False test pop hash
      by (subst carry_loop.simps) (simp add: vec_pop_def push_bit_double del: mult_Suc power_Suc flip: power_Suc2)
  qed
qed

lemma ext_subtrees_carry:
  assumes "0 < c" and "2 ^ trailing_zeros_nat c \<le> r"
  shows "ext_subtrees c r = (trailing_zeros_nat c, c div 2 ^ trailing_zeros_nat c)
    # ext_subtrees (c + 2 ^ trailing_zeros_nat c) (r - 2 ^ trailing_zeros_nat c)"
  using assms less_le_trans [OF _ assms(2), of 0] by (subst ext_subtrees.simps) (simp add: Let_def)

lemma frozen_append_range:
  assumes "r < 2 ^ t" and "2 ^ t dvd c" and "c + r \<le> length zs" and "length zs \<le> 2 ^ 63"
  shows "frozen H 64 (take (c + r) zs) = frozen H 64 (take c zs) @ hashes_at H zs (range_subtrees c r)"
  using assms(1-3)
proof (induction r arbitrary: c t rule: less_induct)
  case (less r)
  show ?case
  proof (cases "r = 0")
    case False
    let ?j = "bit_length r - 1"
    let ?k = "c div 2 ^ ?j"
    have r: "0 < r" using False by simp
    have "(2 :: nat) ^ ?j < 2 ^ t" using top_bit_le [OF r] less.prems(1) by (rule le_less_trans)
    then have "?j < t" by (rule power_less_imp_less_exp [rotated]) simp
    then have "Suc ?j \<le> t" by simp
    then have "2 ^ Suc ?j dvd c" using less.prems(2) by (rule dvd_trans [OF le_imp_power_dvd])
    then obtain m where "c = 2 ^ Suc ?j * m" by (rule dvdE)
    then have "c = 2 * m * 2 ^ ?j" by simp
    then have k: "even ?k" and c: "?k * 2 ^ ?j = c" by simp_all
    have e: "Suc ?k * 2 ^ ?j = c + 2 ^ ?j" unfolding mult_Suc c by simp
    have "c + 2 ^ ?j \<le> length zs" using top_bit_le [OF r] less.prems(3) by linarith
    then have ext: "frozen H 64 (take (c + 2 ^ ?j) zs) = frozen H 64 (take c zs) @ [hash_under H zs ?j ?k]"
      using frozen_extend [OF k, of ?j zs H] assms(4) unfolding e c by blast
    have "2 ^ ?j dvd c + 2 ^ ?j" unfolding e [symmetric] by simp
    then have "frozen H 64 (take (c + 2 ^ ?j + (r - 2 ^ ?j)) zs)
        = frozen H 64 (take (c + 2 ^ ?j) zs) @ hashes_at H zs (range_subtrees (c + 2 ^ ?j) (r - 2 ^ ?j))"
      using rest_less [OF r] r less.prems(3) top_bit_le [OF r] by (intro less.IH [of _ ?j]) simp_all
    moreover have "c + 2 ^ ?j + (r - 2 ^ ?j) = c + r" using top_bit_le [OF r] by simp
    ultimately show ?thesis
      using r ext by (subst range_subtrees.simps) (simp add: Let_def hashes_at_def)
  qed (simp add: range_subtrees.simps hashes_at_def)
qed

lemma subtrees_loop_stop: "\<not> sz \<le> remaining \<Longrightarrow> subtrees_loop H roots n remaining sz it = Ok (roots, n, remaining, it)"
  by (cases it) simp_all

lemma subtrees_loop_frozen:
  assumes "0 < c" and "c + r \<le> length zs" and "length zs \<le> 2 ^ 63"
  shows "\<exists>roots n rem it. subtrees_loop H (frozen H 64 (take c zs)) (of_nat c) (of_nat r)
        (push_bit (trailing_zeros_nat c) 1) (hashes_at H zs (ext_subtrees c r)) = Ok (roots, of_nat n, of_nat rem, it)
      \<and> roots @ it = frozen H 64 (take (c + r) zs) \<and> n + rem = c + r"
  using assms(1,2)
proof (induction r arbitrary: c rule: less_induct)
  case (less r)
  define t where "t = trailing_zeros_nat c"
  have t: "odd (c div 2 ^ t)" "c = c div 2 ^ t * 2 ^ t" using trailing_zeros_nat_split [OF less.prems(1)] by (simp_all add: t_def)
  have le: "(push_bit t 1 \<le> (of_nat r :: u64)) \<longleftrightarrow> 2 ^ t \<le> r"
  proof -
    have "2 ^ t \<le> c" using t less.prems(1) by (metis dvd_imp_le dvd_triv_right)
    moreover have "c < 2 ^ 64" "r < 2 ^ 64" using less.prems(2) assms(3) by simp_all
    ultimately have "t < 64" by (metis le_less_trans power_less_imp_less_exp one_less_numeral_iff semiring_norm(76))
    from unat_push_bit_1 [OF this] \<open>r < 2 ^ 64\<close> show ?thesis
      unfolding word_le_nat_alt by (simp add: unat_of_nat)
  qed
  show ?case
  proof (cases "2 ^ t \<le> r")
    case True
    let ?e = "c + 2 ^ t"
    have "Suc (c div 2 ^ t) * 2 ^ t = ?e" using t(2) by simp
    from carry_loop_frozen [OF _ assms(3) _ this, of H] True less.prems t(2)
    obtain roots cur j k where carry: "carry_loop H (of_nat c) (push_bit t 1) (frozen H 64 (take c zs))
        (hash_under H zs t (c div 2 ^ t)) = Ok (roots, cur, push_bit j 1)"
      and roots: "roots @ [cur] = frozen H 64 (take ?e zs)" and e: "even k" "?e = Suc k * 2 ^ j" by auto
    have "trailing_zeros_nat ?e = j" unfolding e(2) using e(1) by (intro trailing_zeros_nat_odd) simp
    moreover have "r - 2 ^ t < r" using less_le_trans [OF _ True, of 0] by simp
    moreover have "of_nat r - push_bit t 1 = (of_nat (r - 2 ^ t) :: u64)" using True by (simp add: of_nat_diff)
    ultimately show ?thesis
      using less.IH [of "r - 2 ^ t" ?e] less.prems True carry roots le ext_subtrees_carry [OF less.prems(1), of r]
      by (simp add: hashes_at_def t_def [symmetric] add.commute)
  next
    case False
    then have "r < 2 ^ t" "2 ^ t dvd c" using t(2) by (simp_all add: not_le) (metis dvd_triv_right)
    note frozen_append_range [OF this less.prems(2) assms(3), of H] ext_subtrees_range [OF this]
    moreover have "\<not> push_bit t 1 \<le> (of_nat r :: u64)" using False le by blast
    ultimately show ?thesis
      using subtrees_loop_stop [of "push_bit t 1" "of_nat r" H "frozen H 64 (take c zs)" "of_nat c"
          "hashes_at H zs (ext_subtrees c r)"] unfolding t_def [symmetric] by force
  qed
qed

lemma of_nat_mono_u64: "a \<le> b \<Longrightarrow> b < 2 ^ 64 \<Longrightarrow> (of_nat a :: u64) \<le> of_nat b"
  by (simp add: word_le_nat_alt unat_of_nat)

lemma append_subtrees_represents:
  assumes "represents H acc (take c zs)" and "c \<le> length zs" and "length zs \<le> 2 ^ 63"
  shows "\<exists>acc'. append_subtrees H acc (hashes_at H zs (ext_subtrees c (length zs - c))) (of_nat (length zs - c)) = Ok acc'
    \<and> represents H acc' zs"
proof -
  let ?r = "length zs - c"
  have acc: "acc_num_leaves acc = of_nat c" "acc_frozen_subtree_roots acc = frozen H 64 (take c zs)"
    using assms(1,2) by (simp_all add: represents_def min_def)
  have len: "length zs < 2 ^ 64" using assms(3) by simp
  have "max_accumulator_leaves - of_nat c = of_nat (2 ^ 63 - c)"
    using assms(2,3) by (simp add: max_accumulator_leaves_def of_nat_diff)
  then have cap: "of_nat ?r \<le> max_accumulator_leaves - of_nat c"
    using assms(2,3) by (simp only:) (rule of_nat_mono_u64, simp_all)
  obtain acc' where new: "accumulator_new H (frozen H 64 zs) (of_nat (length zs)) = Ok acc'" "represents H acc' zs"
    using accumulator_new_frozen [OF len] by blast
  show ?thesis
  proof (cases "0 < c")
    case True
    from subtrees_loop_frozen [OF True, of ?r zs H] assms(2,3) obtain roots n rem it where
      loop: "subtrees_loop H (frozen H 64 (take c zs)) (of_nat c) (of_nat ?r) (push_bit (trailing_zeros_nat c) 1)
        (hashes_at H zs (ext_subtrees c ?r)) = Ok (roots, of_nat n, of_nat rem, it)"
      and it: "roots @ it = frozen H 64 zs" "n + rem = length zs" by auto
    have "c < 2 ^ 64" using assms(2) len by (rule le_less_trans)
    then show ?thesis
      using True loop it new cap of_nat_u64_pos [OF True]
      by (auto simp: append_subtrees_def ensure_def acc trailing_zeros_of_nat simp del: of_nat_diff simp flip: of_nat_add)
  next
    case False
    have "hashes_at H zs (ext_subtrees 0 (length zs)) = frozen H 64 zs"
      using frozen_range_subtrees [OF len, of 0 zs H] ext_subtrees_range [OF len, of 0] by simp
    then show ?thesis
      using False new cap by (simp add: append_subtrees_def ensure_def acc)
  qed
qed

lemma ext_subtrees_bound: "(l, k) \<in> set (ext_subtrees c r) \<Longrightarrow> Suc k * 2 ^ l \<le> c + r"
proof (induction r arbitrary: c rule: less_induct)
  case (less r)
  then have r: "0 < r" by (auto simp: ext_subtrees.simps split: if_splits)
  let ?j = "ext_level c r"
  note j = ext_level_bounds [OF r, of c]
  have step: "ext_subtrees c r = (?j, c div 2 ^ ?j) # ext_subtrees (c + 2 ^ ?j) (r - 2 ^ ?j)"
    using r by (subst ext_subtrees.simps) (simp add: Let_def ext_level_def)
  have "Suc (c div 2 ^ ?j) * 2 ^ ?j = c + 2 ^ ?j" using j(2) by simp
  moreover have "Suc k * 2 ^ l \<le> c + 2 ^ ?j + (r - 2 ^ ?j)" if "(l, k) \<in> set (ext_subtrees (c + 2 ^ ?j) (r - 2 ^ ?j))"
    using less.IH [OF _ that] r by simp
  ultimately show ?case using less.prems j(1) unfolding step by auto
qed

lemma collect_reads:
  assumes "stores H reader zs" and "\<And>l k. (l, k) \<in> set ps \<Longrightarrow> Suc k * 2 ^ l \<le> length zs"
  shows "collect_results (map reader (map (\<lambda>(l, k). node l k) ps)) = Ok (hashes_at H zs ps)"
  unfolding map_map hashes_at_def
  by (rule collect_results_map) (use assms storesD in \<open>auto simp del: mult_Suc\<close>)

lemma get_consistency_proof_eq:
  assumes "stores H reader zs" and "c \<le> length zs"
  shows "get_consistency_proof reader (of_nat (length zs)) (of_nat c)
    = Ok (hashes_at H zs (ext_subtrees c (length zs - c)))"
proof -
  have len: "length zs \<le> 2 ^ 63" by (rule length_stores [OF assms(1)])
  then have le: "(of_nat c :: u64) \<le> of_nat (length zs)" using assms(2) by (intro of_nat_mono_u64) simp_all
  have cap: "of_nat (length zs) \<le> max_accumulator_leaves"
    using of_nat_mono_u64 [OF len] by (simp add: max_accumulator_leaves_def)
  have "of_nat (length zs) - of_nat c = (of_nat (length zs - c) :: u64)" using assms(2) by (simp only: of_nat_diff)
  moreover have "c + (length zs - c) \<le> 2 ^ 63" using assms(2) len by simp
  moreover have "collect_results (map reader (map (\<lambda>(l, k). node l k) (ext_subtrees c (length zs - c))))
      = Ok (hashes_at H zs (ext_subtrees c (length zs - c)))"
    using assms(2) by (intro collect_reads [OF assms(1)]) (auto dest!: ext_subtrees_bound)
  ultimately show ?thesis
    using le cap by (simp add: get_consistency_proof_def ensure_def fss_new_def fss_positions_nodes del: of_nat_diff)
qed

lemma get_frozen_subtree_hashes_eq:
  assumes "stores H reader zs"
  shows "get_frozen_subtree_hashes reader (of_nat (length zs)) = Ok (frozen H 64 zs)"
proof -
  have len: "length zs < 2 ^ 64" using length_stores [OF assms] by simp
  have range: "range_subtrees 0 (length zs) = ext_subtrees 0 (length zs)" using ext_subtrees_range [OF len, of 0] by simp
  have "hashes_at H zs (range_subtrees 0 (length zs)) = frozen H 64 zs"
    using frozen_range_subtrees [OF len, of 0 zs H] by simp
  moreover have "fsi_positions (fsi_new (of_nat (length zs))) = map (\<lambda>(l, k). node l k) (range_subtrees 0 (length zs))"
    using fsi_positions_nodes [OF len, of 0] by (simp add: fsi_new_def)
  moreover have "collect_results (map reader (map (\<lambda>(l, k). node l k) (range_subtrees 0 (length zs))))
      = Ok (hashes_at H zs (range_subtrees 0 (length zs)))"
    unfolding range by (intro collect_reads [OF assms]) (auto dest!: ext_subtrees_bound)
  ultimately show ?thesis by (simp add: get_frozen_subtree_hashes_def)
qed

section \<open>Properties\<close>

text \<open>
  C13. A client follows an honest server: if the server's store holds the leaves \<open>xs @ ys\<close> and the
  client's accumulator summarises the prefix \<open>xs\<close>, then the consistency proof the server reads takes
  the client's accumulator to the server's, and \<open>try_extend_with_proof\<close> accepts it for the ledger info
  that commits to those leaves. From nothing, the proof for zero leaves gives the same accumulator.
\<close>

theorem consistency_proof_accepted:
  fixes C reader xs ys li
  defines "H \<equiv> txn_node_hash C" and "zs \<equiv> xs @ ys"
  assumes "stores H reader zs" and "represents H acc xs" and "xs \<noteq> []"
    and "li_version li = of_nat (length zs) - 1" and "li_transaction_accumulator_hash li = merkle_root H zs"
  shows "\<exists>subtrees genesis acc'.
      get_consistency_proof reader (of_nat (length zs)) (of_nat (length xs)) = Ok subtrees
    \<and> try_extend_with_proof C acc subtrees li = Ok acc'
    \<and> get_consistency_proof reader (of_nat (length zs)) 0 = Ok genesis
    \<and> try_from_genesis_proof C genesis (li_version li) = Ok acc' \<and> represents H acc' zs"
proof -
  let ?n = "length zs" and ?c = "length xs"
  let ?subs = "hashes_at H zs (ext_subtrees ?c (?n - ?c))" and ?gen = "hashes_at H zs (ext_subtrees 0 ?n)"
  have len: "?n \<le> 2 ^ 63" by (rule length_stores [OF assms(3)])
  have c: "0 < ?c" "?c \<le> ?n" "take ?c zs = xs" using assms(5) by (simp_all add: zs_def)
  from append_subtrees_represents [of H acc ?c zs] assms(4) c len obtain acc' where
    app: "append_subtrees H acc ?subs (of_nat (?n - ?c)) = Ok acc'" and rep: "represents H acc' zs" by auto
  have ver: "accumulator_version a = of_nat (length ls - 1)" if "represents H a ls" "ls \<noteq> []" "length ls \<le> 2 ^ 63" for a ls
    using that of_nat_u64_pos [of "length ls"] of_nat_pred [of "length ls"]
    by (auto simp: accumulator_version_def represents_def simp del: of_nat_diff)
  have nz: "zs \<noteq> []" using assms(5) by (simp add: zs_def)
  have va: "accumulator_version acc = of_nat (?c - 1)" using c(2) len by (intro ver [OF assms(4,5)]) (rule le_trans)
  have va': "accumulator_version acc' = of_nat (?n - 1)" by (rule ver [OF rep nz len])
  have vl: "li_version li = of_nat (?n - 1)" using nz unfolding assms(6) by (intro of_nat_pred) simp
  have "of_nat (?n - 1) - of_nat (?c - 1) = (of_nat (?n - ?c) :: u64)"
    using c by (simp only: of_nat_diff [symmetric]) simp
  moreover have "(of_nat (?c - 1) :: u64) \<le> of_nat (?n - 1)" using c len by (intro of_nat_mono_u64) simp_all
  ultimately have ext: "try_extend_with_proof C acc ?subs li = Ok acc'"
    using app rep assms(7) unfolding H_def
    by (simp add: try_extend_with_proof_def ensure_def va va' vl verify_consistency_def represents_def del: of_nat_diff)
  have n: "?n < 2 ^ 64" using len by simp
  have "?gen = frozen H 64 zs"
    using frozen_range_subtrees [OF n, of 0 zs H] ext_subtrees_range [OF n, of 0] by simp
  moreover have "saturating_add (li_version li) 1 = of_nat ?n"
  proof -
    obtain m where m: "?n = Suc m" using nz by (cases zs) simp_all
    then have "unat (of_nat m :: u64) = m" using n by (simp add: unat_of_nat)
    then show ?thesis using m n by (simp add: vl saturating_add_def add.commute)
  qed
  moreover have "accumulator_new H (frozen H 64 zs) (of_nat ?n) = Ok acc'"
    using accumulator_new_represented [OF rep] rep by (simp add: represents_def)
  ultimately have gen: "try_from_genesis_proof C ?gen (li_version li) = Ok acc'"
    unfolding H_def by (simp add: try_from_genesis_proof_def)
  show ?thesis
    using get_consistency_proof_eq [OF assms(3) c(2)] get_consistency_proof_eq [OF assms(3), of 0] ext gen rep by auto
qed

theorem consistency_proof_accepted_witness:
  "\<exists>C reader acc acc' subtrees. represents (txn_node_hash C) acc [5]
     \<and> get_consistency_proof reader 3 1 = Ok subtrees
     \<and> try_extend_with_proof C acc subtrees
          \<lparr>li_commit_info = block_info_new 0 1 0 (merkle_root (\<lambda>l r. 2 * l + r) [5, 6, 7]) 2 0 None, li_consensus_data_hash = 0\<rparr> = Ok acc'
     \<and> represents (txn_node_hash C) acc' [5, 6, 7]"
proof -
  let ?H = "\<lambda>l r. 2 * l + r :: hash_value"
  let ?C = "\<lparr>hash_of = (\<lambda>_. 7), verify_struct_signature = (\<lambda>_ _ _. True), batch_verify = (\<lambda>_ _. True),
    sign_message = (\<lambda>_ _. 0), public_key_of = (\<lambda>k. k), txn_node_hash = ?H\<rparr>"
  let ?li = "\<lparr>li_commit_info = block_info_new 0 1 0 (merkle_root ?H [5, 6, 7]) 2 0 None, li_consensus_data_hash = 0\<rparr>"
  have H: "txn_node_hash ?C = ?H" by simp
  have "stores ?H (\<lambda>_. Panic) []" by (simp add: stores_def)
  from stores_write_nodes [OF this, of "[5, 6, 7]"] obtain reader where "stores ?H reader [5, 6, 7]" by auto
  then have store: "stores (txn_node_hash ?C) reader ([5] @ [6, 7])" by simp
  obtain acc where acc: "represents (txn_node_hash ?C) acc [5]"
    using accumulator_new_frozen [of "[5]" "txn_node_hash ?C"] by auto
  have li: "li_version ?li = of_nat (length ([5] @ [6, 7 :: hash_value])) - 1"
    "li_transaction_accumulator_hash ?li = merkle_root (txn_node_hash ?C) ([5] @ [6, 7])"
    by (simp_all add: li_defs block_info_new_def)
  from consistency_proof_accepted [OF store acc _ li] obtain subtrees acc' where
    "get_consistency_proof reader 3 1 = Ok subtrees" "try_extend_with_proof ?C acc subtrees ?li = Ok acc'"
    "represents (txn_node_hash ?C) acc' [5, 6, 7]" by auto
  then show ?thesis using acc by (intro exI [of _ ?C] exI [of _ reader] exI [of _ acc] exI [of _ acc'] exI [of _ subtrees]) simp
qed

end
