(* ===== verification/Consensus_Types.thy ===== *)
theory Consensus_Types
  imports Ledger_Info
begin

text \<open>
  \<open>consensus/consensus-types/src\<close>: the operations on the messages of DiemBFT. A certificate or a
  message is checked here independently of any validator's state; the lemmas turn a successful
  check into the facts it establishes. \<open>now\<close> is the reading of the wall clock in microseconds
  (\<open>duration_since_epoch().as_micros() as u64\<close>). The checks that only debug builds make
  (\<open>debug_checked_verify_eq!\<close>, \<open>debug_assert_eq!\<close>) are absent, as in a release build.
\<close>

section \<open>ValidatorSigner\<close>

definition signer_sign :: "crypto \<Rightarrow> validator_signer \<Rightarrow> crypto_hash \<Rightarrow> signature" where
  "signer_sign C s msg = sign_message C (vs_private_key s) msg"

definition signer_public_key :: "crypto \<Rightarrow> validator_signer \<Rightarrow> public_key" where
  "signer_public_key C s = public_key_of C (vs_private_key s)"

section \<open>VoteData and QuorumCert\<close>

definition vote_data_new :: "block_info \<Rightarrow> block_info \<Rightarrow> vote_data" where
  "vote_data_new proposed parent = \<lparr>vd_proposed = proposed, vd_parent = parent\<rparr>"

definition vd_verify :: "vote_data \<Rightarrow> (unit, anyhow) result" where
  "vd_verify vd =
     bind_result (ensure (bi_epoch (vd_parent vd) = bi_epoch (vd_proposed vd))
        (Msg ''Parent and proposed epochs do not match'')) (\<lambda>_.
     bind_result (ensure (bi_round (vd_parent vd) < bi_round (vd_proposed vd))
        (Msg ''Proposed round is less than parent round'')) (\<lambda>_.
     bind_result (ensure (bi_timestamp_usecs (vd_parent vd) \<le> bi_timestamp_usecs (vd_proposed vd))
        (Msg ''Proposed happened before parent'')) (\<lambda>_.
       ensure (bi_version (vd_proposed vd) = 0 \<or> bi_version (vd_parent vd) \<le> bi_version (vd_proposed vd))
        (Msg ''Proposed version is less than parent version''))))"

definition qc_new :: "vote_data \<Rightarrow> ledger_info_with_signatures \<Rightarrow> quorum_cert" where
  "qc_new vd l = \<lparr>qc_vote_data = vd, qc_signed_ledger_info = l\<rparr>"

definition certified_block :: "quorum_cert \<Rightarrow> block_info" where
  "certified_block qc = vd_proposed (qc_vote_data qc)"

definition parent_block :: "quorum_cert \<Rightarrow> block_info" where
  "parent_block qc = vd_parent (qc_vote_data qc)"

definition qc_ledger_info :: "quorum_cert \<Rightarrow> ledger_info" where
  "qc_ledger_info qc = lis_ledger_info (qc_signed_ledger_info qc)"

definition qc_commit_info :: "quorum_cert \<Rightarrow> block_info" where
  "qc_commit_info qc = li_commit_info (qc_ledger_info qc)"

definition qc_ends_epoch :: "quorum_cert \<Rightarrow> bool" where
  "qc_ends_epoch qc = li_ends_epoch (qc_ledger_info qc)"

definition certificate_for_genesis_from_ledger_info ::
    "crypto \<Rightarrow> ledger_info \<Rightarrow> hash_value \<Rightarrow> (quorum_cert, anyhow) result" where
  "certificate_for_genesis_from_ledger_info C li genesis_id =
     bind_result (expect (checked_add (li_epoch li) 1)) (\<lambda>e.
       let ancestor = block_info_new e 0 genesis_id (li_transaction_accumulator_hash li)
             (li_version li) (li_timestamp_usecs li) None;
           vd = vote_data_new ancestor ancestor
       in Ok (qc_new vd (lis_new (ledger_info_new ancestor (hash_of C (H_VoteData vd))) btree_new)))"

definition qc_verify :: "crypto \<Rightarrow> validator_verifier \<Rightarrow> quorum_cert \<Rightarrow> (unit, anyhow) result" where
  "qc_verify C vv qc =
     bind_result (ensure (li_consensus_data_hash (qc_ledger_info qc) = hash_of C (H_VoteData (qc_vote_data qc)))
        (Msg ''Quorum Cert hash mismatch LedgerInfo'')) (\<lambda>_.
     if bi_round (certified_block qc) = 0
     then bind_result (ensure (parent_block qc = certified_block qc)
            (Msg ''Genesis QC has inconsistent parent block with certified block'')) (\<lambda>_.
          bind_result (ensure (certified_block qc = qc_commit_info qc)
            (Msg ''Genesis QC has inconsistent commit block with certified block'')) (\<lambda>_.
            ensure (btree_is_empty (lis_signatures (qc_signed_ledger_info qc)))
              (Msg ''Genesis QC should not carry signatures'')))
     else bind_result (map_err (\<lambda>e. Context ''Fail to verify QuorumCert'' (From_Verify_Error e))
            (verify_signatures C vv (qc_signed_ledger_info qc))) (\<lambda>_.
            vd_verify (qc_vote_data qc)))"

section \<open>BlockData and Block\<close>

fun bt_author :: "block_type \<Rightarrow> author option" where
  "bt_author (Proposal p a) = Some a"
| "bt_author NilBlock = None"
| "bt_author Genesis = None"

fun bt_payload :: "block_type \<Rightarrow> payload option" where
  "bt_payload (Proposal p a) = Some p"
| "bt_payload NilBlock = None"
| "bt_payload Genesis = None"

definition new_genesis :: "u64 \<Rightarrow> quorum_cert \<Rightarrow> block_data" where
  "new_genesis t qc =
     \<lparr>bd_epoch = bi_epoch (certified_block qc) + 1, bd_round = 0, bd_timestamp_usecs = t,
      bd_quorum_cert = qc, bd_block_type = Genesis\<rparr>"

definition new_genesis_from_ledger_info :: "ledger_info \<Rightarrow> (block_data, anyhow) result" where
  "new_genesis_from_ledger_info li =
     (if \<not> li_ends_epoch li then Panic
      else let ancestor = block_info_new (li_epoch li) 0 0 (li_transaction_accumulator_hash li)
                 (li_version li) (li_timestamp_usecs li) None
           in Ok (new_genesis (li_timestamp_usecs li)
                (qc_new (vote_data_new ancestor ancestor) (lis_new (ledger_info_new ancestor 0) btree_new))))"

definition bd_new_nil :: "round \<Rightarrow> quorum_cert \<Rightarrow> block_data" where
  "bd_new_nil r qc =
     \<lparr>bd_epoch = bi_epoch (certified_block qc), bd_round = r,
      bd_timestamp_usecs = bi_timestamp_usecs (certified_block qc),
      bd_quorum_cert = qc, bd_block_type = NilBlock\<rparr>"

definition bd_new_proposal :: "payload \<Rightarrow> author \<Rightarrow> round \<Rightarrow> u64 \<Rightarrow> quorum_cert \<Rightarrow> block_data" where
  "bd_new_proposal p a r t qc =
     \<lparr>bd_epoch = bi_epoch (certified_block qc), bd_round = r, bd_timestamp_usecs = t,
      bd_quorum_cert = qc, bd_block_type = Proposal p a\<rparr>"

definition is_reconfiguration_suffix :: "block_data \<Rightarrow> bool" where
  "is_reconfiguration_suffix bd = has_reconfiguration (certified_block (bd_quorum_cert bd))"

definition b_author :: "block \<Rightarrow> author option" where
  "b_author b = bt_author (bd_block_type (b_block_data b))"

definition b_payload :: "block \<Rightarrow> payload option" where
  "b_payload b = bt_payload (bd_block_type (b_block_data b))"

definition b_epoch :: "block \<Rightarrow> u64" where
  "b_epoch b = bd_epoch (b_block_data b)"

definition b_round :: "block \<Rightarrow> round" where
  "b_round b = bd_round (b_block_data b)"

definition b_timestamp_usecs :: "block \<Rightarrow> u64" where
  "b_timestamp_usecs b = bd_timestamp_usecs (b_block_data b)"

definition b_quorum_cert :: "block \<Rightarrow> quorum_cert" where
  "b_quorum_cert b = bd_quorum_cert (b_block_data b)"

definition b_parent_id :: "block \<Rightarrow> hash_value" where
  "b_parent_id b = bi_id (certified_block (b_quorum_cert b))"

definition is_genesis_block :: "block \<Rightarrow> bool" where
  "is_genesis_block b \<longleftrightarrow> bd_block_type (b_block_data b) = Genesis"

definition is_nil_block :: "block \<Rightarrow> bool" where
  "is_nil_block b \<longleftrightarrow> bd_block_type (b_block_data b) = NilBlock"

definition gen_block_info :: "block \<Rightarrow> hash_value \<Rightarrow> version \<Rightarrow> epoch_state option \<Rightarrow> block_info" where
  "gen_block_info b st v nes =
     block_info_new (b_epoch b) (b_round b) (b_id b) st v (b_timestamp_usecs b) nes"

definition make_genesis_block_from_ledger_info :: "crypto \<Rightarrow> ledger_info \<Rightarrow> (block, anyhow) result" where
  "make_genesis_block_from_ledger_info C li =
     bind_result (new_genesis_from_ledger_info li) (\<lambda>bd.
       Ok \<lparr>b_id = hash_of C (H_BlockData bd), b_block_data = bd, b_signature = None\<rparr>)"

definition new_nil :: "crypto \<Rightarrow> round \<Rightarrow> quorum_cert \<Rightarrow> block" where
  "new_nil C r qc =
     (let bd = bd_new_nil r qc
      in \<lparr>b_id = hash_of C (H_BlockData bd), b_block_data = bd, b_signature = None\<rparr>)"

definition new_proposal_from_block_data_and_signature :: "crypto \<Rightarrow> block_data \<Rightarrow> signature \<Rightarrow> block" where
  "new_proposal_from_block_data_and_signature C bd sig =
     \<lparr>b_id = hash_of C (H_BlockData bd), b_block_data = bd, b_signature = Some sig\<rparr>"

definition new_proposal_from_block_data :: "crypto \<Rightarrow> block_data \<Rightarrow> validator_signer \<Rightarrow> block" where
  "new_proposal_from_block_data C bd s =
     new_proposal_from_block_data_and_signature C bd (signer_sign C s (H_BlockData bd))"

definition new_proposal ::
    "crypto \<Rightarrow> payload \<Rightarrow> round \<Rightarrow> u64 \<Rightarrow> quorum_cert \<Rightarrow> validator_signer \<Rightarrow> block" where
  "new_proposal C p r t qc s = new_proposal_from_block_data C (bd_new_proposal p (vs_author s) r t qc) s"

definition validate_signature :: "crypto \<Rightarrow> validator_verifier \<Rightarrow> block \<Rightarrow> (unit, anyhow) result" where
  "validate_signature C vv b =
     (case bd_block_type (b_block_data b) of
        Genesis \<Rightarrow> Err (Msg ''We should not accept genesis from others'')
      | NilBlock \<Rightarrow> qc_verify C vv (b_quorum_cert b)
      | Proposal p a \<Rightarrow>
          bind_result (ok_or (Msg ''Missing signature in Proposal'') (b_signature b)) (\<lambda>sig.
          bind_result (map_err From_Verify_Error (vv_verify C vv a (H_BlockData (b_block_data b)) sig)) (\<lambda>_.
            qc_verify C vv (b_quorum_cert b))))"

definition timebound :: u64 where
  "timebound = 300000000"

definition verify_well_formed :: "u64 \<Rightarrow> block \<Rightarrow> (unit, anyhow) result" where
  "verify_well_formed now b =
     (let parent = certified_block (b_quorum_cert b) in
      bind_result (ensure (\<not> is_genesis_block b) (Msg ''We must not accept genesis from others'')) (\<lambda>_.
      bind_result (ensure (bi_round parent < b_round b)
        (Msg ''Block must have a greater round than parent block'')) (\<lambda>_.
      bind_result (ensure (bi_epoch parent = b_epoch b)
        (Msg ''block parent should be in the same epoch'')) (\<lambda>_.
      bind_result
        (if has_reconfiguration parent
         then ensure (case b_payload b of None \<Rightarrow> True | Some p \<Rightarrow> p = [])
                (Msg ''Reconfiguration suffix should not carry payload'')
         else Ok ()) (\<lambda>_.
      bind_result
        (if is_nil_block b \<or> has_reconfiguration parent
         then ensure (b_timestamp_usecs b = bi_timestamp_usecs parent)
                (Msg ''Nil/reconfig suffix block must have same timestamp as parent'')
         else bind_result (ensure (bi_timestamp_usecs parent < b_timestamp_usecs b)
                (Msg ''Blocks must have strictly increasing timestamps'')) (\<lambda>_.
                ensure (b_timestamp_usecs b \<le> saturating_add now timebound)
                  (Msg ''Blocks must not be too far in the future''))) (\<lambda>_.
        ensure (\<not> qc_ends_epoch (b_quorum_cert b))
          (Msg ''Block cannot be proposed in an epoch that has ended'')))))))"

section \<open>Timeouts and timeout certificates\<close>

definition tct_hqc_round :: "two_chain_timeout \<Rightarrow> round" where
  "tct_hqc_round t = bi_round (certified_block (tct_quorum_cert t))"

definition signing_format :: "two_chain_timeout \<Rightarrow> timeout_signing_repr" where
  "signing_format t =
     \<lparr>tsr_epoch = tct_epoch t, tsr_round = tct_round t, tsr_hqc_round = tct_hqc_round t\<rparr>"

definition tctc_new :: "two_chain_timeout \<Rightarrow> two_chain_timeout_certificate" where
  "tctc_new t = \<lparr>tctc_timeout = t, tctc_signatures = btree_new\<rparr>"

fun tctc_verify_loop ::
    "crypto \<Rightarrow> validator_verifier \<Rightarrow> two_chain_timeout \<Rightarrow> round \<Rightarrow> (author \<times> round \<times> signature) list
     \<Rightarrow> (round, anyhow) result" where
  "tctc_verify_loop C vv t signed_round [] = Ok signed_round"
| "tctc_verify_loop C vv t signed_round ((a, qc_round, sig) # xs) =
     bind_result (map_err (\<lambda>e. Context ''Failed to verify TimeoutSigningRepr'' (From_Verify_Error e))
        (vv_verify C vv a (H_TimeoutSigningRepr
           \<lparr>tsr_epoch = tct_epoch t, tsr_round = tct_round t, tsr_hqc_round = qc_round\<rparr>) sig)) (\<lambda>_.
       tctc_verify_loop C vv t (max signed_round qc_round) xs)"

definition tctc_verify ::
    "crypto \<Rightarrow> validator_verifier \<Rightarrow> two_chain_timeout_certificate \<Rightarrow> (unit, anyhow) result" where
  "tctc_verify C vv tc =
     (let t = tctc_timeout tc; hqc_round = tct_hqc_round t in
      bind_result (ensure (hqc_round < tct_round t)
        (Msg ''Timeout round should be larger than the QC round'')) (\<lambda>_.
      bind_result (qc_verify C vv (tct_quorum_cert t)) (\<lambda>_.
      bind_result (map_err From_Verify_Error (check_voting_power vv (btree_keys (tctc_signatures tc)))) (\<lambda>_.
      bind_result (tctc_verify_loop C vv t 0 (entries (tctc_signatures tc))) (\<lambda>signed_round.
        ensure (hqc_round = signed_round) (Msg ''Inconsistent hqc round''))))))"

definition tctc_epoch :: "two_chain_timeout_certificate \<Rightarrow> u64" where
  "tctc_epoch tc = tct_epoch (tctc_timeout tc)"

definition tctc_round :: "two_chain_timeout_certificate \<Rightarrow> round" where
  "tctc_round tc = tct_round (tctc_timeout tc)"

definition highest_hqc_round :: "two_chain_timeout_certificate \<Rightarrow> round" where
  "highest_hqc_round tc = tct_hqc_round (tctc_timeout tc)"

definition tctc_add ::
    "author \<Rightarrow> two_chain_timeout \<Rightarrow> signature \<Rightarrow> two_chain_timeout_certificate \<Rightarrow> two_chain_timeout_certificate" where
  "tctc_add a t sig tc =
     \<lparr>tctc_timeout = (if tct_hqc_round (tctc_timeout tc) < tct_hqc_round t then t else tctc_timeout tc),
      tctc_signatures = btree_insert a (tct_hqc_round t, sig) (tctc_signatures tc)\<rparr>"

definition tc_new :: "timeout \<Rightarrow> timeout_certificate" where
  "tc_new t = \<lparr>tc_timeout = t, tc_signatures = btree_new\<rparr>"

definition tc_verify :: "crypto \<Rightarrow> validator_verifier \<Rightarrow> timeout_certificate \<Rightarrow> (unit, anyhow) result" where
  "tc_verify C vv tc =
     map_err (\<lambda>e. Context ''Failed to verify TimeoutCertificate'' (From_Verify_Error e))
       (verify_aggregated_struct_signature C vv (H_Timeout (tc_timeout tc)) (tc_signatures tc))"

definition tc_epoch :: "timeout_certificate \<Rightarrow> u64" where
  "tc_epoch tc = to_epoch (tc_timeout tc)"

definition tc_round :: "timeout_certificate \<Rightarrow> round" where
  "tc_round tc = to_round (tc_timeout tc)"

definition tc_add_signature :: "author \<Rightarrow> signature \<Rightarrow> timeout_certificate \<Rightarrow> timeout_certificate" where
  "tc_add_signature a sig tc = tc\<lparr>tc_signatures := btree_or_insert a sig (tc_signatures tc)\<rparr>"

definition tc_remove_signature :: "author \<Rightarrow> timeout_certificate \<Rightarrow> timeout_certificate" where
  "tc_remove_signature a tc = tc\<lparr>tc_signatures := btree_remove a (tc_signatures tc)\<rparr>"

section \<open>Vote\<close>

definition vote_new_with_signature :: "vote_data \<Rightarrow> author \<Rightarrow> ledger_info \<Rightarrow> signature \<Rightarrow> vote" where
  "vote_new_with_signature vd a li sig =
     \<lparr>v_vote_data = vd, v_author = a, v_ledger_info = li, v_signature = sig,
      v_timeout_signature = None, v_two_chain_timeout = None\<rparr>"

definition vote_new :: "crypto \<Rightarrow> vote_data \<Rightarrow> author \<Rightarrow> ledger_info \<Rightarrow> validator_signer \<Rightarrow> vote" where
  "vote_new C vd a li s =
     (let li' = set_consensus_data_hash (hash_of C (H_VoteData vd)) li
      in vote_new_with_signature vd a li' (signer_sign C s (H_LedgerInfo li')))"

definition add_timeout_signature :: "signature \<Rightarrow> vote \<Rightarrow> (vote, anyhow) result" where
  "add_timeout_signature sig v =
     (if v_two_chain_timeout v \<noteq> None then Panic
      else if v_timeout_signature v \<noteq> None then Ok v
      else Ok (v\<lparr>v_timeout_signature := Some sig\<rparr>))"

definition add_2chain_timeout :: "two_chain_timeout \<Rightarrow> signature \<Rightarrow> vote \<Rightarrow> (vote, anyhow) result" where
  "add_2chain_timeout t sig v =
     (if v_timeout_signature v \<noteq> None then Panic else Ok (v\<lparr>v_two_chain_timeout := Some (t, sig)\<rparr>))"

definition v_epoch :: "vote \<Rightarrow> u64" where
  "v_epoch v = bi_epoch (vd_proposed (v_vote_data v))"

definition v_round :: "vote \<Rightarrow> round" where
  "v_round v = bi_round (vd_proposed (v_vote_data v))"

definition generate_timeout :: "vote \<Rightarrow> timeout" where
  "generate_timeout v =
     \<lparr>to_epoch = bi_epoch (vd_proposed (v_vote_data v)), to_round = bi_round (vd_proposed (v_vote_data v))\<rparr>"

definition generate_2chain_timeout :: "vote \<Rightarrow> quorum_cert \<Rightarrow> two_chain_timeout" where
  "generate_2chain_timeout v qc =
     \<lparr>tct_epoch = bi_epoch (vd_proposed (v_vote_data v)), tct_round = bi_round (vd_proposed (v_vote_data v)),
      tct_quorum_cert = qc\<rparr>"

definition is_timeout :: "vote \<Rightarrow> bool" where
  "is_timeout v \<longleftrightarrow> v_timeout_signature v \<noteq> None \<or> v_two_chain_timeout v \<noteq> None"

definition vote_verify_timeout :: "crypto \<Rightarrow> validator_verifier \<Rightarrow> vote \<Rightarrow> (unit, anyhow) result" where
  "vote_verify_timeout C vv v =
     (case v_timeout_signature v of
        None \<Rightarrow> Ok ()
      | Some tsig \<Rightarrow> map_err (\<lambda>e. Context ''Failed to verify Timeout Vote'' (From_Verify_Error e))
          (vv_verify C vv (v_author v) (H_Timeout (generate_timeout v)) tsig))"

definition vote_verify_2chain_timeout :: "crypto \<Rightarrow> validator_verifier \<Rightarrow> vote \<Rightarrow> (unit, anyhow) result" where
  "vote_verify_2chain_timeout C vv v =
     (case v_two_chain_timeout v of
        None \<Rightarrow> Ok ()
      | Some (t, sig) \<Rightarrow>
          bind_result (ensure ((tct_epoch t, tct_round t) = (v_epoch v, bi_round (vd_proposed (v_vote_data v))))
            (Msg ''2-chain timeout has different (epoch, round) than Vote'')) (\<lambda>_.
          bind_result (map_err (Context ''Failed to verify QC from 2-chain timeout'')
            (qc_verify C vv (tct_quorum_cert t))) (\<lambda>_.
            map_err (\<lambda>e. Context ''Failed to verify 2-chain timeout signature'' (From_Verify_Error e))
              (vv_verify C vv (v_author v) (H_TimeoutSigningRepr (signing_format t)) sig))))"

definition vote_verify :: "crypto \<Rightarrow> validator_verifier \<Rightarrow> vote \<Rightarrow> (unit, anyhow) result" where
  "vote_verify C vv v =
     bind_result (ensure (li_consensus_data_hash (v_ledger_info v) = hash_of C (H_VoteData (v_vote_data v)))
        (Msg ''Vote hash mismatch with LedgerInfo'')) (\<lambda>_.
     bind_result (ensure (v_timeout_signature v = None \<or> v_two_chain_timeout v = None)
        (Msg ''Only one timeout should exist'')) (\<lambda>_.
     bind_result (map_err (\<lambda>e. Context ''Failed to verify Vote'' (From_Verify_Error e))
        (vv_verify C vv (v_author v) (H_LedgerInfo (v_ledger_info v)) (v_signature v))) (\<lambda>_.
     bind_result (vote_verify_timeout C vv v) (\<lambda>_.
     bind_result (vote_verify_2chain_timeout C vv v) (\<lambda>_.
       vd_verify (v_vote_data v))))))"

section \<open>VoteProposal\<close>

definition vote_data_ordering_only :: "vote_proposal \<Rightarrow> vote_data" where
  "vote_data_ordering_only vp =
     vote_data_new
       (gen_block_info (vp_block vp) accumulator_placeholder_hash 0 (vp_next_epoch_state vp))
       (certified_block (b_quorum_cert (vp_block vp)))"

definition vote_data_with_extension_proof :: "vote_proposal \<Rightarrow> in_memory_accumulator \<Rightarrow> vote_data" where
  "vote_data_with_extension_proof vp tree =
     vote_data_new
       (gen_block_info (vp_block vp) (acc_root_hash tree) (accumulator_version tree) (vp_next_epoch_state vp))
       (certified_block (b_quorum_cert (vp_block vp)))"

definition gen_vote_data :: "crypto \<Rightarrow> vote_proposal \<Rightarrow> (vote_data, anyhow) result" where
  "gen_vote_data C vp =
     (if vp_decoupled_execution vp then Ok (vote_data_ordering_only vp)
      else bind_result (aep_verify (txn_node_hash C) (vp_accumulator_extension_proof vp)
             (bi_executed_state_id (certified_block (b_quorum_cert (vp_block vp))))) (\<lambda>tree.
             Ok (vote_data_with_extension_proof vp tree)))"

section \<open>SyncInfo\<close>

definition option_filter :: "('a \<Rightarrow> bool) \<Rightarrow> 'a option \<Rightarrow> 'a option" where
  "option_filter P x = (case x of None \<Rightarrow> None | Some a \<Rightarrow> if P a then Some a else None)"

definition sync_info_new_decoupled ::
    "quorum_cert \<Rightarrow> quorum_cert \<Rightarrow> ledger_info_with_signatures option \<Rightarrow> timeout_certificate option
     \<Rightarrow> two_chain_timeout_certificate option \<Rightarrow> (sync_info, anyhow) result" where
  "sync_info_new_decoupled hqc hoc hli htc h2tc =
     (let htc' = option_filter (\<lambda>tc. bi_round (certified_block hqc) < tc_round tc) htc;
          h2tc' = option_filter (\<lambda>tc. bi_round (certified_block hqc) < tctc_round tc) h2tc;
          hoc' = option_filter (\<lambda>c. c \<noteq> hqc) (Some hoc)
      in if htc' = None \<or> h2tc' = None
         then Ok \<lparr>si_highest_quorum_cert = hqc, si_highest_ordered_cert = hoc', si_highest_ledger_info = hli,
                  si_highest_timeout_cert = htc', si_highest_2chain_timeout_cert = h2tc'\<rparr>
         else Panic)"

definition sync_info_new ::
    "quorum_cert \<Rightarrow> quorum_cert \<Rightarrow> timeout_certificate option \<Rightarrow> two_chain_timeout_certificate option
     \<Rightarrow> (sync_info, anyhow) result" where
  "sync_info_new hqc hoc htc h2tc =
     sync_info_new_decoupled hqc hoc (Some (qc_signed_ledger_info hoc)) htc h2tc"

definition highest_ordered_cert :: "sync_info \<Rightarrow> quorum_cert" where
  "highest_ordered_cert si =
     (case si_highest_ordered_cert si of None \<Rightarrow> si_highest_quorum_cert si | Some c \<Rightarrow> c)"

definition highest_ledger_info :: "sync_info \<Rightarrow> ledger_info_with_signatures" where
  "highest_ledger_info si =
     (case si_highest_ledger_info si of
        None \<Rightarrow> qc_signed_ledger_info (highest_ordered_cert si) | Some l \<Rightarrow> l)"

definition highest_certified_round :: "sync_info \<Rightarrow> round" where
  "highest_certified_round si = bi_round (certified_block (si_highest_quorum_cert si))"

definition highest_timeout_round :: "sync_info \<Rightarrow> round" where
  "highest_timeout_round si =
     max (case si_highest_timeout_cert si of None \<Rightarrow> 0 | Some tc \<Rightarrow> tc_round tc)
         (case si_highest_2chain_timeout_cert si of None \<Rightarrow> 0 | Some tc \<Rightarrow> tctc_round tc)"

definition highest_ordered_round :: "sync_info \<Rightarrow> round" where
  "highest_ordered_round si = bi_round (qc_commit_info (highest_ordered_cert si))"

definition highest_ledger_info_round :: "sync_info \<Rightarrow> round" where
  "highest_ledger_info_round si = bi_round (lis_commit_info (highest_ledger_info si))"

definition highest_round :: "sync_info \<Rightarrow> round" where
  "highest_round si = max (highest_certified_round si) (highest_timeout_round si)"

definition si_epoch :: "sync_info \<Rightarrow> u64" where
  "si_epoch si = bi_epoch (certified_block (si_highest_quorum_cert si))"

definition sync_info_certs_verify :: "crypto \<Rightarrow> validator_verifier \<Rightarrow> sync_info \<Rightarrow> (unit, anyhow) result" where
  "sync_info_certs_verify C vv si =
     bind_result (qc_verify C vv (si_highest_quorum_cert si)) (\<lambda>_.
     bind_result (case si_highest_ordered_cert si of None \<Rightarrow> Ok () | Some c \<Rightarrow> qc_verify C vv c) (\<lambda>_.
     bind_result (case si_highest_timeout_cert si of None \<Rightarrow> Ok () | Some tc \<Rightarrow> tc_verify C vv tc) (\<lambda>_.
     bind_result (case si_highest_ledger_info si of
          None \<Rightarrow> Ok ()
        | Some l \<Rightarrow> if 0 < bi_round (lis_commit_info l)
            then map_err From_Verify_Error (verify_signatures C vv l) else Ok ()) (\<lambda>_.
       case si_highest_2chain_timeout_cert si of None \<Rightarrow> Ok () | Some tc \<Rightarrow> tctc_verify C vv tc))))"

definition sync_info_verify :: "crypto \<Rightarrow> validator_verifier \<Rightarrow> sync_info \<Rightarrow> (unit, anyhow) result" where
  "sync_info_verify C vv si =
     (let epoch = bi_epoch (certified_block (si_highest_quorum_cert si)) in
      bind_result (ensure (epoch = bi_epoch (certified_block (highest_ordered_cert si)))
        (Msg ''Multi epoch in SyncInfo - HOC and HQC'')) (\<lambda>_.
      bind_result (case si_highest_timeout_cert si of
           None \<Rightarrow> Ok ()
         | Some tc \<Rightarrow> ensure (epoch = tc_epoch tc) (Msg ''Multi epoch in SyncInfo - TC and HQC'')) (\<lambda>_.
      bind_result (ensure (bi_round (certified_block (highest_ordered_cert si))
          \<le> bi_round (certified_block (si_highest_quorum_cert si))) (Msg ''HQC has lower round than HOC'')) (\<lambda>_.
      bind_result (ensure (highest_ledger_info_round si \<le> bi_round (certified_block (highest_ordered_cert si)))
        (Msg ''HOC has lower round than HLI'')) (\<lambda>_.
      bind_result (ensure (qc_commit_info (highest_ordered_cert si) \<noteq> block_info_empty)
        (Msg ''HOC has no committed block'')) (\<lambda>_.
      bind_result (ensure (lis_commit_info (highest_ledger_info si) \<noteq> block_info_empty)
        (Msg ''HLI has empty commit info'')) (\<lambda>_.
      bind_result (ensure (si_highest_timeout_cert si = None \<or> si_highest_2chain_timeout_cert si = None)
        (Msg ''Only One timeout cert should be carried'')) (\<lambda>_.
        map_err (Context ''Fail to verify SyncInfo'') (sync_info_certs_verify C vv si)))))))))"

definition has_newer_certificates :: "sync_info \<Rightarrow> sync_info \<Rightarrow> bool" where
  "has_newer_certificates si other \<longleftrightarrow>
     highest_certified_round other < highest_certified_round si \<or>
     highest_timeout_round other < highest_timeout_round si \<or>
     highest_ordered_round other < highest_ordered_round si \<or>
     highest_ledger_info_round other < highest_ledger_info_round si"

section \<open>ProposalMsg and VoteMsg\<close>

definition proposal_verify_well_formed :: "u64 \<Rightarrow> proposal_msg \<Rightarrow> (unit, anyhow) result" where
  "proposal_verify_well_formed now m =
     (let b = pm_proposal m; si = pm_sync_info m in
      bind_result (ensure (\<not> is_nil_block b) (Msg ''Proposal for a NIL block'')) (\<lambda>_.
      bind_result (map_err (Context ''Fail to verify ProposalMsg block'') (verify_well_formed now b)) (\<lambda>_.
      bind_result (ensure (0 < b_round b) (Msg ''Proposal has an incorrect round of 0'')) (\<lambda>_.
      bind_result (ensure (b_epoch b = si_epoch si)
        (Msg ''ProposalMsg has different epoch number from SyncInfo'')) (\<lambda>_.
      bind_result (ensure (b_parent_id b = bi_id (certified_block (si_highest_quorum_cert si)))
        (Msg ''Proposal HQC in SyncInfo does not certify the parent'')) (\<lambda>_.
      bind_result (ok_or (Msg ''proposal round overflowed!'') (checked_sub (b_round b) 1)) (\<lambda>previous_round.
      bind_result (ensure (previous_round
          = max (bi_round (certified_block (b_quorum_cert b))) (highest_timeout_round si))
        (Msg ''Proposal does not have a certified round'')) (\<lambda>_.
        ensure (b_author b \<noteq> None) (Msg ''Proposal does not define an author'')))))))))"

definition proposal_msg_verify :: "crypto \<Rightarrow> validator_verifier \<Rightarrow> u64 \<Rightarrow> proposal_msg \<Rightarrow> (unit, anyhow) result" where
  "proposal_msg_verify C vv now m =
     bind_result (map_err Debug_Format (validate_signature C vv (pm_proposal m))) (\<lambda>_.
     bind_result (case si_highest_timeout_cert (pm_sync_info m) of
          None \<Rightarrow> Ok () | Some tc \<Rightarrow> map_err Debug_Format (tc_verify C vv tc)) (\<lambda>_.
     bind_result (case si_highest_2chain_timeout_cert (pm_sync_info m) of
          None \<Rightarrow> Ok () | Some tc \<Rightarrow> map_err Debug_Format (tctc_verify C vv tc)) (\<lambda>_.
       proposal_verify_well_formed now m)))"

definition vote_msg_verify :: "crypto \<Rightarrow> validator_verifier \<Rightarrow> vote_msg \<Rightarrow> (unit, anyhow) result" where
  "vote_msg_verify C vv m =
     bind_result (ensure (v_epoch (vm_vote m) = si_epoch (vm_sync_info m))
        (Msg ''VoteMsg has different epoch'')) (\<lambda>_.
     bind_result (case v_two_chain_timeout (vm_vote m) of
          None \<Rightarrow> Ok ()
        | Some (t, _) \<Rightarrow> ensure (tct_hqc_round t \<le> highest_certified_round (vm_sync_info m))
            (Msg ''2-chain Timeout hqc should be less or equal than the sync info hqc'')) (\<lambda>_.
       vote_verify C vv (vm_vote m)))"

section \<open>What a successful check establishes\<close>

lemma vd_verify_Ok_iff [ok_simps]:
  "vd_verify vd = Ok u \<longleftrightarrow>
     bi_epoch (vd_parent vd) = bi_epoch (vd_proposed vd) \<and>
     bi_round (vd_parent vd) < bi_round (vd_proposed vd) \<and>
     bi_timestamp_usecs (vd_parent vd) \<le> bi_timestamp_usecs (vd_proposed vd) \<and>
     (bi_version (vd_proposed vd) = 0 \<or> bi_version (vd_parent vd) \<le> bi_version (vd_proposed vd))"
  by (simp add: vd_verify_def ok_simps)

lemma qc_verify_Ok_iff:
  "qc_verify C vv qc = Ok u \<longleftrightarrow>
     li_consensus_data_hash (qc_ledger_info qc) = hash_of C (H_VoteData (qc_vote_data qc)) \<and>
     (if bi_round (certified_block qc) = 0
      then parent_block qc = certified_block qc \<and> certified_block qc = qc_commit_info qc \<and>
           lis_signatures (qc_signed_ledger_info qc) = btree_new
      else verify_signatures C vv (qc_signed_ledger_info qc) = Ok () \<and> vd_verify (qc_vote_data qc) = Ok ())"
  by (auto simp: qc_verify_def ok_simps btree_is_empty_iff)

lemma qc_verify_quorum:
  assumes "qc_verify C vv qc = Ok ()" and "bi_round (certified_block qc) \<noteq> 0"
  shows "check_voting_power vv (btree_keys (lis_signatures (qc_signed_ledger_info qc))) = Ok ()"
  using assms by (auto simp: qc_verify_Ok_iff intro: verify_signatures_quorum)

lemma qc_verify_signer:
  assumes "batch_sound C" and "qc_verify C vv qc = Ok ()" and "bi_round (certified_block qc) \<noteq> 0"
    and "a \<in> set (btree_keys (lis_signatures (qc_signed_ledger_info qc)))"
  obtains pk sig where "get_public_key vv a = Some pk"
    and "btree_get (lis_signatures (qc_signed_ledger_info qc)) a = Some sig"
    and "verify_struct_signature C pk (H_LedgerInfo (qc_ledger_info qc)) sig"
proof -
  from assms have "verify_aggregated_struct_signature C vv (H_LedgerInfo (qc_ledger_info qc))
      (lis_signatures (qc_signed_ledger_info qc)) = Ok ()"
    by (auto simp: qc_verify_Ok_iff verify_signatures_Ok_iff qc_ledger_info_def)
  then show thesis by (rule verify_aggregated_signers [OF _ assms(4)]) (rule that)
qed

lemma qc_verify_parent:
  assumes "qc_verify C vv qc = Ok ()"
  shows "bi_epoch (parent_block qc) = bi_epoch (certified_block qc)"
    and "bi_round (parent_block qc) \<le> bi_round (certified_block qc)"
    and "bi_round (certified_block qc) \<noteq> 0 \<Longrightarrow> bi_round (parent_block qc) < bi_round (certified_block qc)"
  using assms by (auto simp: qc_verify_Ok_iff ok_simps certified_block_def parent_block_def split: if_splits)

lemma tctc_verify_loop_Ok_iff:
  "tctc_verify_loop C vv t s xs = Ok m \<longleftrightarrow>
     (\<forall>(a, r, sig) \<in> set xs. vv_verify C vv a (H_TimeoutSigningRepr
        \<lparr>tsr_epoch = tct_epoch t, tsr_round = tct_round t, tsr_hqc_round = r\<rparr>) sig = Ok ()) \<and>
     m = foldl max s (map (fst \<circ> snd) xs)"
  by (induction C vv t s xs rule: tctc_verify_loop.induct) (auto simp: bind_result_Ok_iff map_err_Ok_iff)

lemma foldl_max_bounds:
  fixes s :: "'a::linorder"
  shows "foldl max s xs \<ge> s \<and> (\<forall>x \<in> set xs. x \<le> foldl max s xs) \<and> foldl max s xs \<in> insert s (set xs)"
proof (induction xs arbitrary: s)
  case (Cons x xs)
  from Cons.IH [of "max s x"] show ?case by (auto simp: max_def split: if_splits)
qed simp

lemma tctc_verify_Ok:
  assumes "tctc_verify C vv tc = Ok ()"
  shows "highest_hqc_round tc < tctc_round tc"
    and "qc_verify C vv (tct_quorum_cert (tctc_timeout tc)) = Ok ()"
    and "check_voting_power vv (btree_keys (tctc_signatures tc)) = Ok ()"
    and "btree_get (tctc_signatures tc) a = Some (r, sig) \<Longrightarrow>
      r \<le> highest_hqc_round tc \<and>
      vv_verify C vv a (H_TimeoutSigningRepr
        \<lparr>tsr_epoch = tctc_epoch tc, tsr_round = tctc_round tc, tsr_hqc_round = r\<rparr>) sig = Ok ()"
proof -
  let ?t = "tctc_timeout tc" and ?es = "entries (tctc_signatures tc)"
  from assms have basic: "tct_hqc_round ?t < tct_round ?t" "qc_verify C vv (tct_quorum_cert ?t) = Ok ()"
    "check_voting_power vv (btree_keys (tctc_signatures tc)) = Ok ()"
    and loop: "tctc_verify_loop C vv ?t 0 ?es = Ok (tct_hqc_round ?t)"
    by (auto simp: tctc_verify_def Let_def ok_simps)
  show "highest_hqc_round tc < tctc_round tc" "qc_verify C vv (tct_quorum_cert ?t) = Ok ()"
    "check_voting_power vv (btree_keys (tctc_signatures tc)) = Ok ()"
    using basic by (simp_all add: highest_hqc_round_def tctc_round_def)
  assume "btree_get (tctc_signatures tc) a = Some (r, sig)"
  then have mem: "(a, r, sig) \<in> set ?es" by (simp add: entries_iff_get)
  then have "r \<in> set (map (fst \<circ> snd) ?es)" by force
  then have "r \<le> foldl max 0 (map (fst \<circ> snd) ?es)" using foldl_max_bounds by blast
  with loop have "r \<le> tct_hqc_round ?t" by (simp add: tctc_verify_loop_Ok_iff)
  with loop mem show "r \<le> highest_hqc_round tc \<and> vv_verify C vv a (H_TimeoutSigningRepr
        \<lparr>tsr_epoch = tctc_epoch tc, tsr_round = tctc_round tc, tsr_hqc_round = r\<rparr>) sig = Ok ()"
    by (auto simp: tctc_verify_loop_Ok_iff highest_hqc_round_def tctc_epoch_def tctc_round_def)
qed

lemma tctc_verify_signer:
  assumes "tctc_verify C vv tc = Ok ()" and "a \<in> set (btree_keys (tctc_signatures tc))"
  obtains pk r sig where "get_public_key vv a = Some pk" and "btree_get (tctc_signatures tc) a = Some (r, sig)"
    and "r \<le> highest_hqc_round tc"
    and "verify_struct_signature C pk (H_TimeoutSigningRepr
        \<lparr>tsr_epoch = tctc_epoch tc, tsr_round = tctc_round tc, tsr_hqc_round = r\<rparr>) sig"
proof -
  from assms(2) obtain r sig where g: "btree_get (tctc_signatures tc) a = Some (r, sig)"
    by (auto simp: btree_keys_get)
  from tctc_verify_Ok(4) [OF assms(1) g] g show thesis
    by (auto simp: vv_verify_Ok_iff intro: that)
qed

lemma verify_well_formed_Ok:
  assumes "verify_well_formed now b = Ok ()"
  shows "\<not> is_genesis_block b" and "bi_round (certified_block (b_quorum_cert b)) < b_round b"
    and "bi_epoch (certified_block (b_quorum_cert b)) = b_epoch b" and "\<not> qc_ends_epoch (b_quorum_cert b)"
    and "bi_timestamp_usecs (certified_block (b_quorum_cert b)) \<le> b_timestamp_usecs b"
  using assms by (auto simp: verify_well_formed_def Let_def ok_simps split: if_splits)

lemma gen_vote_data_Ok:
  assumes "gen_vote_data C vp = Ok vd"
  shows "vd_parent vd = certified_block (b_quorum_cert (vp_block vp))"
    and "bi_epoch (vd_proposed vd) = b_epoch (vp_block vp)"
    and "bi_round (vd_proposed vd) = b_round (vp_block vp)"
    and "bi_id (vd_proposed vd) = b_id (vp_block vp)"
  using assms by (auto simp: gen_vote_data_def vote_data_ordering_only_def vote_data_with_extension_proof_def
      vote_data_new_def gen_block_info_def block_info_new_def ok_simps split: if_splits)

end
