(* ===== verification/Safety_Storage.thy ===== *)
theory Safety_Storage
  imports Consensus_Types Epoch_Change
begin

text \<open>
  The storage under SafetyRules: the key-value store of \<open>secure/storage/src\<close> with its key handling,
  \<open>consensus/safety-rules/src/persistent_safety_storage.rs\<close> with its cache of the safety data, and
  \<open>consensus/safety-rules/src/configurable_validator_signer.rs\<close>.

  The store is the map of \<open>InMemoryStorage\<close> from key names to the values written under them. A value
  reads back at the type it was written with; reading it at another type is the deserialization
  error of \<open>serde_json\<close>. The fields \<open>st_get_fault\<close> and \<open>st_set_fault\<close> are the failures that a remote
  backend may report (\<open>None\<close> for the in-memory one).
\<close>

section \<open>The key-value store\<close>

datatype storage_error =
    EntropyError string
  | InternalError_S string
  | KeyAlreadyExists string
  | KeyNotSet string
  | PermissionDenied
  | SerializationError_S string
  | KeyVersionNotFound string public_key

datatype stored_value =
    SV_Author author
  | SV_Key private_key
  | SV_Waypoint waypoint
  | SV_SafetyData safety_data

record storage =
  st_data :: "string \<Rightarrow> stored_value option"
  st_get_fault :: "storage_error option"
  st_set_fault :: "storage_error option"

definition consensus_key :: string where
  "consensus_key = ''consensus''"

definition execution_key :: string where
  "execution_key = ''execution''"

definition owner_account :: string where
  "owner_account = ''owner_account''"

definition safety_data_key :: string where
  "safety_data_key = ''safety_data''"

definition waypoint_key :: string where
  "waypoint_key = ''waypoint''"

lemmas storage_keys = consensus_key_def execution_key_def owner_account_def safety_data_key_def waypoint_key_def

fun as_author :: "stored_value \<Rightarrow> author option" where
  "as_author (SV_Author a) = Some a"
| "as_author _ = None"

fun as_key :: "stored_value \<Rightarrow> private_key option" where
  "as_key (SV_Key k) = Some k"
| "as_key _ = None"

fun as_waypoint :: "stored_value \<Rightarrow> waypoint option" where
  "as_waypoint (SV_Waypoint w) = Some w"
| "as_waypoint _ = None"

fun as_safety_data :: "stored_value \<Rightarrow> safety_data option" where
  "as_safety_data (SV_SafetyData d) = Some d"
| "as_safety_data _ = None"

text \<open>\<open>KVStorage::get\<close> at the type whose deserializer is \<open>dec\<close>.\<close>

definition kv_get :: "(stored_value \<Rightarrow> 'a option) \<Rightarrow> string \<Rightarrow> storage \<Rightarrow> ('a, storage_error) result" where
  "kv_get dec key st =
     (case st_get_fault st of
        Some e \<Rightarrow> Err e
      | None \<Rightarrow> (case st_data st key of
          None \<Rightarrow> Err (KeyNotSet key)
        | Some v \<Rightarrow> (case dec v of
            None \<Rightarrow> Err (SerializationError_S key)
          | Some a \<Rightarrow> Ok a)))"

definition kv_set :: "string \<Rightarrow> stored_value \<Rightarrow> storage \<Rightarrow> (unit, storage_error) result \<times> storage" where
  "kv_set key v st =
     (case st_set_fault st of
        Some e \<Rightarrow> (Err e, st)
      | None \<Rightarrow> (Ok (), st\<lparr>st_data := (st_data st)(key \<mapsto> v)\<rparr>))"

section \<open>Keys in the store\<close>

definition get_previous_version_name :: "string \<Rightarrow> string" where
  "get_previous_version_name name = name @ ''_previous''"

definition export_private_key :: "string \<Rightarrow> storage \<Rightarrow> (private_key, storage_error) result" where
  "export_private_key name st = kv_get as_key name st"

definition export_private_key_for_version ::
    "crypto \<Rightarrow> string \<Rightarrow> public_key \<Rightarrow> storage \<Rightarrow> (private_key, storage_error) result" where
  "export_private_key_for_version C name version st =
     bind_result (export_private_key name st) (\<lambda>current.
     if public_key_of C current = version then Ok current
     else (case export_private_key (get_previous_version_name name) st of
             Ok previous \<Rightarrow> if public_key_of C previous = version then Ok previous
                            else Err (KeyVersionNotFound name version)
           | Err (KeyNotSet k) \<Rightarrow> Err (KeyVersionNotFound name version)
           | Err e \<Rightarrow> Err e
           | Panic \<Rightarrow> Panic))"

definition import_private_key :: "string \<Rightarrow> private_key \<Rightarrow> storage \<Rightarrow> (unit, storage_error) result \<times> storage" where
  "import_private_key name k st = kv_set name (SV_Key k) st"

definition get_stored_public_key :: "crypto \<Rightarrow> string \<Rightarrow> storage \<Rightarrow> (public_key, storage_error) result" where
  "get_stored_public_key C name st =
     bind_result (kv_get as_key name st) (\<lambda>k. Ok (public_key_of C k))"

text \<open>\<open>rotate_key\<close>; the fresh key comes from the operating system's entropy and is an argument.\<close>

definition rotate_key :: "crypto \<Rightarrow> private_key \<Rightarrow> string \<Rightarrow> (storage, public_key, storage_error) stateful" where
  "rotate_key C fresh name =
     sbind (sget (kv_get as_key name)) (\<lambda>private_key.
     sbind (kv_set (get_previous_version_name name) (SV_Key private_key)) (\<lambda>_.
     sbind (kv_set name (SV_Key fresh)) (\<lambda>_.
       slift (Ok (public_key_of C fresh)))))"

definition sign_using_version ::
    "crypto \<Rightarrow> string \<Rightarrow> public_key \<Rightarrow> crypto_hash \<Rightarrow> storage \<Rightarrow> (signature, storage_error) result" where
  "sign_using_version C name version msg st =
     bind_result (export_private_key_for_version C name version st) (\<lambda>k. Ok (sign_message C k msg))"

section \<open>Errors of SafetyRules\<close>

datatype sr_error =
    IncorrectEpoch u64 u64
  | IncorrectRound u64
  | IncorrectLastVotedRound u64 u64
  | IncorrectPreferredRound u64 u64
  | InvalidAccumulatorExtension anyhow
  | InvalidEpochChangeProof anyhow
  | InternalError anyhow
  | InvalidLedgerInfo
  | InvalidProposal anyhow
  | InvalidQuorumCertificate anyhow
  | NotInitialized string
  | SecureStorageMissingDataError storage_error
  | SecureStorageUnexpectedError storage_error
  | SerializationError string
  | ValidatorKeyNotFound error_text
  | ValidatorNotInSet account_address
  | VoteProposalSignatureNotFound
  | NotSafeToVote u64 u64 u64 u64
  | NotSafeToTimeout u64 u64 u64 u64
  | InvalidTimeoutCertificate anyhow
  | InconsistentExecutionResult block_info block_info
  | InvalidOrderedLedgerInfo ledger_info
  | WaypointOutOfDate u64 u64 u64 u64
and error_text = Storage_Text storage_error | Error_Text sr_error

text \<open>\<open>impl From<diem_secure_storage::Error> for Error\<close>: a permission failure is a panic.\<close>

fun from_storage :: "('a, storage_error) result \<Rightarrow> ('a, sr_error) result" where
  "from_storage (Ok a) = Ok a"
| "from_storage (Err PermissionDenied) = Panic"
| "from_storage (Err (KeyVersionNotFound k v)) = Err (SecureStorageMissingDataError (KeyVersionNotFound k v))"
| "from_storage (Err (KeyNotSet k)) = Err (SecureStorageMissingDataError (KeyNotSet k))"
| "from_storage (Err e) = Err (SecureStorageUnexpectedError e)"
| "from_storage Panic = Panic"

section \<open>PersistentSafetyStorage\<close>

record persistent_safety_storage =
  enable_cached_safety_data :: bool
  cached_safety_data :: "safety_data option"
  internal_store :: storage

definition safety_data_new :: "u64 \<Rightarrow> u64 \<Rightarrow> u64 \<Rightarrow> u64 \<Rightarrow> vote option \<Rightarrow> safety_data" where
  "safety_data_new e lvr pr ocr lv =
     \<lparr>sd_epoch = e, sd_last_voted_round = lvr, sd_preferred_round = pr, sd_one_chain_round = ocr,
      sd_last_vote = lv\<rparr>"

definition pss_new :: "storage \<Rightarrow> bool \<Rightarrow> persistent_safety_storage" where
  "pss_new st cache =
     \<lparr>enable_cached_safety_data = cache, cached_safety_data = None, internal_store = st\<rparr>"

definition pss_author :: "persistent_safety_storage \<Rightarrow> (author, sr_error) result" where
  "pss_author p = from_storage (kv_get as_author owner_account (internal_store p))"

definition consensus_key_for_version ::
    "crypto \<Rightarrow> public_key \<Rightarrow> persistent_safety_storage \<Rightarrow> (private_key, sr_error) result" where
  "consensus_key_for_version C version p =
     from_storage (export_private_key_for_version C consensus_key version (internal_store p))"

definition execution_public_key :: "crypto \<Rightarrow> persistent_safety_storage \<Rightarrow> (public_key, sr_error) result" where
  "execution_public_key C p = from_storage (get_stored_public_key C execution_key (internal_store p))"

definition pss_sign ::
    "crypto \<Rightarrow> string \<Rightarrow> public_key \<Rightarrow> crypto_hash \<Rightarrow> persistent_safety_storage \<Rightarrow> (signature, sr_error) result" where
  "pss_sign C name version msg p = from_storage (sign_using_version C name version msg (internal_store p))"

text \<open>
  With the cache disabled the function reads \<open>return self.internal_store.get(SAFETY_DATA).map(|v|
  v.value)?;\<close>. The \<open>?\<close> leaves a value of the return type, so the value is deserialized as a
  \<open>Result<SafetyData, Error>\<close>: no stored value has that type.
\<close>

definition as_safety_data_result :: "stored_value \<Rightarrow> (safety_data, sr_error) result option" where
  "as_safety_data_result v = None"

definition pss_safety_data :: "(persistent_safety_storage, safety_data, sr_error) stateful" where
  "pss_safety_data p =
     (if \<not> enable_cached_safety_data p
      then (bind_result (from_storage (kv_get as_safety_data_result safety_data_key (internal_store p))) (\<lambda>r. r), p)
      else (case cached_safety_data p of
              Some d \<Rightarrow> (Ok d, p)
            | None \<Rightarrow> (case from_storage (kv_get as_safety_data safety_data_key (internal_store p)) of
                Ok d \<Rightarrow> (Ok d, p\<lparr>cached_safety_data := Some d\<rparr>)
              | Err e \<Rightarrow> (Err e, p)
              | Panic \<Rightarrow> (Panic, p))))"

definition pss_set_safety_data :: "safety_data \<Rightarrow> (persistent_safety_storage, unit, sr_error) stateful" where
  "pss_set_safety_data d p =
     (case kv_set safety_data_key (SV_SafetyData d) (internal_store p) of
        (Ok u, st) \<Rightarrow> (Ok (), p\<lparr>internal_store := st, cached_safety_data := Some d\<rparr>)
      | (Err e, st) \<Rightarrow> (Err (SecureStorageUnexpectedError e), p\<lparr>internal_store := st, cached_safety_data := None\<rparr>)
      | (Panic, st) \<Rightarrow> (Panic, p\<lparr>internal_store := st\<rparr>))"

definition pss_waypoint :: "persistent_safety_storage \<Rightarrow> (waypoint, sr_error) result" where
  "pss_waypoint p = from_storage (kv_get as_waypoint waypoint_key (internal_store p))"

definition pss_set_waypoint :: "waypoint \<Rightarrow> (persistent_safety_storage, unit, sr_error) stateful" where
  "pss_set_waypoint w p =
     (case kv_set waypoint_key (SV_Waypoint w) (internal_store p) of
        (r, st) \<Rightarrow> (from_storage r, p\<lparr>internal_store := st\<rparr>))"

definition initialize_keys_and_accounts ::
    "author \<Rightarrow> private_key \<Rightarrow> private_key \<Rightarrow> (storage, unit, sr_error) stateful" where
  "initialize_keys_and_accounts a ck ek st =
     (case import_private_key consensus_key ck st of
        (Err (KeyAlreadyExists k), st1) \<Rightarrow> (Ok (), st1)
      | (_, st1) \<Rightarrow>
          (case import_private_key execution_key ek st1 of
             (Ok u, st2) \<Rightarrow> (case kv_set owner_account (SV_Author a) st2 of (r, st3) \<Rightarrow> (from_storage r, st3))
           | (r, st2) \<Rightarrow> (from_storage r, st2)))"

definition pss_initialize ::
    "storage \<Rightarrow> author \<Rightarrow> private_key \<Rightarrow> private_key \<Rightarrow> waypoint \<Rightarrow> bool
     \<Rightarrow> (persistent_safety_storage, sr_error) result" where
  "pss_initialize st a ck ek w cache =
     (case initialize_keys_and_accounts a ck ek st of
        (Ok u, st1) \<Rightarrow>
          (let d = safety_data_new 1 0 0 0 None;
               p = \<lparr>enable_cached_safety_data = cache, cached_safety_data = Some d, internal_store = st1\<rparr>
           in case pss_set_safety_data d p of
                (Ok u, p1) \<Rightarrow> (case pss_set_waypoint w p1 of (Ok u, p2) \<Rightarrow> Ok p2 | (_, p2) \<Rightarrow> Panic)
              | (_, p1) \<Rightarrow> Panic)
      | (_, st1) \<Rightarrow> Panic)"

section \<open>ConfigurableValidatorSigner\<close>

record validator_handle =
  vh_author :: account_address
  vh_key_version :: public_key

datatype configurable_validator_signer = Signer validator_signer | Handle validator_handle

fun cvs_author :: "configurable_validator_signer \<Rightarrow> account_address" where
  "cvs_author (Signer s) = vs_author s"
| "cvs_author (Handle h) = vh_author h"

fun cvs_public_key :: "crypto \<Rightarrow> configurable_validator_signer \<Rightarrow> public_key" where
  "cvs_public_key C (Signer s) = signer_public_key C s"
| "cvs_public_key C (Handle h) = vh_key_version h"

fun cvs_sign ::
    "crypto \<Rightarrow> configurable_validator_signer \<Rightarrow> crypto_hash \<Rightarrow> persistent_safety_storage
     \<Rightarrow> (signature, sr_error) result" where
  "cvs_sign C (Signer s) msg p = Ok (signer_sign C s msg)"
| "cvs_sign C (Handle h) msg p = pss_sign C consensus_key (vh_key_version h) msg p"

section \<open>The contract of the persistent safety data\<close>

text \<open>
  What SafetyRules relies on: a load returns what is persisted, a successful store is persisted, a
  failed store leaves what was persisted. The cache is invisible.
\<close>

locale persistent_cell =
  fixes inv :: "'s \<Rightarrow> bool"
    and persisted :: "'s \<Rightarrow> 'd option"
    and load :: "('s, 'd, 'e) stateful"
    and store :: "'d \<Rightarrow> ('s, unit, 'e) stateful"
  assumes load_keeps: "inv s \<Longrightarrow> load s = (r, t) \<Longrightarrow> inv t \<and> persisted t = persisted s"
    and load_Ok: "inv s \<Longrightarrow> load s = (Ok d, t) \<Longrightarrow> persisted s = Some d"
    and store_keeps: "inv s \<Longrightarrow> store d s = (q, t) \<Longrightarrow> inv t"
    and store_Ok: "inv s \<Longrightarrow> store d s = (Ok u, t) \<Longrightarrow> persisted t = Some d"
    and store_fail: "inv s \<Longrightarrow> store d s = (q, t) \<Longrightarrow> q \<noteq> Ok () \<Longrightarrow> persisted t = persisted s"
begin

lemma load_after_store:
  "inv s \<Longrightarrow> store d s = (Ok u, t) \<Longrightarrow> load t = (Ok d', t') \<Longrightarrow> d' = d"
  using store_keeps store_Ok load_Ok by (metis option.inject)

lemma store_cases:
  "inv s \<Longrightarrow> store d s = (r, t) \<Longrightarrow> inv t \<and> persisted t = (if r = Ok () then Some d else persisted s)"
  using store_keeps store_Ok store_fail by (metis (full_types))

end

definition pss_persisted :: "persistent_safety_storage \<Rightarrow> safety_data option" where
  "pss_persisted p = Option.bind (st_data (internal_store p) safety_data_key) as_safety_data"

definition cache_ok :: "persistent_safety_storage \<Rightarrow> bool" where
  "cache_ok p \<longleftrightarrow> cached_safety_data p = None \<or> cached_safety_data p = pss_persisted p"

lemma from_storage_Ok_iff [ok_simps]: "from_storage r = Ok a \<longleftrightarrow> r = Ok a"
  by (cases r rule: from_storage.cases) auto

lemma kv_get_Ok_iff [ok_simps]:
  "kv_get dec key st = Ok a \<longleftrightarrow> st_get_fault st = None \<and> Option.bind (st_data st key) dec = Some a"
  by (auto simp: kv_get_def split: option.splits)

lemma kv_set_cases:
  "kv_set key v st = (r, st') \<Longrightarrow>
     (r = Ok () \<and> st' = st\<lparr>st_data := (st_data st)(key \<mapsto> v)\<rparr>) \<or> ((\<exists>e. r = Err e) \<and> st' = st)"
  by (auto simp: kv_set_def split: option.splits)

lemma as_safety_data_result_fails: "Option.bind x as_safety_data_result \<noteq> Some r"
  by (cases x) (simp_all add: as_safety_data_result_def)

interpretation pss: persistent_cell cache_ok pss_persisted pss_safety_data pss_set_safety_data
proof
  fix p q d and u :: unit and r :: "(safety_data, sr_error) result" and r' :: "(unit, sr_error) result"
  show "cache_ok q \<and> pss_persisted q = pss_persisted p" if "cache_ok p" "pss_safety_data p = (r, q)"
    using that by (auto simp: pss_safety_data_def cache_ok_def pss_persisted_def ok_simps
        split: if_splits option.splits result.splits)
  show "pss_persisted p = Some d" if "cache_ok p" "pss_safety_data p = (Ok d, q)"
    using that by (auto simp: pss_safety_data_def cache_ok_def as_safety_data_result_fails ok_simps pss_persisted_def
        split: if_splits option.splits result.splits)
  show "cache_ok q" if "cache_ok p" "pss_set_safety_data d p = (r', q)"
    using that by (auto simp: pss_set_safety_data_def cache_ok_def pss_persisted_def split: prod.splits result.splits
        dest!: kv_set_cases)
  show "pss_persisted q = Some d" if "cache_ok p" "pss_set_safety_data d p = (Ok u, q)"
    using that by (auto simp: pss_set_safety_data_def pss_persisted_def split: prod.splits result.splits
        dest!: kv_set_cases)
  show "pss_persisted q = pss_persisted p"
    if "cache_ok p" "pss_set_safety_data d p = (r', q)" "r' \<noteq> Ok ()"
    using that by (auto simp: pss_set_safety_data_def pss_persisted_def split: prod.splits result.splits
        dest!: kv_set_cases)
qed

lemma pss_set_waypoint_keeps:
  assumes "pss_set_waypoint w p = (r, q)"
  shows "pss_persisted q = pss_persisted p" and "cache_ok q = cache_ok p"
  using assms by (auto simp: pss_set_waypoint_def pss_persisted_def cache_ok_def storage_keys
      split: prod.splits dest!: kv_set_cases)

text \<open>With the cache switched off the safety data cannot be read, whatever is stored.\<close>

lemma uncached_safety_data_fails:
  assumes "\<not> enable_cached_safety_data p"
  shows "fst (pss_safety_data p) \<noteq> Ok d"
  using assms by (auto simp: pss_safety_data_def as_safety_data_result_fails ok_simps)

end
