(* ===== verification/Safety_Rules.thy ===== *)
theory Safety_Rules
  imports Safety_Storage
begin

text \<open>
  \<open>consensus/safety-rules/src/safety_rules.rs\<close> and \<open>safety_rules_2chain.rs\<close>: the component that
  decides what a validator signs. Every method is a state transformer on the record
  \<open>safety_rules\<close>; the local variable \<open>safety_data\<close> of a method is the value it carries until
  \<open>set_safety_data\<close> persists it. \<open>now\<close> is the wall clock read by \<open>Block::verify_well_formed\<close>.
  The logging wrapper \<open>run_and_log\<close> of the public interface passes the result through.
\<close>

record safety_rules =
  sr_persistent_storage :: persistent_safety_storage
  sr_execution_public_key :: "public_key option"
  sr_export_consensus_key :: bool
  sr_validator_signer :: "configurable_validator_signer option"
  sr_epoch_state :: "epoch_state option"

type_synonym 'a sr_method = "(safety_rules, 'a, sr_error) stateful"

definition on_storage :: "(persistent_safety_storage, 'a, sr_error) stateful \<Rightarrow> 'a sr_method" where
  "on_storage m s = (case m (sr_persistent_storage s) of (r, p) \<Rightarrow> (r, s\<lparr>sr_persistent_storage := p\<rparr>))"

definition next_round :: "round \<Rightarrow> (round, sr_error) result" where
  "next_round r = ok_or (IncorrectRound r) (checked_add r 1)"

definition sr_new :: "crypto \<Rightarrow> persistent_safety_storage \<Rightarrow> bool \<Rightarrow> bool \<Rightarrow> (safety_rules, sr_error) result" where
  "sr_new C p verify_vote_proposal_signature export_key =
     bind_result (if verify_vote_proposal_signature
                  then (case execution_public_key C p of Ok k \<Rightarrow> Ok (Some k) | _ \<Rightarrow> Panic)
                  else Ok None) (\<lambda>k.
       Ok \<lparr>sr_persistent_storage = p, sr_execution_public_key = k, sr_export_consensus_key = export_key,
           sr_validator_signer = None, sr_epoch_state = None\<rparr>)"

section \<open>Checks and helpers\<close>

definition sr_signer :: "safety_rules \<Rightarrow> (configurable_validator_signer, sr_error) result" where
  "sr_signer s = ok_or (NotInitialized ''validator_signer'') (sr_validator_signer s)"

definition sr_epoch_state_ref :: "safety_rules \<Rightarrow> (epoch_state, sr_error) result" where
  "sr_epoch_state_ref s = ok_or (NotInitialized ''epoch_state'') (sr_epoch_state s)"

definition sr_sign :: "crypto \<Rightarrow> crypto_hash \<Rightarrow> safety_rules \<Rightarrow> (signature, sr_error) result" where
  "sr_sign C msg s =
     bind_result (sr_signer s) (\<lambda>signer. cvs_sign C signer msg (sr_persistent_storage s))"

definition verify_epoch :: "u64 \<Rightarrow> safety_data \<Rightarrow> (unit, sr_error) result" where
  "verify_epoch e d = (if e \<noteq> sd_epoch d then Err (IncorrectEpoch e (sd_epoch d)) else Ok ())"

definition sr_verify_qc :: "crypto \<Rightarrow> quorum_cert \<Rightarrow> safety_rules \<Rightarrow> (unit, sr_error) result" where
  "sr_verify_qc C qc s =
     bind_result (sr_epoch_state_ref s) (\<lambda>es. map_err InvalidQuorumCertificate (qc_verify C (es_verifier es) qc))"

definition sr_verify_tc :: "crypto \<Rightarrow> two_chain_timeout_certificate \<Rightarrow> safety_rules \<Rightarrow> (unit, sr_error) result" where
  "sr_verify_tc C tc s =
     bind_result (sr_epoch_state_ref s) (\<lambda>es. map_err InvalidTimeoutCertificate (tctc_verify C (es_verifier es) tc))"

definition verify_author :: "author option \<Rightarrow> safety_rules \<Rightarrow> (unit, sr_error) result" where
  "verify_author a s =
     bind_result (sr_signer s) (\<lambda>signer.
     bind_result (ok_or (InvalidProposal (Msg ''No author found in the proposal'')) a) (\<lambda>author.
       if cvs_author signer \<noteq> author
       then Err (InvalidProposal (Msg ''Proposal author is not validator signer!'')) else Ok ()))"

definition verify_execution_signature ::
    "crypto \<Rightarrow> maybe_signed_vote_proposal \<Rightarrow> safety_rules \<Rightarrow> (unit, sr_error) result" where
  "verify_execution_signature C mvp s =
     (case sr_execution_public_key s of
        None \<Rightarrow> Ok ()
      | Some pk \<Rightarrow>
          bind_result (ok_or VoteProposalSignatureNotFound (msvp_signature mvp)) (\<lambda>sig.
            if verify_struct_signature C pk (H_VoteProposal (msvp_vote_proposal mvp)) sig then Ok ()
            else Err (InternalError (Msg ''signature verification failed''))))"

definition verify_proposal :: "crypto \<Rightarrow> u64 \<Rightarrow> maybe_signed_vote_proposal \<Rightarrow> vote_data sr_method" where
  "verify_proposal C now mvp =
     (let vp = msvp_vote_proposal mvp; b = vp_block vp in
      sbind (sget (verify_execution_signature C mvp)) (\<lambda>_.
      sbind (on_storage pss_safety_data) (\<lambda>d.
      sbind (slift (verify_epoch (b_epoch b) d)) (\<lambda>_.
      sbind (sget (sr_verify_qc C (b_quorum_cert b))) (\<lambda>_.
      sbind (sget sr_epoch_state_ref) (\<lambda>es.
      sbind (slift (map_err InvalidProposal (validate_signature C (es_verifier es) b))) (\<lambda>_.
      sbind (slift (map_err InvalidProposal (verify_well_formed now b))) (\<lambda>_.
        slift (map_err InvalidAccumulatorExtension (gen_vote_data C vp))))))))))"

text \<open>\<open>observe_qc\<close> and the two voting rules update the local copy of the safety data.\<close>

definition observe_qc :: "quorum_cert \<Rightarrow> safety_data \<Rightarrow> safety_data" where
  "observe_qc qc d =
     (let one_chain = bi_round (certified_block qc); two_chain = bi_round (parent_block qc);
          d1 = (if sd_one_chain_round d < one_chain then d\<lparr>sd_one_chain_round := one_chain\<rparr> else d)
      in if sd_preferred_round d1 < two_chain then d1\<lparr>sd_preferred_round := two_chain\<rparr> else d1)"

definition verify_and_update_preferred_round :: "quorum_cert \<Rightarrow> safety_data \<Rightarrow> (safety_data, sr_error) result" where
  "verify_and_update_preferred_round qc d =
     (let one_chain_round = bi_round (certified_block qc) in
      if one_chain_round < sd_preferred_round d
      then Err (IncorrectPreferredRound one_chain_round (sd_preferred_round d))
      else Ok (observe_qc qc d))"

definition verify_and_update_last_vote_round :: "round \<Rightarrow> safety_data \<Rightarrow> (safety_data, sr_error) result" where
  "verify_and_update_last_vote_round r d =
     (if r \<le> sd_last_voted_round d then Err (IncorrectLastVotedRound r (sd_last_voted_round d))
      else Ok (d\<lparr>sd_last_voted_round := r\<rparr>))"

definition construct_ledger_info :: "block \<Rightarrow> hash_value \<Rightarrow> (ledger_info, sr_error) result" where
  "construct_ledger_info b h =
     (let block2 = b_round b; block1 = bi_round (certified_block (b_quorum_cert b));
          block0 = bi_round (parent_block (b_quorum_cert b)) in
      bind_result (next_round block0) (\<lambda>n0.
      bind_result (if n0 = block1
                   then bind_result (next_round block1) (\<lambda>n1. Ok (n1 = block2)) else Ok False) (\<lambda>commit.
        Ok (ledger_info_new (if commit then parent_block (b_quorum_cert b) else block_info_empty) h))))"

definition construct_ledger_info_2chain :: "block \<Rightarrow> hash_value \<Rightarrow> (ledger_info, sr_error) result" where
  "construct_ledger_info_2chain b h =
     (let block1 = b_round b; block0 = bi_round (certified_block (b_quorum_cert b)) in
      bind_result (next_round block0) (\<lambda>n0.
        Ok (ledger_info_new (if n0 = block1 then certified_block (b_quorum_cert b) else block_info_empty) h)))"

definition safe_to_timeout ::
    "two_chain_timeout \<Rightarrow> two_chain_timeout_certificate option \<Rightarrow> safety_data \<Rightarrow> (unit, sr_error) result" where
  "safe_to_timeout t maybe_tc d =
     (let r = tct_round t; qc_round = tct_hqc_round t;
          tc_round = (case maybe_tc of None \<Rightarrow> 0 | Some tc \<Rightarrow> tctc_round tc) in
      bind_result (next_round qc_round) (\<lambda>nq.
      bind_result (if r = nq then Ok True else bind_result (next_round tc_round) (\<lambda>nt. Ok (r = nt))) (\<lambda>ok.
        if ok \<and> sd_one_chain_round d \<le> qc_round then Ok ()
        else Err (NotSafeToTimeout r qc_round tc_round (sd_one_chain_round d)))))"

definition safe_to_vote ::
    "block \<Rightarrow> two_chain_timeout_certificate option \<Rightarrow> (unit, sr_error) result" where
  "safe_to_vote b maybe_tc =
     (let r = b_round b; qc_round = bi_round (certified_block (b_quorum_cert b));
          tc_round = (case maybe_tc of None \<Rightarrow> 0 | Some tc \<Rightarrow> tctc_round tc);
          hqc_round = (case maybe_tc of None \<Rightarrow> 0 | Some tc \<Rightarrow> highest_hqc_round tc) in
      bind_result (next_round qc_round) (\<lambda>nq.
      bind_result (if r = nq then Ok True
                   else bind_result (next_round tc_round) (\<lambda>nt. Ok (r = nt \<and> hqc_round \<le> qc_round))) (\<lambda>ok.
        if ok then Ok () else Err (NotSafeToVote r qc_round tc_round hqc_round))))"

definition verify_optional_tc :: "crypto \<Rightarrow> two_chain_timeout_certificate option \<Rightarrow> unit sr_method" where
  "verify_optional_tc C maybe_tc =
     (case maybe_tc of None \<Rightarrow> slift (Ok ()) | Some tc \<Rightarrow> sget (sr_verify_tc C tc))"

section \<open>2-chain methods\<close>

definition guarded_sign_timeout_with_qc ::
    "crypto \<Rightarrow> two_chain_timeout \<Rightarrow> two_chain_timeout_certificate option \<Rightarrow> signature sr_method" where
  "guarded_sign_timeout_with_qc C t maybe_tc =
     sbind (sget sr_signer) (\<lambda>_.
     sbind (on_storage pss_safety_data) (\<lambda>d.
     sbind (slift (verify_epoch (tct_epoch t) d)) (\<lambda>_.
     sbind (sget (sr_verify_qc C (tct_quorum_cert t))) (\<lambda>_.
     sbind (verify_optional_tc C maybe_tc) (\<lambda>_.
     sbind (slift (safe_to_timeout t maybe_tc d)) (\<lambda>_.
     sbind (slift (if tct_round t < sd_last_voted_round d
                   then Err (IncorrectLastVotedRound (tct_round t) (sd_last_voted_round d)) else Ok ())) (\<lambda>_.
     sbind (if sd_last_voted_round d < tct_round t
            then sbind (slift (verify_and_update_last_vote_round (tct_round t) d)) (\<lambda>d'.
                   on_storage (pss_set_safety_data d'))
            else slift (Ok ())) (\<lambda>_.
       sget (sr_sign C (H_TimeoutSigningRepr (signing_format t)))))))))))"

definition sign_and_save_vote :: "crypto \<Rightarrow> vote_data \<Rightarrow> ledger_info \<Rightarrow> safety_data \<Rightarrow> vote sr_method" where
  "sign_and_save_vote C vd li d =
     sbind (sget sr_signer) (\<lambda>signer.
     sbind (sget (sr_sign C (H_LedgerInfo li))) (\<lambda>sig.
       let v = vote_new_with_signature vd (cvs_author signer) li sig in
       sbind (on_storage (pss_set_safety_data (d\<lparr>sd_last_vote := Some v\<rparr>))) (\<lambda>_. slift (Ok v))))"

definition vote_two_chain_rules ::
    "crypto \<Rightarrow> block \<Rightarrow> two_chain_timeout_certificate option \<Rightarrow> vote_data \<Rightarrow> safety_data \<Rightarrow> vote sr_method" where
  "vote_two_chain_rules C b maybe_tc vd d =
     sbind (slift (verify_and_update_last_vote_round (bd_round (b_block_data b)) d)) (\<lambda>d1.
     sbind (slift (safe_to_vote b maybe_tc)) (\<lambda>_.
     sbind (sget sr_signer) (\<lambda>_.
     sbind (slift (construct_ledger_info_2chain b (hash_of C (H_VoteData vd)))) (\<lambda>li.
       sign_and_save_vote C vd li (observe_qc (b_quorum_cert b) d1)))))"

definition guarded_construct_and_sign_vote_two_chain ::
    "crypto \<Rightarrow> u64 \<Rightarrow> maybe_signed_vote_proposal \<Rightarrow> two_chain_timeout_certificate option \<Rightarrow> vote sr_method" where
  "guarded_construct_and_sign_vote_two_chain C now mvp maybe_tc =
     (let b = vp_block (msvp_vote_proposal mvp) in
      sbind (sget sr_signer) (\<lambda>_.
      sbind (verify_proposal C now mvp) (\<lambda>vd.
      sbind (verify_optional_tc C maybe_tc) (\<lambda>_.
      sbind (on_storage pss_safety_data) (\<lambda>d.
        case sd_last_vote d of
          Some v \<Rightarrow> if v_round v = b_round b then slift (Ok v) else vote_two_chain_rules C b maybe_tc vd d
        | None \<Rightarrow> vote_two_chain_rules C b maybe_tc vd d)))))"

section \<open>3-chain methods\<close>

definition vote_three_chain_rules :: "crypto \<Rightarrow> block \<Rightarrow> vote_data \<Rightarrow> safety_data \<Rightarrow> vote sr_method" where
  "vote_three_chain_rules C b vd d =
     sbind (slift (verify_and_update_preferred_round (b_quorum_cert b) d)) (\<lambda>d1.
     sbind (slift (verify_and_update_last_vote_round (bd_round (b_block_data b)) d1)) (\<lambda>d2.
     sbind (sget sr_signer) (\<lambda>_.
     sbind (slift (construct_ledger_info b (hash_of C (H_VoteData vd)))) (\<lambda>li.
       sign_and_save_vote C vd li d2))))"

definition guarded_construct_and_sign_vote ::
    "crypto \<Rightarrow> u64 \<Rightarrow> maybe_signed_vote_proposal \<Rightarrow> vote sr_method" where
  "guarded_construct_and_sign_vote C now mvp =
     (let b = vp_block (msvp_vote_proposal mvp) in
      sbind (sget sr_signer) (\<lambda>_.
      sbind (verify_proposal C now mvp) (\<lambda>vd.
      sbind (on_storage pss_safety_data) (\<lambda>d.
        case sd_last_vote d of
          Some v \<Rightarrow> if v_round v = b_round b then slift (Ok v) else vote_three_chain_rules C b vd d
        | None \<Rightarrow> vote_three_chain_rules C b vd d))))"

definition guarded_sign_proposal :: "crypto \<Rightarrow> block_data \<Rightarrow> signature sr_method" where
  "guarded_sign_proposal C bd =
     sbind (sget sr_signer) (\<lambda>_.
     sbind (sget (verify_author (bt_author (bd_block_type bd)))) (\<lambda>_.
     sbind (on_storage pss_safety_data) (\<lambda>d.
     sbind (slift (verify_epoch (bd_epoch bd) d)) (\<lambda>_.
     sbind (slift (if bd_round bd \<le> sd_last_voted_round d
                   then Err (InvalidProposal (Msg ''Proposed round is not higher than last voted round''))
                   else Ok ())) (\<lambda>_.
     sbind (sget (sr_verify_qc C (bd_quorum_cert bd))) (\<lambda>_.
     sbind (slift (verify_and_update_preferred_round (bd_quorum_cert bd) d)) (\<lambda>_.
       sget (sr_sign C (H_BlockData bd)))))))))"

definition guarded_sign_timeout :: "crypto \<Rightarrow> timeout \<Rightarrow> signature sr_method" where
  "guarded_sign_timeout C t =
     sbind (sget sr_signer) (\<lambda>_.
     sbind (on_storage pss_safety_data) (\<lambda>d.
     sbind (slift (verify_epoch (to_epoch t) d)) (\<lambda>_.
     sbind (slift (if to_round t \<le> sd_preferred_round d
                   then Err (IncorrectPreferredRound (to_round t) (sd_preferred_round d)) else Ok ())) (\<lambda>_.
     sbind (slift (if to_round t < sd_last_voted_round d
                   then Err (IncorrectLastVotedRound (to_round t) (sd_last_voted_round d)) else Ok ())) (\<lambda>_.
     sbind (if sd_last_voted_round d < to_round t
            then sbind (slift (verify_and_update_last_vote_round (to_round t) d)) (\<lambda>d'.
                   on_storage (pss_set_safety_data d'))
            else slift (Ok ())) (\<lambda>_.
       sget (sr_sign C (H_Timeout t))))))))"

definition guarded_sign_commit_vote ::
    "crypto \<Rightarrow> ledger_info_with_signatures \<Rightarrow> ledger_info \<Rightarrow> signature sr_method" where
  "guarded_sign_commit_vote C l new_li =
     (let old_li = lis_ledger_info l in
      sbind (sget sr_signer) (\<lambda>_.
      sbind (slift (if \<not> is_ordered_only (li_commit_info old_li)
                    then Err (InvalidOrderedLedgerInfo old_li) else Ok ())) (\<lambda>_.
      sbind (slift (if \<not> match_ordered_only (li_commit_info old_li) (li_commit_info new_li)
                    then Err (InconsistentExecutionResult (li_commit_info old_li) (li_commit_info new_li))
                    else Ok ())) (\<lambda>_.
      sbind (sget sr_epoch_state_ref) (\<lambda>es.
      sbind (slift (map_err (\<lambda>e. InvalidQuorumCertificate (From_Verify_Error e))
               (verify_signatures C (es_verifier es) l))) (\<lambda>_.
        sget (sr_sign C (H_LedgerInfo new_li))))))))"

section \<open>Initialization and inspection\<close>

definition reconcile_key :: "crypto \<Rightarrow> epoch_state \<Rightarrow> author \<Rightarrow> unit sr_method" where
  "reconcile_key C es a s =
     (case get_public_key (es_verifier es) a of
        None \<Rightarrow> (Err (ValidatorNotInSet a), s)
      | Some expected \<Rightarrow>
          if map_option (cvs_public_key C) (sr_validator_signer s) = Some expected then (Ok (), s)
          else if sr_export_consensus_key s
          then (case consensus_key_for_version C expected (sr_persistent_storage s) of
                  Ok k \<Rightarrow> (Ok (), s\<lparr>sr_validator_signer := Some (Signer \<lparr>vs_author = a, vs_private_key = k\<rparr>)\<rparr>)
                | Err (SecureStorageMissingDataError e) \<Rightarrow> (Err (ValidatorKeyNotFound (Storage_Text e)), s)
                | Err e \<Rightarrow> (Err e, s)
                | Panic \<Rightarrow> (Panic, s))
          else (let s' = s\<lparr>sr_validator_signer := Some (Handle \<lparr>vh_author = a, vh_key_version = expected\<rparr>)\<rparr>
                in case sr_sign C (H_Timeout \<lparr>to_epoch = 0, to_round = 0\<rparr>) s' of
                     Ok sig \<Rightarrow> (Ok (), s')
                   | Err e \<Rightarrow> (Err (ValidatorKeyNotFound (Error_Text e)), s')
                   | Panic \<Rightarrow> (Panic, s')))"

definition reset_signer_on_error :: "unit sr_method \<Rightarrow> unit sr_method" where
  "reset_signer_on_error m s =
     (case m s of
        (Ok u, t) \<Rightarrow> (Ok u, t)
      | (Err e, t) \<Rightarrow> (Err e, t\<lparr>sr_validator_signer := None\<rparr>)
      | (Panic, t) \<Rightarrow> (Panic, t))"

definition guarded_initialize :: "crypto \<Rightarrow> epoch_change_proof \<Rightarrow> unit sr_method" where
  "guarded_initialize C ecp =
     sbind (sget (\<lambda>s. pss_waypoint (sr_persistent_storage s))) (\<lambda>w.
     sbind (slift (map_err InvalidEpochChangeProof (ecp_verify C ecp (Dyn_Waypoint w)))) (\<lambda>last_li.
     let li = lis_ledger_info last_li in
     sbind (slift (ok_or InvalidLedgerInfo (li_next_epoch_state li))) (\<lambda>es.
     sbind (slift (map_err InternalError (waypoint_new_epoch_boundary C li))) (\<lambda>new_w.
     sbind (if wp_version w < wp_version new_w then on_storage (pss_set_waypoint new_w) else slift (Ok ())) (\<lambda>_.
     sbind (on_storage pss_safety_data) (\<lambda>d.
     sbind (if es_epoch es < sd_epoch d
            then slift (Err (WaypointOutOfDate (wp_version w) (wp_version new_w) (sd_epoch d) (es_epoch es)))
            else if sd_epoch d < es_epoch es
            then on_storage (pss_set_safety_data (safety_data_new (es_epoch es) 0 0 0 None))
            else slift (Ok ())) (\<lambda>_.
     sbind (sput (\<lambda>s. s\<lparr>sr_epoch_state := Some es\<rparr>)) (\<lambda>_.
     sbind (sget (\<lambda>s. pss_author (sr_persistent_storage s))) (\<lambda>a.
       reset_signer_on_error (reconcile_key C es a))))))))))"

record consensus_state =
  cs_safety_data :: safety_data
  cs_waypoint :: waypoint
  cs_in_validator_set :: bool

definition guarded_consensus_state :: "consensus_state sr_method" where
  "guarded_consensus_state =
     sbind (sget (\<lambda>s. pss_waypoint (sr_persistent_storage s))) (\<lambda>_.
     sbind (on_storage pss_safety_data) (\<lambda>_.
     sbind (sget (\<lambda>s. pss_author (sr_persistent_storage s))) (\<lambda>_.
     sbind (on_storage pss_safety_data) (\<lambda>d.
     sbind (sget (\<lambda>s. pss_waypoint (sr_persistent_storage s))) (\<lambda>w.
     sbind (sget (\<lambda>s. Ok (is_ok (sr_signer s)))) (\<lambda>b.
       slift (Ok \<lparr>cs_safety_data = d, cs_waypoint = w, cs_in_validator_set = b\<rparr>)))))))"

section \<open>Persisted data and frame\<close>

definition sr_inv :: "safety_rules \<Rightarrow> bool" where
  "sr_inv s \<longleftrightarrow> cache_ok (sr_persistent_storage s)"

definition sr_persisted :: "safety_rules \<Rightarrow> safety_data option" where
  "sr_persisted s = pss_persisted (sr_persistent_storage s)"

definition sr_env :: "safety_rules \<Rightarrow>
    public_key option \<times> bool \<times> configurable_validator_signer option \<times> epoch_state option" where
  "sr_env s = (sr_execution_public_key s, sr_export_consensus_key s, sr_validator_signer s, sr_epoch_state s)"

lemma on_storage_eq:
  "on_storage m s = (r, t) \<longleftrightarrow>
     (\<exists>p. m (sr_persistent_storage s) = (r, p) \<and> t = s\<lparr>sr_persistent_storage := p\<rparr>)"
  by (auto simp: on_storage_def split: prod.splits)

interpretation sr: persistent_cell sr_inv sr_persisted
  "on_storage pss_safety_data" "\<lambda>d. on_storage (pss_set_safety_data d)"
proof
  fix s t d and u :: unit and r :: "(safety_data, sr_error) result" and q :: "(unit, sr_error) result"
  show "sr_inv t \<and> sr_persisted t = sr_persisted s" if "sr_inv s" "on_storage pss_safety_data s = (r, t)"
    using that pss.load_keeps by (auto simp: on_storage_eq sr_inv_def sr_persisted_def)
  show "sr_persisted s = Some d" if "sr_inv s" "on_storage pss_safety_data s = (Ok d, t)"
    using that pss.load_Ok by (auto simp: on_storage_eq sr_inv_def sr_persisted_def)
  show "sr_inv t" if "sr_inv s" "on_storage (pss_set_safety_data d) s = (q, t)"
    using that pss.store_keeps by (auto simp: on_storage_eq sr_inv_def)
  show "sr_persisted t = Some d" if "sr_inv s" "on_storage (pss_set_safety_data d) s = (Ok u, t)"
    using that pss.store_Ok by (auto simp: on_storage_eq sr_inv_def sr_persisted_def)
  show "sr_persisted t = sr_persisted s"
    if "sr_inv s" "on_storage (pss_set_safety_data d) s = (q, t)" "q \<noteq> Ok ()"
    using that pss.store_fail by (auto simp: on_storage_eq sr_inv_def sr_persisted_def)
qed

lemma on_storage_env: "on_storage m s = (r, t) \<Longrightarrow> sr_env t = sr_env s"
  by (auto simp: on_storage_eq sr_env_def)

text \<open>A method that at most fills the cache.\<close>

definition quiet :: "safety_rules \<Rightarrow> safety_rules \<Rightarrow> bool" where
  "quiet s t \<longleftrightarrow> (sr_inv s \<longrightarrow> sr_inv t \<and> sr_persisted t = sr_persisted s) \<and> sr_env t = sr_env s"

lemma quiet_trans: "transp quiet"
  by (auto simp: quiet_def transp_def)

lemma quiet_refl: "reflp quiet"
  by (auto simp: quiet_def reflp_def)

lemma quiet_load: "keeps quiet (on_storage pss_safety_data)"
  unfolding keeps_def quiet_def
  by (metis on_storage_env prod.collapse sr.load_keeps)

lemmas quiet_rules [keeps_intros] =
  keeps_sbind [OF quiet_trans] keeps_slift [OF quiet_refl] keeps_sget [OF quiet_refl] quiet_load

lemma keeps_verify_proposal [keeps_intros]: "keeps quiet (verify_proposal C now mvp)"
  unfolding verify_proposal_def Let_def by (intro keeps_intros)

lemma keeps_verify_optional_tc [keeps_intros]: "keeps quiet (verify_optional_tc C tc)"
  by (cases tc) (simp_all add: verify_optional_tc_def keeps_intros)

lemma keeps_sign_proposal: "keeps quiet (guarded_sign_proposal C bd)"
  unfolding guarded_sign_proposal_def by (intro keeps_intros)

lemma keeps_sign_commit_vote: "keeps quiet (guarded_sign_commit_vote C l li)"
  unfolding guarded_sign_commit_vote_def Let_def by (intro keeps_intros)

lemma keeps_consensus_state: "keeps quiet guarded_consensus_state"
  unfolding guarded_consensus_state_def by (intro keeps_intros)

section \<open>The voting rules\<close>

lemma next_round_Ok_iff [ok_simps]: "next_round r = Ok n \<longleftrightarrow> n = r + 1 \<and> unat r + 1 < 2 ^ 64"
  by (auto simp: next_round_def checked_add_def ok_simps split: if_splits)

lemma safe_to_vote_Ok:
  assumes "safe_to_vote b maybe_tc = Ok ()"
  shows "unat (b_round b) = unat (bi_round (certified_block (b_quorum_cert b))) + 1 \<or>
    (case maybe_tc of None \<Rightarrow> unat (b_round b) = 1
     | Some tc \<Rightarrow> unat (b_round b) = unat (tctc_round tc) + 1 \<and>
         highest_hqc_round tc \<le> bi_round (certified_block (b_quorum_cert b)))"
  using assms
  by (auto simp: safe_to_vote_def Let_def ok_simps unat_word_ariths split: if_splits option.splits)

lemma safe_to_timeout_Ok:
  assumes "safe_to_timeout t maybe_tc d = Ok ()"
  shows "sd_one_chain_round d \<le> tct_hqc_round t"
    and "unat (tct_round t) = unat (tct_hqc_round t) + 1 \<or>
      unat (tct_round t) = (case maybe_tc of None \<Rightarrow> 0 | Some tc \<Rightarrow> unat (tctc_round tc)) + 1"
  using assms
  by (auto simp: safe_to_timeout_def Let_def ok_simps unat_word_ariths split: if_splits option.splits)

lemma construct_ledger_info_2chain_Ok:
  assumes "construct_ledger_info_2chain b h = Ok li"
  shows "li_consensus_data_hash li = h"
    and "li_commit_info li =
      (if unat (b_round b) = unat (bi_round (certified_block (b_quorum_cert b))) + 1
       then certified_block (b_quorum_cert b) else block_info_empty)"
  using assms
  by (auto simp: construct_ledger_info_2chain_def Let_def ok_simps ledger_info_new_def unat_word_ariths
      word_unat_eq_iff)

lemma observe_qc_simps [simp]:
  "sd_epoch (observe_qc qc d) = sd_epoch d"
  "sd_last_voted_round (observe_qc qc d) = sd_last_voted_round d"
  "sd_last_vote (observe_qc qc d) = sd_last_vote d"
  "sd_one_chain_round (observe_qc qc d) = max (sd_one_chain_round d) (bi_round (certified_block qc))"
  "sd_preferred_round (observe_qc qc d) = max (sd_preferred_round d) (bi_round (parent_block qc))"
  by (auto simp: observe_qc_def Let_def max_def)

lemma verify_epoch_Ok_iff [ok_simps]: "verify_epoch e d = Ok u \<longleftrightarrow> e = sd_epoch d"
  by (auto simp: verify_epoch_def)

lemma update_last_vote_round_Ok_iff [ok_simps]:
  "verify_and_update_last_vote_round r d = Ok d' \<longleftrightarrow>
     sd_last_voted_round d < r \<and> d' = d\<lparr>sd_last_voted_round := r\<rparr>"
  by (auto simp: verify_and_update_last_vote_round_def)

lemma update_preferred_round_Ok_iff [ok_simps]:
  "verify_and_update_preferred_round qc d = Ok d' \<longleftrightarrow>
     sd_preferred_round d \<le> bi_round (certified_block qc) \<and> d' = observe_qc qc d"
  by (auto simp: verify_and_update_preferred_round_def Let_def)

lemma sr_verify_qc_Ok_iff [ok_simps]:
  "sr_verify_qc C qc s = Ok u \<longleftrightarrow>
     (\<exists>es. sr_epoch_state s = Some es \<and> qc_verify C (es_verifier es) qc = Ok ())"
  by (auto simp: sr_verify_qc_def sr_epoch_state_ref_def ok_simps)

lemma sr_verify_tc_Ok_iff [ok_simps]:
  "sr_verify_tc C tc s = Ok u \<longleftrightarrow>
     (\<exists>es. sr_epoch_state s = Some es \<and> tctc_verify C (es_verifier es) tc = Ok ())"
  by (auto simp: sr_verify_tc_def sr_epoch_state_ref_def ok_simps)

lemma verify_optional_tc_Ok_iff [ok_simps]:
  "verify_optional_tc C maybe_tc s = (Ok u, t) \<longleftrightarrow>
     t = s \<and> (\<forall>tc. maybe_tc = Some tc \<longrightarrow>
       (\<exists>es. sr_epoch_state s = Some es \<and> tctc_verify C (es_verifier es) tc = Ok ()))"
  by (cases maybe_tc) (auto simp: verify_optional_tc_def ok_simps)

lemma verify_proposal_Ok:
  assumes inv: "sr_inv s" and run: "verify_proposal C now mvp s = (Ok vd, t)"
  obtains d es where "sr_persisted s = Some d" and "sr_epoch_state s = Some es"
    and "b_epoch (vp_block (msvp_vote_proposal mvp)) = sd_epoch d"
    and "qc_verify C (es_verifier es) (b_quorum_cert (vp_block (msvp_vote_proposal mvp))) = Ok ()"
    and "verify_well_formed now (vp_block (msvp_vote_proposal mvp)) = Ok ()"
    and "gen_vote_data C (msvp_vote_proposal mvp) = Ok vd"
proof -
  let ?b = "vp_block (msvp_vote_proposal mvp)"
  from run obtain d where d: "on_storage pss_safety_data s = (Ok d, t)" and e: "b_epoch ?b = sd_epoch d"
    and qc: "sr_verify_qc C (b_quorum_cert ?b) t = Ok ()" and wf: "verify_well_formed now ?b = Ok ()"
    and vd: "gen_vote_data C (msvp_vote_proposal mvp) = Ok vd"
    by (auto simp: verify_proposal_def Let_def ok_simps)
  have "sr_epoch_state t = sr_epoch_state s" using on_storage_env [OF d] by (simp add: sr_env_def)
  with qc obtain es where "sr_epoch_state s = Some es" "qc_verify C (es_verifier es) (b_quorum_cert ?b) = Ok ()"
    by (auto simp: ok_simps)
  with sr.load_Ok [OF inv d] e wf vd show thesis by (intro that)
qed

section \<open>What a method persists and signs\<close>

lemma sign_and_save_vote_cases:
  assumes inv: "sr_inv s" and run: "sign_and_save_vote C vd li d s = (r, t)"
  shows "sr_inv t \<and> sr_env t = sr_env s \<and>
    ((\<exists>v. r = Ok v \<and> v_vote_data v = vd \<and> v_ledger_info v = li \<and>
        sr_persisted t = Some (d\<lparr>sd_last_vote := Some v\<rparr>)) \<or>
     (\<forall>v. r \<noteq> Ok v) \<and> sr_persisted t = sr_persisted s)"
proof (cases "\<exists>signer sig. sr_signer s = Ok signer \<and> sr_sign C (H_LedgerInfo li) s = Ok sig")
  case False
  with run have "t = s \<and> (\<forall>v. r \<noteq> Ok v)"
    by (auto simp: sign_and_save_vote_def sbind_eq_iff sget_iff)
  with inv show ?thesis by simp
next
  case True
  then obtain signer sig where s: "sr_signer s = Ok signer" "sr_sign C (H_LedgerInfo li) s = Ok sig" by auto
  let ?v = "vote_new_with_signature vd (cvs_author signer) li sig"
  from run s have "sbind (on_storage (pss_set_safety_data (d\<lparr>sd_last_vote := Some ?v\<rparr>))) (\<lambda>_. slift (Ok ?v)) s = (r, t)"
    by (simp add: sign_and_save_vote_def sbind_def sget_def Let_def)
  then obtain q where q: "on_storage (pss_set_safety_data (d\<lparr>sd_last_vote := Some ?v\<rparr>)) s = (q, t)"
    and r: "q = Ok () \<and> r = Ok ?v \<or> q \<noteq> Ok () \<and> (\<forall>v. r \<noteq> Ok v)"
    by (auto simp: sbind_eq_iff slift_iff)
  from sr.store_cases [OF inv q] on_storage_env [OF q] r show ?thesis
    by (auto simp: vote_new_with_signature_def)
qed

lemma vote_two_chain_rules_cases:
  assumes inv: "sr_inv s" and run: "vote_two_chain_rules C b maybe_tc vd d s = (r, t)"
  shows "sr_inv t \<and> sr_env t = sr_env s \<and>
    ((\<exists>v. r = Ok v \<and> v_vote_data v = vd \<and> sd_last_voted_round d < b_round b \<and>
        safe_to_vote b maybe_tc = Ok () \<and>
        construct_ledger_info_2chain b (hash_of C (H_VoteData vd)) = Ok (v_ledger_info v) \<and>
        sr_persisted t = Some ((observe_qc (b_quorum_cert b) (d\<lparr>sd_last_voted_round := b_round b\<rparr>))
           \<lparr>sd_last_vote := Some v\<rparr>)) \<or>
     (\<forall>v. r \<noteq> Ok v) \<and> sr_persisted t = sr_persisted s)"
proof (cases "\<exists>d1 li. verify_and_update_last_vote_round (bd_round (b_block_data b)) d = Ok d1 \<and>
    safe_to_vote b maybe_tc = Ok () \<and> (\<exists>signer. sr_signer s = Ok signer) \<and>
    construct_ledger_info_2chain b (hash_of C (H_VoteData vd)) = Ok li")
  case False
  with run have "t = s \<and> (\<forall>v. r \<noteq> Ok v)"
    by (auto simp: vote_two_chain_rules_def sbind_eq_iff slift_iff sget_iff)
  with inv show ?thesis by simp
next
  case True
  then obtain d1 li signer where h: "verify_and_update_last_vote_round (bd_round (b_block_data b)) d = Ok d1"
    "safe_to_vote b maybe_tc = Ok ()" "sr_signer s = Ok signer"
    "construct_ledger_info_2chain b (hash_of C (H_VoteData vd)) = Ok li" by auto
  with run have "sign_and_save_vote C vd li (observe_qc (b_quorum_cert b) d1) s = (r, t)"
    by (simp add: vote_two_chain_rules_def sbind_def slift_def sget_def)
  from sign_and_save_vote_cases [OF inv this] h show ?thesis by (auto simp: ok_simps b_round_def)
qed

text \<open>The 2-chain vote: what holds of the inputs and of the persisted data when a vote comes out.\<close>

lemma vote_two_chain_Ok:
  assumes inv: "sr_inv s"
    and run: "guarded_construct_and_sign_vote_two_chain C now mvp maybe_tc s = (Ok v, t)"
  defines "b \<equiv> vp_block (msvp_vote_proposal mvp)"
  obtains d es where "sr_persisted s = Some d" and "sr_epoch_state s = Some es"
    and "b_epoch b = sd_epoch d" and "qc_verify C (es_verifier es) (b_quorum_cert b) = Ok ()"
    and "verify_well_formed now b = Ok ()"
    and "\<And>tc. maybe_tc = Some tc \<Longrightarrow> tctc_verify C (es_verifier es) tc = Ok ()"
    and "sd_last_vote d = Some v \<and> v_round v = b_round b \<and> sr_persisted t = Some d \<or>
      gen_vote_data C (msvp_vote_proposal mvp) = Ok (v_vote_data v) \<and>
      sd_last_voted_round d < b_round b \<and> safe_to_vote b maybe_tc = Ok () \<and>
      construct_ledger_info_2chain b (hash_of C (H_VoteData (v_vote_data v))) = Ok (v_ledger_info v) \<and>
      sr_persisted t = Some ((observe_qc (b_quorum_cert b) (d\<lparr>sd_last_voted_round := b_round b\<rparr>))
         \<lparr>sd_last_vote := Some v\<rparr>)"
proof -
  from run obtain vd s1 s2 d2 where p: "verify_proposal C now mvp s = (Ok vd, s1)"
    and tc: "verify_optional_tc C maybe_tc s1 = (Ok (), s1)"
    and ld: "on_storage pss_safety_data s1 = (Ok d2, s2)"
    and rest: "(case sd_last_vote d2 of
          Some w \<Rightarrow> if v_round w = b_round b then slift (Ok w) else vote_two_chain_rules C b maybe_tc vd d2
        | None \<Rightarrow> vote_two_chain_rules C b maybe_tc vd d2) s2 = (Ok v, t)"
    unfolding b_def
    by (auto simp: guarded_construct_and_sign_vote_two_chain_def Let_def sbind_Ok_iff sget_iff verify_optional_tc_Ok_iff)
  from verify_proposal_Ok [OF inv p] obtain d es where
    h: "sr_persisted s = Some d" "sr_epoch_state s = Some es" "b_epoch b = sd_epoch d"
      "qc_verify C (es_verifier es) (b_quorum_cert b) = Ok ()" "verify_well_formed now b = Ok ()"
      "gen_vote_data C (msvp_vote_proposal mvp) = Ok vd"
    unfolding b_def by metis
  have q1: "quiet s s1" using keeps_verify_proposal p by (rule keepsD)
  have q2: "quiet s1 s2" using quiet_load ld by (rule keepsD)
  from q1 q2 inv h have inv2: "sr_inv s2" and p2: "sr_persisted s2 = Some d" and e1: "sr_epoch_state s1 = Some es"
    by (auto simp: quiet_def sr_env_def)
  have "d2 = d" using sr.load_Ok [OF _ ld] q1 inv h(1) by (simp add: quiet_def)
  moreover have "tctc_verify C (es_verifier es) x = Ok ()" if "maybe_tc = Some x" for x
    using tc e1 that by (auto simp: ok_simps)
  moreover have "sd_last_vote d = Some v \<and> v_round v = b_round b \<and> sr_persisted t = Some d \<or>
      gen_vote_data C (msvp_vote_proposal mvp) = Ok (v_vote_data v) \<and>
      sd_last_voted_round d < b_round b \<and> safe_to_vote b maybe_tc = Ok () \<and>
      construct_ledger_info_2chain b (hash_of C (H_VoteData (v_vote_data v))) = Ok (v_ledger_info v) \<and>
      sr_persisted t = Some ((observe_qc (b_quorum_cert b) (d\<lparr>sd_last_voted_round := b_round b\<rparr>))
         \<lparr>sd_last_vote := Some v\<rparr>)"
  proof (cases "\<exists>w. sd_last_vote d = Some w \<and> v_round w = b_round b")
    case True
    with rest \<open>d2 = d\<close> p2 show ?thesis by (auto simp: slift_iff)
  next
    case False
    with rest \<open>d2 = d\<close> have "vote_two_chain_rules C b maybe_tc vd d s2 = (Ok v, t)"
      by (auto split: option.splits)
    from vote_two_chain_rules_cases [OF inv2 this] h(6) show ?thesis by auto
  qed
  ultimately show thesis using h by (intro that)
qed

text \<open>A call that returns no vote persists nothing new.\<close>

lemma vote_two_chain_rules_other:
  assumes "sr_inv s" and "vote_two_chain_rules C b maybe_tc vd d s = (r, t)"
  shows "sr_inv t \<and> sr_env t = sr_env s \<and> ((\<forall>v. r \<noteq> Ok v) \<longrightarrow> sr_persisted t = sr_persisted s)"
  using vote_two_chain_rules_cases [OF assms] by blast

lemma vote_two_chain_other:
  assumes inv: "sr_inv s" and run: "guarded_construct_and_sign_vote_two_chain C now mvp maybe_tc s = (r, t)"
  shows "sr_inv t \<and> sr_env t = sr_env s \<and> ((\<forall>v. r \<noteq> Ok v) \<longrightarrow> sr_persisted t = sr_persisted s)"
proof -
  let ?R = "\<lambda>s t. sr_inv s \<longrightarrow> sr_inv t \<and> sr_env t = sr_env s"
  let ?b = "vp_block (msvp_vote_proposal mvp)"
  define pre where "pre = sbind (sget sr_signer) (\<lambda>_. sbind (verify_proposal C now mvp) (\<lambda>vd.
      sbind (verify_optional_tc C maybe_tc) (\<lambda>_. sbind (on_storage pss_safety_data) (\<lambda>d. slift (Ok (vd, d))))))"
  define post where "post = (\<lambda>(vd, d). case sd_last_vote d of
          Some v \<Rightarrow> if v_round v = b_round ?b then slift (Ok v) else vote_two_chain_rules C ?b maybe_tc vd d
        | None \<Rightarrow> vote_two_chain_rules C ?b maybe_tc vd d)"
  have "guarded_construct_and_sign_vote_two_chain C now mvp maybe_tc s = sbind pre post s"
    unfolding guarded_construct_and_sign_vote_two_chain_def pre_def post_def Let_def
    by (simp add: sbind_def slift_def split: prod.splits result.splits)
  with run have run': "sbind pre post s = (r, t)" by simp
  have q: "keeps quiet pre" unfolding pre_def by (intro keeps_intros)
  have post: "sr_inv t \<and> sr_env t = sr_env u \<and> ((\<forall>v. r \<noteq> Ok v) \<longrightarrow> sr_persisted t = sr_persisted u)"
    if "sr_inv u" "post a u = (r, t)" for a u
  proof -
    obtain vd d where a: "a = (vd, d)" by fastforce
    show ?thesis
    proof (cases "\<exists>w. sd_last_vote d = Some w \<and> v_round w = b_round ?b")
      case True
      with that a show ?thesis by (auto simp: post_def slift_iff)
    next
      case False
      with that a have "vote_two_chain_rules C ?b maybe_tc vd d u = (r, t)"
        by (auto simp: post_def split: option.splits)
      with that(1) show ?thesis by (rule vote_two_chain_rules_other)
    qed
  qed
  from run' show ?thesis
    unfolding sbind_eq_iff
  proof (elim disjE exE conjE)
    fix a u assume "pre s = (Ok a, u)" "post a u = (r, t)"
    with keepsD [OF q] post [of u a] inv show ?thesis by (auto simp: quiet_def)
  next
    fix e assume "pre s = (Err e, t)" "r = Err e"
    with keepsD [OF q] inv show ?thesis by (auto simp: quiet_def)
  next
    assume "pre s = (Panic, t)" "r = Panic"
    with keepsD [OF q] inv show ?thesis by (auto simp: quiet_def)
  qed
qed

lemma sign_timeout_with_qc_cases:
  assumes inv: "sr_inv s" and run: "guarded_sign_timeout_with_qc C to maybe_tc s = (r, t)"
  shows "sr_inv t \<and> sr_env t = sr_env s \<and>
    (sr_persisted t = sr_persisted s \<and> (\<forall>sig. r \<noteq> Ok sig) \<or>
     (\<exists>d. sr_persisted s = Some d \<and> tct_epoch to = sd_epoch d \<and> safe_to_timeout to maybe_tc d = Ok () \<and>
       sd_last_voted_round d \<le> tct_round to \<and>
       sr_persisted t = Some (d\<lparr>sd_last_voted_round := tct_round to\<rparr>)))"
proof -
  define pre where "pre =
     sbind (sget sr_signer) (\<lambda>_.
     sbind (on_storage pss_safety_data) (\<lambda>d.
     sbind (slift (verify_epoch (tct_epoch to) d)) (\<lambda>_.
     sbind (sget (sr_verify_qc C (tct_quorum_cert to))) (\<lambda>_.
     sbind (verify_optional_tc C maybe_tc) (\<lambda>_.
     sbind (slift (safe_to_timeout to maybe_tc d)) (\<lambda>_.
     sbind (slift (if tct_round to < sd_last_voted_round d
                   then Err (IncorrectLastVotedRound (tct_round to) (sd_last_voted_round d)) else Ok ())) (\<lambda>_.
       slift (Ok d))))))))"
  define post where "post = (\<lambda>d. sbind (if sd_last_voted_round d < tct_round to
            then sbind (slift (verify_and_update_last_vote_round (tct_round to) d)) (\<lambda>d'.
                   on_storage (pss_set_safety_data d'))
            else slift (Ok ())) (\<lambda>_. sget (sr_sign C (H_TimeoutSigningRepr (signing_format to)))))"
  have "guarded_sign_timeout_with_qc C to maybe_tc s = sbind pre post s"
    unfolding guarded_sign_timeout_with_qc_def pre_def post_def
    by (simp add: sbind_def slift_def split: prod.splits result.splits)
  with run have run': "sbind pre post s = (r, t)" by simp
  have q: "keeps quiet pre" unfolding pre_def by (intro keeps_intros)
  from run' show ?thesis
    unfolding sbind_eq_iff
  proof (elim disjE exE conjE)
    fix d u assume p: "pre s = (Ok d, u)" and po: "post d u = (r, t)"
    from keepsD [OF q p] inv have u: "sr_inv u" "sr_env u = sr_env s" "sr_persisted u = sr_persisted s"
      by (auto simp: quiet_def)
    from p obtain u' where ld: "on_storage pss_safety_data s = (Ok d, u')"
      and h: "tct_epoch to = sd_epoch d" "safe_to_timeout to maybe_tc d = Ok ()" "sd_last_voted_round d \<le> tct_round to"
      by (auto simp: pre_def sbind_Ok_iff sget_iff slift_iff verify_epoch_Ok_iff split: if_splits)
    have d: "sr_persisted s = Some d" by (rule sr.load_Ok [OF inv ld])
    show ?thesis
    proof (cases "sd_last_voted_round d < tct_round to")
      case True
      let ?d' = "d\<lparr>sd_last_voted_round := tct_round to\<rparr>"
      have up: "verify_and_update_last_vote_round (tct_round to) d = Ok ?d'"
        using True by (simp add: update_last_vote_round_Ok_iff)
      from po True up obtain w where st: "on_storage (pss_set_safety_data ?d') u = (w, t)"
        and rr: "w \<noteq> Ok () \<longrightarrow> (\<forall>sig. r \<noteq> Ok sig)"
        by (auto simp: post_def sbind_eq_iff slift_iff sget_iff)
      from sr.store_cases [OF u(1) st] on_storage_env [OF st] u d h rr show ?thesis by auto
    next
      case False
      with po have "t = u" by (auto simp: post_def sbind_eq_iff slift_iff sget_iff)
      moreover from False h(3) have "d\<lparr>sd_last_voted_round := tct_round to\<rparr> = d" by (cases d) simp
      ultimately show ?thesis using u d h by auto
    qed
  next
    fix e assume "pre s = (Err e, t)" "r = Err e"
    with keepsD [OF q] inv show ?thesis by (auto simp: quiet_def)
  next
    assume "pre s = (Panic, t)" "r = Panic"
    with keepsD [OF q] inv show ?thesis by (auto simp: quiet_def)
  qed
qed

lemma reconcile_key_frame:
  assumes "reset_signer_on_error (reconcile_key C es a) s = (r, t)"
  shows "sr_persistent_storage t = sr_persistent_storage s" and "sr_epoch_state t = sr_epoch_state s"
  using assms
  by (auto simp: reset_signer_on_error_def reconcile_key_def Let_def
      split: option.splits if_splits prod.splits result.splits sr_error.splits)

lemma set_waypoint_quiet: "keeps quiet (on_storage (pss_set_waypoint w))"
  unfolding keeps_def
proof
  fix s
  obtain r t where st: "on_storage (pss_set_waypoint w) s = (r, t)" by fastforce
  then obtain p where "pss_set_waypoint w (sr_persistent_storage s) = (r, p)" "t = s\<lparr>sr_persistent_storage := p\<rparr>"
    by (auto simp: on_storage_eq)
  with pss_set_waypoint_keeps st show "quiet s (snd (on_storage (pss_set_waypoint w) s))"
    by (auto simp: quiet_def sr_inv_def sr_persisted_def sr_env_def)
qed

text \<open>The part of \<open>initialize\<close> before the epoch comparison loads the persisted safety data.\<close>

lemma pre_loads:
  assumes inv: "sr_inv s"
    and run: "sbind (sget (\<lambda>s. pss_waypoint (sr_persistent_storage s))) (\<lambda>w.
     sbind (slift (map_err InvalidEpochChangeProof (ecp_verify C ecp (Dyn_Waypoint w)))) (\<lambda>last_li.
     let li = lis_ledger_info last_li in
     sbind (slift (ok_or InvalidLedgerInfo (li_next_epoch_state li))) (\<lambda>es.
     sbind (slift (map_err InternalError (waypoint_new_epoch_boundary C li))) (\<lambda>new_w.
     sbind (if wp_version w < wp_version new_w then on_storage (pss_set_waypoint new_w) else slift (Ok ())) (\<lambda>_.
     sbind (on_storage pss_safety_data) (\<lambda>d. slift (Ok (w, es, new_w, d)))))))) s = (Ok (w, es, new_w, d), u)"
  shows "sr_persisted s = Some d"
proof -
  from run obtain s1 where s1: "(if wp_version w < wp_version new_w then on_storage (pss_set_waypoint new_w)
      else slift (Ok ())) s = (Ok (), s1)" and ld: "on_storage pss_safety_data s1 = (Ok d, u)"
    by (auto simp: sbind_Ok_iff sget_iff slift_iff Let_def)
  have "quiet s s1"
    using s1 keepsD [OF set_waypoint_quiet] quiet_refl by (auto simp: slift_iff reflp_def split: if_splits)
  with inv sr.load_Ok [OF _ ld] show ?thesis by (simp add: quiet_def)
qed

lemma initialize_cases:
  assumes inv: "sr_inv s" and run: "guarded_initialize C ecp s = (r, t)"
  shows "sr_inv t \<and>
    (sr_persisted t = sr_persisted s \<and> sr_epoch_state t = sr_epoch_state s \<or>
     (\<exists>d es. sr_persisted s = Some d \<and> sr_epoch_state t = Some es \<and> sd_epoch d \<le> es_epoch es \<and>
       sr_persisted t = Some (if sd_epoch d < es_epoch es then safety_data_new (es_epoch es) 0 0 0 None else d)))"
proof -
  define pre where "pre =
     sbind (sget (\<lambda>s. pss_waypoint (sr_persistent_storage s))) (\<lambda>w.
     sbind (slift (map_err InvalidEpochChangeProof (ecp_verify C ecp (Dyn_Waypoint w)))) (\<lambda>last_li.
     let li = lis_ledger_info last_li in
     sbind (slift (ok_or InvalidLedgerInfo (li_next_epoch_state li))) (\<lambda>es.
     sbind (slift (map_err InternalError (waypoint_new_epoch_boundary C li))) (\<lambda>new_w.
     sbind (if wp_version w < wp_version new_w then on_storage (pss_set_waypoint new_w) else slift (Ok ())) (\<lambda>_.
     sbind (on_storage pss_safety_data) (\<lambda>d. slift (Ok (w, es, new_w, d))))))))"
  define epoch where "epoch = (\<lambda>(w :: waypoint, es :: epoch_state, new_w :: waypoint, d :: safety_data).
     (if es_epoch es < sd_epoch d
            then slift (Err (WaypointOutOfDate (wp_version w) (wp_version new_w) (sd_epoch d) (es_epoch es)))
            else if sd_epoch d < es_epoch es
            then on_storage (pss_set_safety_data (safety_data_new (es_epoch es) 0 0 0 None))
            else slift (Ok ())) :: unit sr_method)"
  define post where "post = (\<lambda>es. sbind (sput (\<lambda>s. s\<lparr>sr_epoch_state := Some es\<rparr>)) (\<lambda>_.
     sbind (sget (\<lambda>s. pss_author (sr_persistent_storage s))) (\<lambda>a.
       reset_signer_on_error (reconcile_key C es a))))"
  have eq: "guarded_initialize C ecp s = sbind pre (\<lambda>x. sbind (epoch x) (\<lambda>_. post (fst (snd x)))) s"
    unfolding guarded_initialize_def pre_def epoch_def post_def Let_def
    by (simp add: sbind_def slift_def split: prod.splits result.splits)
  have q: "keeps quiet pre" unfolding pre_def Let_def by (intro keeps_intros) (auto intro: keeps_intros set_waypoint_quiet)
  have post: "sr_persistent_storage t = sr_persistent_storage u \<and> sr_epoch_state t = Some es"
    if "post es u = (r, t)" for es u
  proof -
    let ?u = "u\<lparr>sr_epoch_state := Some es\<rparr>"
    from that consider a where "reset_signer_on_error (reconcile_key C es a) ?u = (r, t)" | "t = ?u"
      by (auto simp: post_def sbind_eq_iff sput_iff sget_iff)
    then show ?thesis
    proof cases
      case 1
      from reconcile_key_frame [OF this] show ?thesis by simp
    qed simp
  qed
  from run [unfolded eq] show ?thesis
    unfolding sbind_eq_iff [of pre]
  proof (elim disjE exE conjE)
    fix x u assume p: "pre s = (Ok x, u)" and rest: "sbind (epoch x) (\<lambda>_. post (fst (snd x))) u = (r, t)"
    obtain w es new_w d where x: "x = (w, es, new_w, d)" by (cases x) auto
    from keepsD [OF q p] inv have u: "sr_inv u" "sr_epoch_state u = sr_epoch_state s" "sr_persisted u = sr_persisted s"
      by (auto simp: quiet_def sr_env_def)
    have d: "sr_persisted u = Some d"
      using pre_loads [OF inv p [unfolded pre_def x]] u(3) by simp
    show ?thesis
    proof (cases "epoch x u")
      case (Pair w' u2)
      have e: "sr_inv u2 \<and> sr_epoch_state u2 = sr_epoch_state s \<and>
          (w' = Ok () \<and> sd_epoch d \<le> es_epoch es \<and>
             sr_persisted u2 = Some (if sd_epoch d < es_epoch es then safety_data_new (es_epoch es) 0 0 0 None else d)
           \<or> w' \<noteq> Ok () \<and> sr_persisted u2 = sr_persisted s)"
      proof (cases "sd_epoch d < es_epoch es")
        case True
        with Pair have st: "on_storage (pss_set_safety_data (safety_data_new (es_epoch es) 0 0 0 None)) u = (w', u2)"
          by (simp add: epoch_def x less_not_sym)
        from sr.store_cases [OF u(1) st] on_storage_env [OF st] u True show ?thesis by (auto simp: sr_env_def)
      next
        case False
        with Pair u d show ?thesis by (auto simp: epoch_def x slift_iff split: if_splits)
      qed
      show ?thesis
      proof (cases "w' = Ok ()")
        case True
        with rest Pair x have "post es u2 = (r, t)" by (auto simp: sbind_eq_iff)
        from post [OF this] have t: "sr_inv t = sr_inv u2" "sr_persisted t = sr_persisted u2" "sr_epoch_state t = Some es"
          by (simp_all add: sr_inv_def sr_persisted_def)
        from e True d u have "sr_persisted s = Some d" "sd_epoch d \<le> es_epoch es" "sr_inv u2"
          "sr_persisted u2 = Some (if sd_epoch d < es_epoch es then safety_data_new (es_epoch es) 0 0 0 None else d)"
          by auto
        with t show ?thesis by (intro conjI disjI2 exI [of _ d] exI [of _ es]) simp_all
      next
        case False
        with rest Pair have "t = u2" by (auto simp: sbind_eq_iff)
        with e False show ?thesis by simp
      qed
    qed
  next
    fix e assume "pre s = (Err e, t)" "r = Err e"
    with keepsD [OF q] inv show ?thesis by (auto simp: quiet_def sr_env_def)
  next
    assume "pre s = (Panic, t)" "r = Panic"
    with keepsD [OF q] inv show ?thesis by (auto simp: quiet_def sr_env_def)
  qed
qed

section \<open>When a vote succeeds\<close>

lemma sbind_Ok: "m s = (Ok a, t) \<Longrightarrow> sbind m f s = f a t"
  by (simp add: sbind_def)

lemma load_cached:
  assumes "enable_cached_safety_data (sr_persistent_storage s)"
    and "cached_safety_data (sr_persistent_storage s) = Some d"
  shows "on_storage pss_safety_data s = (Ok d, s)"
  using assms by (simp add: on_storage_def pss_safety_data_def)

lemma store_no_fault:
  assumes "st_set_fault (internal_store (sr_persistent_storage s)) = None"
  shows "on_storage (pss_set_safety_data d) s = (Ok (), s\<lparr>sr_persistent_storage := (sr_persistent_storage s)
    \<lparr>internal_store := (internal_store (sr_persistent_storage s))
        \<lparr>st_data := (st_data (internal_store (sr_persistent_storage s)))(safety_data_key \<mapsto> SV_SafetyData d)\<rparr>,
     cached_safety_data := Some d\<rparr>\<rparr>)"
  using assms by (simp add: on_storage_def pss_set_safety_data_def kv_set_def)

text \<open>
  A validator whose storage works votes for every proposal that passes the checks; the safety data
  is persisted before the vote is returned.
\<close>

lemma vote_two_chain_run:
  assumes b: "b = vp_block (msvp_vote_proposal mvp)"
    and env: "sr_validator_signer s = Some signer" "sr_epoch_state s = Some es"
      "verify_execution_signature C mvp s = Ok ()"
    and cached: "enable_cached_safety_data (sr_persistent_storage s)"
      "cached_safety_data (sr_persistent_storage s) = Some d"
    and valid: "b_epoch b = sd_epoch d" "qc_verify C (es_verifier es) (b_quorum_cert b) = Ok ()"
      "validate_signature C (es_verifier es) b = Ok ()" "verify_well_formed now b = Ok ()"
      "gen_vote_data C (msvp_vote_proposal mvp) = Ok vd"
      "\<forall>tc. maybe_tc = Some tc \<longrightarrow> tctc_verify C (es_verifier es) tc = Ok ()"
    and fresh: "sd_last_voted_round d < b_round b" "\<forall>v. sd_last_vote d = Some v \<longrightarrow> v_round v \<noteq> b_round b"
    and rules: "safe_to_vote b maybe_tc = Ok ()"
      "construct_ledger_info_2chain b (hash_of C (H_VoteData vd)) = Ok li"
    and works: "cvs_sign C signer (H_LedgerInfo li) (sr_persistent_storage s) = Ok sig"
      "st_set_fault (internal_store (sr_persistent_storage s)) = None"
    and v: "v = vote_new_with_signature vd (cvs_author signer) li sig"
    and d': "d' = (observe_qc (b_quorum_cert b) (d\<lparr>sd_last_voted_round := b_round b\<rparr>))\<lparr>sd_last_vote := Some v\<rparr>"
  shows "guarded_construct_and_sign_vote_two_chain C now mvp maybe_tc s =
    (Ok v, s\<lparr>sr_persistent_storage := (sr_persistent_storage s)
       \<lparr>internal_store := (internal_store (sr_persistent_storage s))
          \<lparr>st_data := (st_data (internal_store (sr_persistent_storage s)))(safety_data_key \<mapsto> SV_SafetyData d')\<rparr>,
        cached_safety_data := Some d'\<rparr>\<rparr>)"
proof -
  have sget: "sget sr_signer s = (Ok signer, s)" "sget sr_epoch_state_ref s = (Ok es, s)"
    using env by (simp_all add: sget_def sr_signer_def sr_epoch_state_ref_def)
  have load: "on_storage pss_safety_data s = (Ok d, s)" by (rule load_cached [OF cached])
  have verified: "verify_proposal C now mvp s = (Ok vd, s)"
    using env valid load sget(2) unfolding verify_proposal_def Let_def b [symmetric]
    by (simp add: sbind_def sget_def slift_def verify_epoch_def sr_verify_qc_def sr_epoch_state_ref_def)
  have tc: "verify_optional_tc C maybe_tc s = (Ok (), s)"
    using env valid(6) by (cases maybe_tc)
      (simp_all add: verify_optional_tc_def slift_def sget_def sr_verify_tc_def sr_epoch_state_ref_def)
  have sign: "sget (sr_sign C (H_LedgerInfo li)) s = (Ok sig, s)"
    using env works(1) by (simp add: sget_def sr_sign_def sr_signer_def)
  have last: "verify_and_update_last_vote_round (bd_round (b_block_data b)) d = Ok (d\<lparr>sd_last_voted_round := b_round b\<rparr>)"
    using fresh(1) by (simp add: verify_and_update_last_vote_round_def b_round_def [symmetric])
  have save: "sign_and_save_vote C vd li (observe_qc (b_quorum_cert b) (d\<lparr>sd_last_voted_round := b_round b\<rparr>)) s =
      sbind (on_storage (pss_set_safety_data d')) (\<lambda>_. slift (Ok v)) s"
    unfolding sign_and_save_vote_def sbind_Ok [of "sget sr_signer", OF sget(1)] sbind_Ok [of "sget (sr_sign C (H_LedgerInfo li))", OF sign] Let_def v d' ..
  have rules: "vote_two_chain_rules C b maybe_tc vd d s = sbind (on_storage (pss_set_safety_data d')) (\<lambda>_. slift (Ok v)) s"
    unfolding vote_two_chain_rules_def last save [symmetric]
    using rules sget(1) by (simp add: sbind_def slift_def)
  have "guarded_construct_and_sign_vote_two_chain C now mvp maybe_tc s = vote_two_chain_rules C b maybe_tc vd d s"
    unfolding guarded_construct_and_sign_vote_two_chain_def Let_def b [symmetric]
      sbind_Ok [of "sget sr_signer", OF sget(1)] sbind_Ok [of "verify_proposal C now mvp", OF verified]
      sbind_Ok [of "verify_optional_tc C maybe_tc", OF tc] sbind_Ok [of "on_storage pss_safety_data", OF load]
    using fresh(2) by (simp split: option.split)
  with rules store_no_fault [OF works(2), of d'] show ?thesis by (simp add: sbind_def slift_def)
qed

lemma vote_two_chain_again:
  assumes b: "b = vp_block (msvp_vote_proposal mvp)"
    and env: "sr_validator_signer s = Some signer" "sr_epoch_state s = Some es"
      "verify_execution_signature C mvp s = Ok ()"
    and cached: "enable_cached_safety_data (sr_persistent_storage s)"
      "cached_safety_data (sr_persistent_storage s) = Some d"
    and valid: "b_epoch b = sd_epoch d" "qc_verify C (es_verifier es) (b_quorum_cert b) = Ok ()"
      "validate_signature C (es_verifier es) b = Ok ()" "verify_well_formed now b = Ok ()"
      "gen_vote_data C (msvp_vote_proposal mvp) = Ok vd"
      "\<forall>tc. maybe_tc = Some tc \<longrightarrow> tctc_verify C (es_verifier es) tc = Ok ()"
    and old: "sd_last_vote d = Some v" "v_round v = b_round b"
  shows "guarded_construct_and_sign_vote_two_chain C now mvp maybe_tc s = (Ok v, s)"
  using env valid load_cached [OF cached] old
  unfolding guarded_construct_and_sign_vote_two_chain_def verify_proposal_def Let_def b [symmetric]
  by (cases maybe_tc)
    (simp_all add: sbind_def sget_def slift_def verify_epoch_def sr_verify_qc_def sr_epoch_state_ref_def sr_signer_def
      verify_optional_tc_def sr_verify_tc_def)

text \<open>The 2-chain voting rule, stated on numbers.\<close>

definition two_chain_rule :: "block \<Rightarrow> two_chain_timeout_certificate option \<Rightarrow> bool" where
  "two_chain_rule b maybe_tc \<longleftrightarrow>
     (let r = unat (b_round b); qc_round = bi_round (certified_block (b_quorum_cert b)) in
      r = unat qc_round + 1 \<or>
      (case maybe_tc of
         None \<Rightarrow> r = 1
       | Some tc \<Rightarrow> r = unat (tctc_round tc) + 1 \<and> highest_hqc_round tc \<le> qc_round))"

lemma checked_add_one: "checked_add r 1 = (if unat r + 1 < 2 ^ 64 then Some (r + 1) else None)"
  by (simp add: checked_add_def)

lemma eq_add_one_iff: "unat r + 1 < 2 ^ 64 \<Longrightarrow> q = r + 1 \<longleftrightarrow> unat q = unat r + 1" for q r :: u64
  by (auto simp: word_unat_eq_iff unat_word_ariths)

lemma next_round_eq:
  "next_round r = (if unat r + 1 < 2 ^ 64 then Ok (r + 1) else Err (IncorrectRound r))"
  by (simp add: next_round_def checked_add_one)

lemma safe_to_vote_iff:
  assumes "bi_round (certified_block (b_quorum_cert b)) < b_round b"
  shows "safe_to_vote b maybe_tc = Ok () \<longleftrightarrow> two_chain_rule b maybe_tc"
proof -
  let ?q = "bi_round (certified_block (b_quorum_cert b))"
  have q: "unat ?q + 1 < 2 ^ 64"
    using word_less_imp_unat [OF assms] unat_u64_bound [of "b_round b"] by linarith
  have b: "\<not> unat r + 1 < 2 ^ 64 \<Longrightarrow> unat (b_round b) \<noteq> unat r + 1" for r :: u64
    using unat_u64_bound [of "b_round b"] by linarith
  have zero: "unat (b_round b) = 1 \<longleftrightarrow> b_round b = 1" by (simp add: word_unat_eq_iff)
  show ?thesis
    unfolding safe_to_vote_def two_chain_rule_def Let_def next_round_eq
    using q b eq_add_one_iff [OF q, of "b_round b"] eq_add_one_iff [of _ "b_round b"] zero
    by (cases maybe_tc) auto
qed

text \<open>
  When a proposal gets a vote: it is of the current epoch, its certificates and the proposer's
  signature are valid and the block is well-formed; and the validator has voted for that round
  already, or the round is above the last voted one and the 2-chain rule allows it.
\<close>

definition vote_allowed ::
    "crypto \<Rightarrow> u64 \<Rightarrow> validator_verifier \<Rightarrow> safety_data \<Rightarrow> vote_proposal \<Rightarrow> two_chain_timeout_certificate option \<Rightarrow> bool" where
  "vote_allowed C now vv d vp maybe_tc \<longleftrightarrow>
     (let b = vp_block vp in
      b_epoch b = sd_epoch d \<and> qc_verify C vv (b_quorum_cert b) = Ok () \<and>
      validate_signature C vv b = Ok () \<and> verify_well_formed now b = Ok () \<and>
      is_ok (gen_vote_data C vp) \<and> (case maybe_tc of None \<Rightarrow> True | Some tc \<Rightarrow> tctc_verify C vv tc = Ok ()) \<and>
      (if \<exists>v. sd_last_vote d = Some v \<and> v_round v = b_round b then True
       else sd_last_voted_round d < b_round b \<and> two_chain_rule b maybe_tc))"

lemma construct_ledger_info_2chain_total:
  assumes "bi_round (certified_block (b_quorum_cert b)) < b_round b"
  obtains li where "construct_ledger_info_2chain b h = Ok li"
proof -
  have "unat (bi_round (certified_block (b_quorum_cert b))) + 1 < 2 ^ 64"
    using word_less_imp_unat [OF assms] unat_u64_bound [of "b_round b"] by linarith
  then show thesis using that by (simp add: construct_ledger_info_2chain_def Let_def next_round_eq)
qed

lemma vote_two_chain_validates:
  assumes run: "guarded_construct_and_sign_vote_two_chain C now mvp maybe_tc s = (Ok v, t)" and es: "sr_epoch_state s = Some es"
  shows "validate_signature C (es_verifier es) (vp_block (msvp_vote_proposal mvp)) = Ok ()"
proof -
  from run obtain vd s1 where p: "verify_proposal C now mvp s = (Ok vd, s1)"
    by (auto simp: guarded_construct_and_sign_vote_two_chain_def Let_def sbind_Ok_iff sget_iff)
  then obtain d where "on_storage pss_safety_data s = (Ok d, s1)"
    and v: "sr_epoch_state_ref s1 = Ok es' \<Longrightarrow> validate_signature C (es_verifier es') (vp_block (msvp_vote_proposal mvp)) = Ok ()" for es'
    by (auto simp: verify_proposal_def Let_def ok_simps)
  then show ?thesis using on_storage_env es by (force simp: sr_env_def sr_epoch_state_ref_def)
qed

lemma vote_two_chain_allowed:
  assumes inv: "sr_inv s" and env: "sr_validator_signer s = Some signer" "sr_epoch_state s = Some es"
      "verify_execution_signature C mvp s = Ok ()"
    and cached: "enable_cached_safety_data (sr_persistent_storage s)"
      "cached_safety_data (sr_persistent_storage s) = Some d"
    and ok: "is_ok (fst (guarded_construct_and_sign_vote_two_chain C now mvp maybe_tc s))"
  shows "vote_allowed C now (es_verifier es) d (msvp_vote_proposal mvp) maybe_tc"
proof -
  let ?b = "vp_block (msvp_vote_proposal mvp)"
  from ok obtain v t where run: "guarded_construct_and_sign_vote_two_chain C now mvp maybe_tc s = (Ok v, t)"
    by (metis is_ok_iff prod.collapse)
  have d: "sr_persisted s = Some d" by (rule sr.load_Ok [OF inv load_cached [OF cached]])
  have sig: "validate_signature C (es_verifier es) ?b = Ok ()" by (rule vote_two_chain_validates [OF run env(2)])
  from run obtain vd s1 where p: "verify_proposal C now mvp s = (Ok vd, s1)"
    by (auto simp: guarded_construct_and_sign_vote_two_chain_def Let_def sbind_Ok_iff sget_iff)
  have gen: "is_ok (gen_vote_data C (msvp_vote_proposal mvp))"
    by (rule verify_proposal_Ok [OF inv p]) simp
  show ?thesis
  proof (rule vote_two_chain_Ok [OF inv run])
    fix d2 es2
    assume h: "sr_persisted s = Some d2" "sr_epoch_state s = Some es2" "b_epoch ?b = sd_epoch d2"
      "qc_verify C (es_verifier es2) (b_quorum_cert ?b) = Ok ()" "verify_well_formed now ?b = Ok ()"
      "\<And>tc. maybe_tc = Some tc \<Longrightarrow> tctc_verify C (es_verifier es2) tc = Ok ()"
      "sd_last_vote d2 = Some v \<and> v_round v = b_round ?b \<and> sr_persisted t = Some d2 \<or>
        gen_vote_data C (msvp_vote_proposal mvp) = Ok (v_vote_data v) \<and>
        sd_last_voted_round d2 < b_round ?b \<and> safe_to_vote ?b maybe_tc = Ok () \<and>
        construct_ledger_info_2chain ?b (hash_of C (H_VoteData (v_vote_data v))) = Ok (v_ledger_info v) \<and>
        sr_persisted t = Some ((observe_qc (b_quorum_cert ?b) (d2\<lparr>sd_last_voted_round := b_round ?b\<rparr>))
           \<lparr>sd_last_vote := Some v\<rparr>)"
    show ?thesis
      using h d env(2) sig gen safe_to_vote_iff [OF verify_well_formed_Ok(2) [OF h(5)]]
      unfolding vote_allowed_def Let_def by (cases maybe_tc) auto
  qed
qed

lemma vote_two_chain_granted:
  assumes env: "sr_validator_signer s = Some signer" "sr_epoch_state s = Some es"
      "verify_execution_signature C mvp s = Ok ()"
    and cached: "enable_cached_safety_data (sr_persistent_storage s)"
      "cached_safety_data (sr_persistent_storage s) = Some d"
    and works: "\<And>msg. is_ok (cvs_sign C signer msg (sr_persistent_storage s))"
      "st_set_fault (internal_store (sr_persistent_storage s)) = None"
    and ok: "vote_allowed C now (es_verifier es) d (msvp_vote_proposal mvp) maybe_tc"
  shows "is_ok (fst (guarded_construct_and_sign_vote_two_chain C now mvp maybe_tc s))"
proof -
  let ?b = "vp_block (msvp_vote_proposal mvp)"
  from ok obtain vd where gen: "gen_vote_data C (msvp_vote_proposal mvp) = Ok vd" by (auto simp: vote_allowed_def Let_def is_ok_iff)
  from ok have valid: "b_epoch ?b = sd_epoch d" "qc_verify C (es_verifier es) (b_quorum_cert ?b) = Ok ()"
      "validate_signature C (es_verifier es) ?b = Ok ()" "verify_well_formed now ?b = Ok ()"
      "\<forall>tc. maybe_tc = Some tc \<longrightarrow> tctc_verify C (es_verifier es) tc = Ok ()"
    by (auto simp: vote_allowed_def Let_def)
  show ?thesis
  proof (cases "\<exists>v. sd_last_vote d = Some v \<and> v_round v = b_round ?b")
    case True
    with vote_two_chain_again [OF refl env cached valid(1-4) gen valid(5)] show ?thesis by auto
  next
    case False
    with ok have r: "sd_last_voted_round d < b_round ?b" "two_chain_rule ?b maybe_tc" by (auto simp: vote_allowed_def Let_def)
    note low = verify_well_formed_Ok(2) [OF valid(4)]
    obtain li where li: "construct_ledger_info_2chain ?b (hash_of C (H_VoteData vd)) = Ok li"
      by (rule construct_ledger_info_2chain_total [OF low])
    from works(1) obtain sig where "cvs_sign C signer (H_LedgerInfo li) (sr_persistent_storage s) = Ok sig"
      by (metis is_ok_iff)
    from vote_two_chain_run [OF refl env cached valid(1-4) gen valid(5) r(1) _ _ li this works(2) refl refl] False r(2)
      safe_to_vote_iff [OF low] show ?thesis by auto
  qed
qed

text \<open>
  C2. When a validator votes: with working storage and keys, the 2-chain voting method returns a vote
  exactly for the proposals that \<open>vote_allowed\<close> describes (current epoch, valid certificates and
  proposer signature, well-formed block, and either a round it has already voted in or a round above
  the last voted one that directly follows the certified parent or a timeout certificate whose
  highest certified round is not above the parent's).
\<close>

theorem vote_two_chain_exact:
  assumes inv: "sr_inv s" and env: "sr_validator_signer s = Some signer" "sr_epoch_state s = Some es"
      "verify_execution_signature C mvp s = Ok ()"
    and cached: "enable_cached_safety_data (sr_persistent_storage s)"
      "cached_safety_data (sr_persistent_storage s) = Some d"
    and works: "\<And>msg. is_ok (cvs_sign C signer msg (sr_persistent_storage s))"
      "st_set_fault (internal_store (sr_persistent_storage s)) = None"
  shows "is_ok (fst (guarded_construct_and_sign_vote_two_chain C now mvp maybe_tc s)) \<longleftrightarrow>
    vote_allowed C now (es_verifier es) d (msvp_vote_proposal mvp) maybe_tc"
  using vote_two_chain_allowed [OF inv env cached] vote_two_chain_granted [OF env cached works] by blast

end
