(* ===== verification/Safety_Service.thy ===== *)
theory Safety_Service
  imports Safety_Rules
begin

text \<open>
  \<open>consensus/safety-rules/src/serializer.rs\<close>: the service through which a validator process calls its
  SafetyRules, one message per method. The decoded message is the input (the JSON encoding is the
  transport's), the result of the method the output. The theorems are about any sequence of
  messages, of the 2-chain and the 3-chain protocol mixed: the persisted safety data only moves
  forward, and there is at most one vote per epoch and round.
\<close>

section \<open>The model\<close>

datatype safety_rules_input =
    IN_ConsensusState
  | IN_Initialize epoch_change_proof
  | IN_ConstructAndSignVote maybe_signed_vote_proposal
  | IN_SignProposal block_data
  | IN_SignTimeout timeout
  | IN_SignTimeoutWithQC two_chain_timeout "two_chain_timeout_certificate option"
  | IN_ConstructAndSignVoteTwoChain maybe_signed_vote_proposal "two_chain_timeout_certificate option"
  | IN_SignCommitVote ledger_info_with_signatures ledger_info

datatype safety_rules_output =
    OUT_State "(consensus_state, sr_error) result"
  | OUT_Unit "(unit, sr_error) result"
  | OUT_Vote "(vote, sr_error) result"
  | OUT_Signature "(signature, sr_error) result"

fun handle_message ::
    "crypto \<Rightarrow> u64 \<Rightarrow> safety_rules_input \<Rightarrow> safety_rules \<Rightarrow> safety_rules_output \<times> safety_rules" where
  "handle_message C now IN_ConsensusState s = map_prod OUT_State id (guarded_consensus_state s)"
| "handle_message C now (IN_Initialize p) s = map_prod OUT_Unit id (guarded_initialize C p s)"
| "handle_message C now (IN_ConstructAndSignVote mvp) s =
     map_prod OUT_Vote id (guarded_construct_and_sign_vote C now mvp s)"
| "handle_message C now (IN_SignProposal bd) s = map_prod OUT_Signature id (guarded_sign_proposal C bd s)"
| "handle_message C now (IN_SignTimeout t) s = map_prod OUT_Signature id (guarded_sign_timeout C t s)"
| "handle_message C now (IN_SignTimeoutWithQC t tc) s =
     map_prod OUT_Signature id (guarded_sign_timeout_with_qc C t tc s)"
| "handle_message C now (IN_ConstructAndSignVoteTwoChain mvp tc) s =
     map_prod OUT_Vote id (guarded_construct_and_sign_vote_two_chain C now mvp tc s)"
| "handle_message C now (IN_SignCommitVote l li) s =
     map_prod OUT_Signature id (guarded_sign_commit_vote C l li s)"

text \<open>A sequence of messages, each with the clock reading at which it is handled.\<close>

fun handle_messages ::
    "crypto \<Rightarrow> (u64 \<times> safety_rules_input) list \<Rightarrow> safety_rules \<Rightarrow> safety_rules_output list \<times> safety_rules" where
  "handle_messages C [] s = ([], s)"
| "handle_messages C ((now, i) # is) s =
     (let (out, t) = handle_message C now i s; (outs, u) = handle_messages C is t in (out # outs, u))"

section \<open>Safety data moves forward\<close>

definition sd_le :: "safety_data \<Rightarrow> safety_data \<Rightarrow> bool" where
  "sd_le d d' \<longleftrightarrow> sd_epoch d < sd_epoch d' \<or>
     sd_epoch d = sd_epoch d' \<and> sd_last_voted_round d \<le> sd_last_voted_round d' \<and>
     sd_preferred_round d \<le> sd_preferred_round d' \<and> sd_one_chain_round d \<le> sd_one_chain_round d'"

lemma sd_le_refl [simp]: "sd_le d d"
  by (simp add: sd_le_def)

lemma sd_le_trans: "sd_le d d' \<Longrightarrow> sd_le d' d'' \<Longrightarrow> sd_le d d''"
  unfolding sd_le_def by auto

text \<open>
  \<open>transits Q d m\<close>: started with \<open>d\<close> persisted, the method ends in a result and persisted data that
  satisfy \<open>Q\<close>. The rules follow the shape of a method: load, checks, at most one store, signature.
\<close>

definition transits :: "(('a, sr_error) result \<Rightarrow> safety_data \<Rightarrow> bool) \<Rightarrow> safety_data \<Rightarrow> 'a sr_method \<Rightarrow> bool" where
  "transits Q d m \<longleftrightarrow>
     (\<forall>s r t. sr_inv s \<longrightarrow> sr_persisted s = Some d \<longrightarrow> m s = (r, t) \<longrightarrow>
        sr_inv t \<and> (\<exists>d'. sr_persisted t = Some d' \<and> Q r d'))"

definition failing :: "(('a, sr_error) result \<Rightarrow> safety_data \<Rightarrow> bool) \<Rightarrow> safety_data \<Rightarrow> bool" where
  "failing Q d \<longleftrightarrow> (\<forall>e. Q (Err e) d) \<and> Q Panic d"

lemma transits_quiet:
  assumes q: "keeps quiet m" and f: "\<And>a. transits Q d (f a)" and fail: "failing Q d"
  shows "transits Q d (sbind m f)"
  unfolding transits_def
proof (intro allI impI)
  fix s r t assume s: "sr_inv s" "sr_persisted s = Some d" and run: "sbind m f s = (r, t)"
  obtain r1 u where m: "m s = (r1, u)" by fastforce
  from keepsD [OF q m] s have u: "sr_inv u" "sr_persisted u = Some d" by (auto simp: quiet_def)
  show "sr_inv t \<and> (\<exists>d'. sr_persisted t = Some d' \<and> Q r d')"
    using run m u f fail by (cases r1) (auto simp: sbind_def transits_def failing_def)
qed

lemma transits_load:
  assumes "transits Q d (f d)" and "failing Q d"
  shows "transits Q d (sbind (on_storage pss_safety_data) f)"
  unfolding transits_def
proof (intro allI impI)
  fix s r t assume s: "sr_inv s" "sr_persisted s = Some d"
    and run: "sbind (on_storage pss_safety_data) f s = (r, t)"
  obtain r1 u where m: "on_storage pss_safety_data s = (r1, u)" by fastforce
  from sr.load_keeps [OF s(1) m] s have u: "sr_inv u" "sr_persisted u = Some d" by auto
  show "sr_inv t \<and> (\<exists>d'. sr_persisted t = Some d' \<and> Q r d')"
  proof (cases r1)
    case (Ok a)
    with sr.load_Ok [OF s(1)] m s(2) have "a = d" by simp
    with run m Ok u assms(1) show ?thesis by (auto simp: sbind_def transits_def)
  qed (use run m u assms(2) in \<open>auto simp: sbind_def failing_def\<close>)
qed

lemma transits_slift:
  assumes "\<And>a. r = Ok a \<Longrightarrow> transits Q d (f a)" and "failing Q d"
  shows "transits Q d (sbind (slift r) f)"
  using assms by (cases r) (auto simp: transits_def sbind_def slift_def failing_def)

lemma transits_sget:
  assumes "\<And>a. transits Q d (f a)" and "failing Q d"
  shows "transits Q d (sbind (sget g) f)"
  using assms by (intro transits_quiet quiet_rules) auto

lemma transits_store:
  assumes f: "transits Q d' (f ())" and fail: "failing Q d"
  shows "transits Q d (sbind (on_storage (pss_set_safety_data d')) f)"
  unfolding transits_def
proof (intro allI impI)
  fix s r t assume s: "sr_inv s" "sr_persisted s = Some d"
    and run: "sbind (on_storage (pss_set_safety_data d')) f s = (r, t)"
  obtain r1 u where m: "on_storage (pss_set_safety_data d') s = (r1, u)" by fastforce
  show "sr_inv t \<and> (\<exists>d'. sr_persisted t = Some d' \<and> Q r d')"
    using sr.store_keeps [OF s(1) m] sr.store_Ok [OF s(1)] sr.store_fail [OF s(1) m] run m s f fail
    by (cases r1) (auto simp: sbind_def transits_def failing_def)
qed

lemma transits_return: "Q r d \<Longrightarrow> transits Q d (slift r)"
  by (auto simp: transits_def slift_def)

lemma transits_read: "(\<And>r. Q r d) \<Longrightarrow> transits Q d (sget g)"
  by (auto simp: transits_def sget_def)

lemma transits_keeps: "keeps quiet m \<Longrightarrow> (\<And>r. Q r d) \<Longrightarrow> transits Q d m"
  unfolding transits_def by (metis keepsD quiet_def)

lemma transitsD:
  assumes "transits Q d m" and "sr_inv s" and "sr_persisted s = Some d" and "m s = (r, t)"
  obtains d' where "sr_inv t" and "sr_persisted t = Some d'" and "Q r d'"
  using assms unfolding transits_def by blast

section \<open>The methods as transitions\<close>

lemma transits_verify_proposal:
  assumes f: "\<And>vd. gen_vote_data C (msvp_vote_proposal mvp) = Ok vd \<Longrightarrow>
      b_epoch (vp_block (msvp_vote_proposal mvp)) = sd_epoch d \<Longrightarrow> transits Q d (f vd)"
    and fail: "failing Q d"
  shows "transits Q d (sbind (verify_proposal C now mvp) f)"
  unfolding transits_def
proof (intro allI impI)
  fix s r t assume s: "sr_inv s" "sr_persisted s = Some d" and run: "sbind (verify_proposal C now mvp) f s = (r, t)"
  obtain r1 u where m: "verify_proposal C now mvp s = (r1, u)" by fastforce
  from keepsD [OF keeps_verify_proposal m] s have u: "sr_inv u" "sr_persisted u = Some d" by (auto simp: quiet_def)
  show "sr_inv t \<and> (\<exists>d'. sr_persisted t = Some d' \<and> Q r d')"
  proof (cases r1)
    case (Ok vd)
    have "gen_vote_data C (msvp_vote_proposal mvp) = Ok vd" "b_epoch (vp_block (msvp_vote_proposal mvp)) = sd_epoch d"
      by (rule verify_proposal_Ok [OF s(1) m [unfolded Ok]]; use s(2) in simp)+
    from f [OF this] run m Ok u show ?thesis by (auto simp: sbind_def transits_def)
  qed (use run m u fail in \<open>auto simp: sbind_def failing_def\<close>)
qed

lemma transits_sign_and_save:
  assumes "\<And>v. v_vote_data v = vd \<Longrightarrow> Q (Ok v) (d'\<lparr>sd_last_vote := Some v\<rparr>)" and "failing Q d"
  shows "transits Q d (sign_and_save_vote C vd li d')"
  unfolding transits_def
proof (intro allI impI)
  fix s r t assume s: "sr_inv s" "sr_persisted s = Some d" and run: "sign_and_save_vote C vd li d' s = (r, t)"
  from sign_and_save_vote_cases [OF s(1) run] s(2) assms
  show "sr_inv t \<and> (\<exists>d'. sr_persisted t = Some d' \<and> Q r d')"
    by (cases r) (auto simp: failing_def)
qed

lemma transits_case_last_vote:
  assumes "\<And>v. lv = Some v \<Longrightarrow> P v \<Longrightarrow> transits Q d (slift (Ok v))" and "transits Q d m"
  shows "transits Q d (case lv of Some v \<Rightarrow> if P v then slift (Ok v) else m | None \<Rightarrow> m)"
  using assms by (cases lv) auto

text \<open>What a voting method does: it returns the last vote again, or a new vote of a higher round, or none.\<close>

definition vote_outcome :: "safety_data \<Rightarrow> (vote, sr_error) result \<Rightarrow> safety_data \<Rightarrow> bool" where
  "vote_outcome d r d' \<longleftrightarrow>
     (case r of
        Ok v \<Rightarrow> sd_last_vote d = Some v \<and> d' = d \<or>
          v_epoch v = sd_epoch d \<and> sd_last_voted_round d < v_round v \<and> sd_le d d' \<and>
          sd_epoch d' = sd_epoch d \<and> sd_last_voted_round d' = v_round v \<and> sd_last_vote d' = Some v
      | _ \<Rightarrow> d' = d)"

lemma failing_vote_outcome [simp]: "failing (vote_outcome d) d"
  by (simp add: failing_def vote_outcome_def)

lemma vote_outcome_new:
  assumes "gen_vote_data C vp = Ok vd" and "b_epoch (vp_block vp) = sd_epoch d" and "v_vote_data v = vd"
    and "sd_last_voted_round d < b_round (vp_block vp)"
  shows "vote_outcome d (Ok v) ((observe_qc qc (d\<lparr>sd_last_voted_round := b_round (vp_block vp)\<rparr>))\<lparr>sd_last_vote := Some v\<rparr>)"
  using gen_vote_data_Ok [OF assms(1)] assms(2-)
  by (auto simp: vote_outcome_def v_epoch_def v_round_def sd_le_def observe_qc_def Let_def)

lemma vote_two_chain_outcome:
  "transits (vote_outcome d) d (guarded_construct_and_sign_vote_two_chain C now mvp tc)"
  unfolding guarded_construct_and_sign_vote_two_chain_def vote_two_chain_rules_def Let_def
  by (intro transits_sget transits_verify_proposal transits_quiet [OF keeps_verify_optional_tc] transits_load
      transits_case_last_vote transits_slift transits_sign_and_save transits_return failing_vote_outcome)
    (auto simp: update_last_vote_round_Ok_iff b_round_def [symmetric] vote_outcome_new [simplified] vote_outcome_def [of d "Ok v" d for v])

lemma observe_qc_last_voted:
  "(observe_qc qc d)\<lparr>sd_last_voted_round := r\<rparr> = observe_qc qc (d\<lparr>sd_last_voted_round := r\<rparr>)"
  by (simp add: observe_qc_def Let_def)

lemma vote_three_chain_outcome:
  "transits (vote_outcome d) d (guarded_construct_and_sign_vote C now mvp)"
  unfolding guarded_construct_and_sign_vote_def vote_three_chain_rules_def Let_def
  by (intro transits_sget transits_verify_proposal transits_load
      transits_case_last_vote transits_slift transits_sign_and_save transits_return failing_vote_outcome)
    (auto simp: update_last_vote_round_Ok_iff update_preferred_round_Ok_iff b_round_def [symmetric] observe_qc_last_voted
      vote_outcome_new [simplified] vote_outcome_def [of d "Ok v" d for v])

text \<open>The methods that do not vote keep the last vote within an epoch and forget it in a new one.\<close>

definition sd_step :: "safety_data \<Rightarrow> safety_data \<Rightarrow> bool" where
  "sd_step d d' \<longleftrightarrow> sd_le d d' \<and>
     sd_last_vote d' = (if sd_epoch d = sd_epoch d' then sd_last_vote d else None)"

lemma sd_step_refl [simp]: "sd_step d d"
  by (simp add: sd_step_def)

lemma sd_step_last_voted: "sd_last_voted_round d \<le> r \<Longrightarrow> sd_step d (d\<lparr>sd_last_voted_round := r\<rparr>)"
  by (simp add: sd_step_def sd_le_def)

lemma sign_timeout_outcome: "transits (\<lambda>_. sd_step d) d (guarded_sign_timeout C t)"
proof -
  have *: "failing (\<lambda>_. sd_step d) d" by (simp add: failing_def)
  have "transits (\<lambda>_. sd_step d) d
      (sbind (if sd_last_voted_round d < to_round t
            then sbind (slift (verify_and_update_last_vote_round (to_round t) d)) (\<lambda>d'. on_storage (pss_set_safety_data d'))
            else slift (Ok ())) (\<lambda>_. sget (sr_sign C (H_Timeout t))))"
  proof (cases "sd_last_voted_round d < to_round t")
    case True
    then have "verify_and_update_last_vote_round (to_round t) d = Ok (d\<lparr>sd_last_voted_round := to_round t\<rparr>)"
      by (simp add: update_last_vote_round_Ok_iff)
    then have eq: "sbind (slift (verify_and_update_last_vote_round (to_round t) d)) (\<lambda>d'. on_storage (pss_set_safety_data d'))
        = on_storage (pss_set_safety_data (d\<lparr>sd_last_voted_round := to_round t\<rparr>))"
      by (simp add: fun_eq_iff sbind_def slift_def)
    have "transits (\<lambda>_. sd_step d) d (sbind (on_storage (pss_set_safety_data (d\<lparr>sd_last_voted_round := to_round t\<rparr>)))
        (\<lambda>_. sget (sr_sign C (H_Timeout t))))"
      using True by (intro transits_store transits_read * sd_step_last_voted) simp
    with True show ?thesis unfolding eq by simp
  next
    case False
    then show ?thesis by (simp add: transits_slift transits_read *)
  qed
  then show ?thesis
    unfolding guarded_sign_timeout_def by (intro transits_sget transits_load transits_slift *)
qed

lemma sign_timeout_with_qc_outcome: "transits (\<lambda>_. sd_step d) d (guarded_sign_timeout_with_qc C t tc)"
  unfolding transits_def
proof (intro allI impI)
  fix s r u assume s: "sr_inv s" "sr_persisted s = Some d" and run: "guarded_sign_timeout_with_qc C t tc s = (r, u)"
  from sign_timeout_with_qc_cases [OF s(1) run] s(2) sd_step_last_voted
  show "sr_inv u \<and> (\<exists>d'. sr_persisted u = Some d' \<and> sd_step d d')" by auto
qed

lemma initialize_outcome: "transits (\<lambda>_. sd_step d) d (guarded_initialize C p)"
  unfolding transits_def
proof (intro allI impI)
  fix s r t assume s: "sr_inv s" "sr_persisted s = Some d" and run: "guarded_initialize C p s = (r, t)"
  have "sd_step d (safety_data_new e 0 0 0 None)" if "sd_epoch d < e" for e
    using that by (auto simp: sd_step_def sd_le_def safety_data_new_def)
  with initialize_cases [OF s(1) run] s(2)
  show "sr_inv t \<and> (\<exists>d'. sr_persisted t = Some d' \<and> sd_step d d')" by (auto split: if_splits)
qed

text \<open>One message: the outcome of the vote methods, or a step that signs no vote.\<close>

fun votes_of :: "safety_rules_output \<Rightarrow> vote list" where
  "votes_of (OUT_Vote (Ok v)) = [v]"
| "votes_of _ = []"

lemma transits_out:
  assumes "transits Q d m" and "sr_inv s" and "sr_persisted s = Some d" and "map_prod g id (m s) = (out, t)"
  shows "\<exists>r d'. out = g r \<and> sr_inv t \<and> sr_persisted t = Some d' \<and> Q r d'"
proof -
  obtain r u where "m s = (r, u)" by fastforce
  with assms show ?thesis unfolding transits_def by auto
qed

lemmas quiet_outcomes =
  transits_keeps [of _ "\<lambda>_. sd_step d" d for d, OF keeps_consensus_state sd_step_refl]
  transits_keeps [of _ "\<lambda>_. sd_step d" d for d, OF keeps_sign_proposal sd_step_refl]
  transits_keeps [of _ "\<lambda>_. sd_step d" d for d, OF keeps_sign_commit_vote sd_step_refl]

lemma handle_message_outcome:
  assumes s: "sr_inv s" "sr_persisted s = Some d" and run: "handle_message C now i s = (out, t)"
  shows "\<exists>d'. sr_inv t \<and> sr_persisted t = Some d' \<and>
    ((\<exists>r. out = OUT_Vote r \<and> vote_outcome d r d') \<or> votes_of out = [] \<and> sd_step d d')"
proof (cases i)
  case IN_ConsensusState
  with run transits_out [OF quiet_outcomes(1) s] show ?thesis by fastforce
next
  case (IN_Initialize p)
  with run transits_out [OF initialize_outcome s] show ?thesis by fastforce
next
  case (IN_ConstructAndSignVote mvp)
  with run transits_out [OF vote_three_chain_outcome s] show ?thesis by fastforce
next
  case (IN_SignProposal bd)
  with run transits_out [OF quiet_outcomes(2) s] show ?thesis by fastforce
next
  case (IN_SignTimeout to)
  with run transits_out [OF sign_timeout_outcome s] show ?thesis by fastforce
next
  case (IN_SignTimeoutWithQC to tc)
  with run transits_out [OF sign_timeout_with_qc_outcome s] show ?thesis by fastforce
next
  case (IN_ConstructAndSignVoteTwoChain mvp tc)
  with run transits_out [OF vote_two_chain_outcome s] show ?thesis by fastforce
next
  case (IN_SignCommitVote l li)
  with run transits_out [OF quiet_outcomes(3) s] show ?thesis by fastforce
qed

section \<open>No equivocation\<close>

definition last_vote_ok :: "safety_data \<Rightarrow> bool" where
  "last_vote_ok d \<longleftrightarrow>
     (\<forall>v. sd_last_vote d = Some v \<longrightarrow> v_epoch v = sd_epoch d \<and> v_round v \<le> sd_last_voted_round d)"

definition one_vote_each :: "vote set \<Rightarrow> bool" where
  "one_vote_each V \<longleftrightarrow> (\<forall>v \<in> V. \<forall>v' \<in> V. v_epoch v = v_epoch v' \<longrightarrow> v_round v = v_round v' \<longrightarrow> v = v')"

definition votes_covered :: "safety_data \<Rightarrow> vote set \<Rightarrow> bool" where
  "votes_covered d V \<longleftrightarrow>
     (\<forall>v \<in> V. v_epoch v < sd_epoch d \<or>
        v_epoch v = sd_epoch d \<and> (\<exists>w. sd_last_vote d = Some w \<and> (v = w \<or> v_round v < v_round w)))"

definition votes_inv :: "safety_data \<Rightarrow> vote set \<Rightarrow> bool" where
  "votes_inv d V \<longleftrightarrow> last_vote_ok d \<and> one_vote_each V \<and> votes_covered d V"

lemma votes_inv_step:
  assumes "votes_inv d V" and "sd_step d d'"
  shows "votes_inv d' V"
proof -
  from assms have "last_vote_ok d'" "votes_covered d' V"
    by (auto simp: votes_inv_def sd_step_def last_vote_ok_def votes_covered_def sd_le_def split: if_splits
        intro: order_trans less_trans)
  with assms(1) show ?thesis by (simp add: votes_inv_def)
qed

lemma votes_inv_vote:
  assumes inv: "votes_inv d V" and out: "vote_outcome d (Ok v) d'"
  shows "votes_inv d' (insert v V)"
proof -
  have cov: "v_epoch v' < sd_epoch d \<or> v_epoch v' = sd_epoch d \<and> (\<exists>w. sd_last_vote d = Some w \<and> (v' = w \<or> v_round v' < v_round w))"
    if "v' \<in> V" for v'
    using inv that unfolding votes_inv_def votes_covered_def by blast
  from inv have last: "v_epoch w = sd_epoch d \<and> v_round w \<le> sd_last_voted_round d" if "sd_last_vote d = Some w" for w
    using that by (simp add: votes_inv_def last_vote_ok_def)
  from inv have each: "one_vote_each V" by (simp add: votes_inv_def)
  from out show ?thesis unfolding vote_outcome_def result.case
  proof (elim disjE conjE)
    assume old: "sd_last_vote d = Some v" "d' = d"
    have "v = v'" if "v' \<in> V" "v_epoch v = v_epoch v'" "v_round v = v_round v'" for v'
      using cov [OF that(1)] last [OF old(1)] that(2,3) old(1) by (metis less_irrefl option.inject)
    with each have "one_vote_each (insert v V)" unfolding one_vote_each_def by (metis insert_iff)
    moreover have "votes_covered d (insert v V)" using inv old last by (simp add: votes_inv_def votes_covered_def)
    ultimately show ?thesis using inv old by (simp add: votes_inv_def)
  next
    assume new: "v_epoch v = sd_epoch d" "sd_last_voted_round d < v_round v" "sd_epoch d' = sd_epoch d"
      "sd_last_voted_round d' = v_round v" "sd_last_vote d' = Some v"
    have low: "v_epoch v' < sd_epoch d \<or> v_epoch v' = sd_epoch d \<and> v_round v' < v_round v" if "v' \<in> V" for v'
    proof (cases "v_epoch v' < sd_epoch d")
      case False
      with cov [OF that] obtain w where w: "v_epoch v' = sd_epoch d" "sd_last_vote d = Some w" "v_round v' \<le> v_round w"
        by (auto intro: less_imp_le)
      have "v_round w < v_round v" using last [OF w(2)] new(2) by (blast intro: le_less_trans)
      with w show ?thesis by (blast intro: le_less_trans)
    qed simp
    have "v_epoch v \<noteq> v_epoch v' \<or> v_round v \<noteq> v_round v'" if "v' \<in> V" for v'
      using low [OF that] new(1) by (metis less_irrefl)
    with each have "one_vote_each (insert v V)" unfolding one_vote_each_def by (metis insert_iff)
    moreover have "votes_covered d' (insert v V)" "last_vote_ok d'"
      using low new by (auto simp: votes_covered_def last_vote_ok_def)
    ultimately show ?thesis by (simp add: votes_inv_def)
  qed
qed

lemma vote_outcome_none: "votes_of (OUT_Vote r) = [] \<Longrightarrow> vote_outcome d r d' \<Longrightarrow> d' = d"
  by (cases r) (simp_all add: vote_outcome_def)

lemma handle_messages_inv:
  assumes "sr_inv s" and "sr_persisted s = Some d" and "votes_inv d V" and "handle_messages C ms s = (outs, t)"
  shows "\<exists>d'. sr_inv t \<and> sr_persisted t = Some d' \<and> sd_le d d' \<and>
    votes_inv d' (V \<union> set (concat (map votes_of outs)))"
  using assms
proof (induction C ms s arbitrary: d V outs t rule: handle_messages.induct)
  case (1 C s)
  then show ?case by simp
next
  case (2 C now i "is" s)
  obtain out u where h: "handle_message C now i s = (out, u)" by fastforce
  from "2.prems"(4) h obtain outs' where rest: "handle_messages C is u = (outs', t)" and outs: "outs = out # outs'"
    by (auto split: prod.splits)
  from handle_message_outcome [OF "2.prems"(1,2) h] obtain d1 where d1: "sr_inv u" "sr_persisted u = Some d1"
    and o: "(\<exists>r. out = OUT_Vote r \<and> vote_outcome d r d1) \<or> votes_of out = [] \<and> sd_step d d1" by blast
  have "sd_le d d1 \<and> votes_inv d1 (V \<union> set (votes_of out))"
  proof (cases "votes_of out")
    case Nil
    with o vote_outcome_none have "sd_step d d1" by (metis sd_step_refl)
    with votes_inv_step [OF "2.prems"(3)] Nil show ?thesis by (simp add: sd_step_def)
  next
    case (Cons v vs)
    with o have "out = OUT_Vote (Ok v)" "vs = []" "vote_outcome d (Ok v) d1"
      by (auto elim!: votes_of.elims)
    with votes_inv_vote [OF "2.prems"(3)] Cons show ?thesis by (auto simp: vote_outcome_def)
  qed
  then have le: "sd_le d d1" and inv1: "votes_inv d1 (V \<union> set (votes_of out))" by auto
  from "2.IH" [OF h [symmetric] refl d1 inv1 rest] obtain d' where "sr_inv t" "sr_persisted t = Some d'" "sd_le d1 d'"
    "votes_inv d' (V \<union> set (votes_of out) \<union> set (concat (map votes_of outs')))" by blast
  with sd_le_trans [OF le] outs show ?case by (auto simp: Un_assoc)
qed

text \<open>
  C7. Whatever messages a validator process sends to its SafetyRules, in any order and of both the
  2-chain and the 3-chain protocol, the persisted safety data only moves forward: to a later epoch,
  or within the epoch to no lower last voted round, preferred round and one-chain round. This holds
  across storage failures, and every message leaves the cache consistent with the storage.
\<close>

theorem safety_data_forward:
  assumes "sr_inv s" and "sr_persisted s = Some d" and "last_vote_ok d"
    and "handle_messages C msgs s = (outs, t)"
  shows "\<exists>d'. sr_inv t \<and> sr_persisted t = Some d' \<and> sd_le d d' \<and> last_vote_ok d'"
proof -
  have "votes_inv d {}" using assms(3) by (simp add: votes_inv_def one_vote_each_def votes_covered_def)
  from handle_messages_inv [OF assms(1,2) this assms(4)] show ?thesis by (auto simp: votes_inv_def)
qed

text \<open>
  C3. No equivocation: among all the votes a SafetyRules instance returns over any sequence of
  messages there is at most one for each epoch and round, whether it was asked for a 2-chain or a
  3-chain vote. Asked again for a round it voted in, it returns the same vote.
\<close>

theorem one_vote_per_round:
  assumes "sr_inv s" and "sr_persisted s = Some d" and "last_vote_ok d"
    and "handle_messages C msgs s = (outs, t)"
    and "v \<in> set (concat (map votes_of outs))" and "v' \<in> set (concat (map votes_of outs))"
    and "v_epoch v = v_epoch v'" and "v_round v = v_round v'"
  shows "v = v'"
proof -
  have "votes_inv d {}" using assms(3) by (simp add: votes_inv_def one_vote_each_def votes_covered_def)
  from handle_messages_inv [OF assms(1,2) this assms(4)] have "one_vote_each (set (concat (map votes_of outs)))"
    by (auto simp: votes_inv_def)
  with assms(5-8) show ?thesis unfolding one_vote_each_def by blast
qed

section \<open>With the cache switched off\<close>

fun output_ok :: "safety_rules_output \<Rightarrow> bool" where
  "output_ok (OUT_State r) = is_ok r"
| "output_ok (OUT_Unit r) = is_ok r"
| "output_ok (OUT_Vote r) = is_ok r"
| "output_ok (OUT_Signature r) = is_ok r"

definition cacheless :: "safety_rules \<Rightarrow> bool" where
  "cacheless s \<longleftrightarrow> \<not> enable_cached_safety_data (sr_persistent_storage s)"

lemma cacheless_load: "cacheless s \<Longrightarrow> on_storage pss_safety_data s \<noteq> (Ok d, t)"
  using uncached_safety_data_fails [of "sr_persistent_storage s" d] by (auto simp: cacheless_def on_storage_eq)

lemma cacheless_set_waypoint: "cacheless s \<Longrightarrow> on_storage (pss_set_waypoint w) s = (r, t) \<Longrightarrow> cacheless t"
  by (auto simp: cacheless_def on_storage_eq pss_set_waypoint_def split: prod.splits)

definition never_ok :: "'a sr_method \<Rightarrow> bool" where
  "never_ok m \<longleftrightarrow> (\<forall>s. cacheless s \<longrightarrow> \<not> is_ok (fst (m s)))"

lemma never_ok_load: "never_ok (sbind (on_storage pss_safety_data) f)"
  unfolding never_ok_def
proof (intro allI impI)
  fix s assume "cacheless s"
  obtain r t where "on_storage pss_safety_data s = (r, t)" by fastforce
  with cacheless_load [OF \<open>cacheless s\<close>] show "\<not> is_ok (fst (sbind (on_storage pss_safety_data) f s))"
    by (cases r) (auto simp: sbind_def)
qed

lemma never_ok_step:
  assumes "keeps (\<lambda>s t. cacheless s \<longrightarrow> cacheless t) m" and "\<And>a. never_ok (f a)"
  shows "never_ok (sbind m f)"
  unfolding never_ok_def
proof (intro allI impI)
  fix s assume "cacheless s"
  obtain r t where m: "m s = (r, t)" by fastforce
  with keepsD [OF assms(1)] \<open>cacheless s\<close> have "cacheless t" by blast
  with m assms(2) show "\<not> is_ok (fst (sbind m f s))" by (cases r) (simp_all add: sbind_def never_ok_def)
qed

lemma keeps_cacheless_sget: "keeps (\<lambda>s t. cacheless s \<longrightarrow> cacheless t) (sget g)"
  by (simp add: keeps_def sget_def)

lemma keeps_cacheless_slift: "keeps (\<lambda>s t. cacheless s \<longrightarrow> cacheless t) (slift r)"
  by (simp add: keeps_def slift_def)

lemma keeps_cacheless_waypoint:
  "keeps (\<lambda>s t. cacheless s \<longrightarrow> cacheless t) (if b then on_storage (pss_set_waypoint w) else slift r)"
  using cacheless_set_waypoint by (auto simp: keeps_def slift_def) (metis prod.collapse)

lemma never_ok_assoc:
  assumes "never_ok (sbind m (\<lambda>a. sbind (f a) g))"
  shows "never_ok (sbind (sbind m f) g)"
proof -
  have "sbind (sbind m f) g s = sbind m (\<lambda>a. sbind (f a) g) s" for s
    by (simp add: sbind_def split: prod.splits result.splits)
  with assms show ?thesis by (simp add: never_ok_def)
qed

lemmas never_ok_intros = never_ok_assoc never_ok_load never_ok_step [OF keeps_cacheless_sget]
  never_ok_step [OF keeps_cacheless_slift] never_ok_step [OF keeps_cacheless_waypoint]

lemma never_ok_methods:
  "never_ok guarded_consensus_state" "never_ok (guarded_initialize C p)" "never_ok (guarded_construct_and_sign_vote C now mvp)"
  "never_ok (guarded_sign_proposal C bd)" "never_ok (guarded_sign_timeout C to)"
  "never_ok (guarded_sign_timeout_with_qc C to2 tc)" "never_ok (guarded_construct_and_sign_vote_two_chain C now mvp tc)"
  unfolding guarded_consensus_state_def guarded_initialize_def guarded_construct_and_sign_vote_def guarded_sign_proposal_def
    guarded_sign_timeout_def guarded_sign_timeout_with_qc_def guarded_construct_and_sign_vote_two_chain_def
    verify_proposal_def Let_def
  by (intro never_ok_intros)+


end
