(* ===== verification/Two_Chain.thy ===== *)
theory Two_Chain
  imports Main
begin

text \<open>
  The 2-chain protocol in the abstract: what the votes and timeouts of the honest validators of one
  epoch have to satisfy so that a block that is directly extended by a block of the next round is an
  ancestor of everything certified later. The locale states the laws; SafetyRules is shown to keep
  them in \<open>Two_Chain_Safety\<close>, where the locale is interpreted on the system of validators.

  \<open>voted s a b p\<close>: validator \<open>a\<close> has voted for block \<open>b\<close> with parent \<open>p\<close>. \<open>timed_out s a r h\<close>: it has
  signed a timeout for round \<open>r\<close> that reports a quorum certificate of round \<open>h\<close>. \<open>cert s b p\<close>: a quorum
  has voted for \<open>b\<close> with parent \<open>p\<close>. \<open>anc s b c\<close>: \<open>b\<close> is an ancestor of \<open>c\<close>, or is \<open>c\<close>.
\<close>

locale two_chain_protocol =
  fixes inv :: "'s \<Rightarrow> bool"
    and quorum :: "'s \<Rightarrow> 'a set \<Rightarrow> bool"
    and honest :: "'s \<Rightarrow> 'a set"
    and rnd :: "'b \<Rightarrow> nat"
    and voted :: "'s \<Rightarrow> 'a \<Rightarrow> 'b \<Rightarrow> 'b \<Rightarrow> bool"
    and timed_out :: "'s \<Rightarrow> 'a \<Rightarrow> nat \<Rightarrow> nat \<Rightarrow> bool"
    and cert :: "'s \<Rightarrow> 'b \<Rightarrow> 'b \<Rightarrow> bool"
    and anc :: "'s \<Rightarrow> 'b \<Rightarrow> 'b \<Rightarrow> bool"
  assumes intersect: "inv s \<Longrightarrow> quorum s A \<Longrightarrow> quorum s B \<Longrightarrow> \<exists>a. a \<in> A \<and> a \<in> B \<and> a \<in> honest s"
    and cert_votes: "inv s \<Longrightarrow> cert s b p \<Longrightarrow> \<exists>A. quorum s A \<and> (\<forall>a. a \<in> A \<longrightarrow> a \<in> honest s \<longrightarrow> voted s a b p)"
    and vote_once: "inv s \<Longrightarrow> a \<in> honest s \<Longrightarrow> voted s a b p \<Longrightarrow> voted s a b' p' \<Longrightarrow> rnd b = rnd b' \<Longrightarrow> b = b' \<and> p = p'"
    and vote_timeout: "inv s \<Longrightarrow> a \<in> honest s \<Longrightarrow> voted s a b p \<Longrightarrow> timed_out s a r h \<Longrightarrow> rnd b \<le> r \<Longrightarrow> rnd p \<le> h"
    and vote_parent: "inv s \<Longrightarrow> a \<in> honest s \<Longrightarrow> voted s a b p \<Longrightarrow> rnd p < rnd b"
    and vote_justified: "inv s \<Longrightarrow> a \<in> honest s \<Longrightarrow> voted s a b p \<Longrightarrow> 0 < rnd p \<Longrightarrow> \<exists>q. cert s p q"
    and vote_rule: "inv s \<Longrightarrow> a \<in> honest s \<Longrightarrow> voted s a b p \<Longrightarrow>
      rnd b = Suc (rnd p) \<or>
      (\<exists>A h r. rnd b = Suc r \<and> quorum s A \<and> h \<le> rnd p \<and>
         (\<forall>x. x \<in> A \<longrightarrow> x \<in> honest s \<longrightarrow> (\<exists>h'. h' \<le> h \<and> timed_out s x r h')))"
    and anc_refl: "anc s b b"
    and anc_step: "anc s b p \<Longrightarrow> cert s c p \<Longrightarrow> anc s b c"
    and anc_cases: "anc s b c \<Longrightarrow> b = c \<or> (\<exists>p. anc s b p \<and> cert s c p)"
begin

lemma cert_voter:
  assumes "inv s" and "cert s b p"
  obtains a where "a \<in> honest s" and "voted s a b p"
proof -
  from cert_votes [OF assms] obtain A where A: "quorum s A" "\<forall>a. a \<in> A \<longrightarrow> a \<in> honest s \<longrightarrow> voted s a b p" by auto
  from intersect [OF assms(1) A(1) A(1)] A(2) that show thesis by auto
qed

lemma cert_parent: "inv s \<Longrightarrow> cert s b p \<Longrightarrow> rnd p < rnd b"
  by (metis cert_voter vote_parent)

lemma cert_common_voter:
  assumes "inv s" and "cert s b p" and "quorum s B"
  obtains a where "a \<in> B" and "a \<in> honest s" and "voted s a b p"
proof -
  from cert_votes [OF assms(1,2)] obtain A where A: "quorum s A" "\<forall>a. a \<in> A \<longrightarrow> a \<in> honest s \<longrightarrow> voted s a b p" by auto
  from intersect [OF assms(1) A(1) assms(3)] A(2) that show thesis by auto
qed

text \<open>At most one block is certified in a round.\<close>

lemma cert_unique:
  assumes inv: "inv s" and "cert s b p" and b': "cert s b' p'" and "rnd b = rnd b'"
  shows "b = b' \<and> p = p'"
proof -
  from cert_votes [OF inv b'] obtain B where B: "quorum s B" "\<forall>a. a \<in> B \<longrightarrow> a \<in> honest s \<longrightarrow> voted s a b' p'" by auto
  obtain a where "a \<in> B" "a \<in> honest s" "voted s a b p"
    by (rule cert_common_voter [OF inv assms(2) B(1)])
  with B(2) vote_once [OF inv] assms(4) show ?thesis by blast
qed

text \<open>
  A block that follows a committed one in the rounds does not branch off below it: its parent has at
  least the committed round. The timeout certificate that could justify a lower parent was signed by
  a validator that had already voted for the committing block.
\<close>

lemma parent_not_below:
  assumes inv: "inv s" and c1: "cert s b1 b0" "rnd b1 = Suc (rnd b0)"
    and c: "cert s b p" and above: "rnd b1 < rnd b"
  shows "rnd b0 \<le> rnd p"
proof (rule ccontr)
  assume low: "\<not> rnd b0 \<le> rnd p"
  obtain v where v: "v \<in> honest s" "voted s v b p" by (rule cert_voter [OF inv c])
  from vote_rule [OF inv v] low above c1(2) obtain A h r where tc: "rnd b = Suc r" "quorum s A" "h \<le> rnd p"
    "\<forall>x. x \<in> A \<longrightarrow> x \<in> honest s \<longrightarrow> (\<exists>h'. h' \<le> h \<and> timed_out s x r h')" by auto
  obtain a where a: "a \<in> A" "a \<in> honest s" "voted s a b1 b0"
    by (rule cert_common_voter [OF inv c1(1) tc(2)])
  with tc(4) obtain h' where "h' \<le> h" "timed_out s a r h'" by auto
  with vote_timeout [OF inv a(2,3)] tc(1,3) above low show False by force
qed

lemma commit_is_ancestor:
  assumes inv: "inv s" and c1: "cert s b1 b0" "rnd b1 = Suc (rnd b0)" and pos: "0 < rnd b0"
  shows "cert s b p \<Longrightarrow> rnd b0 \<le> rnd b \<Longrightarrow> anc s b0 b"
proof (induction "rnd b" arbitrary: b p rule: less_induct)
  case less
  obtain v1 where "v1 \<in> honest s" "voted s v1 b1 b0" by (rule cert_voter [OF inv c1(1)])
  with vote_justified [OF inv] pos obtain q0 where q0: "cert s b0 q0" by blast
  consider "rnd b = rnd b0" | "rnd b = rnd b1" | "rnd b1 < rnd b" using less.prems(2) c1(2) by linarith
  then show ?case
  proof cases
    case 1
    with cert_unique [OF inv less.prems(1) q0] anc_refl show ?thesis by simp
  next
    case 2
    with cert_unique [OF inv less.prems(1) c1(1)] have "b = b1" "p = b0" by auto
    with anc_step [OF anc_refl c1(1)] show ?thesis by simp
  next
    case 3
    have low: "rnd b0 \<le> rnd p" by (rule parent_not_below [OF inv c1 less.prems(1) 3])
    obtain v where "v \<in> honest s" "voted s v b p" by (rule cert_voter [OF inv less.prems(1)])
    with vote_justified [OF inv] low pos obtain q where "cert s p q" by fastforce
    with less.hyps [OF cert_parent [OF inv less.prems(1)]] low have "anc s b0 p" by blast
    with less.prems(1) show ?thesis by (rule anc_step [rotated])
  qed
qed

lemma anc_rnd:
  assumes "inv s" and "anc s b c" and "rnd c \<le> rnd b"
  shows "b = c"
proof -
  have "rnd b < rnd c \<or> b = c" if "anc s b c" for c
    using that
  proof (induction "rnd c" arbitrary: c rule: less_induct)
    case less
    from anc_cases [OF less.prems] cert_parent [OF assms(1)] less.hyps show ?case by fastforce
  qed
  from this [OF assms(2)] assms(3) show ?thesis by auto
qed

end

end
