(* ===== verification/Two_Chain_Safety.thy ===== *)
theory Two_Chain_Safety
  imports Safety_Rules Two_Chain
begin

text \<open>
  A system of validators that run SafetyRules in its 2-chain mode: every honest validator calls the
  methods of its SafetyRules in any order, with any input, over any number of epochs, with storage
  failures and restarts in between; faulty validators are unconstrained. The log of a validator
  holds what it has signed and released.

  The environment \<open>world\<close> gives the cryptography, the validator set each epoch has been agreed to
  have, the faulty validators, and the vote data that occurs. A step that uses a certificate requires
  that the signatures in it under honest keys were produced by their owners
  (\<open>available_qc\<close>, \<open>available_tc\<close>: unforgeability), and that a timeout certificate is of the epoch of
  the proposal. The last condition is not checked by the code.
\<close>

section \<open>The system\<close>

datatype log_entry =
    L_vote vote_data ledger_info
  | L_timeout timeout_signing_repr
  | L_proposal block_data

fun message_of :: "log_entry \<Rightarrow> crypto_hash" where
  "message_of (L_vote vd li) = H_LedgerInfo li"
| "message_of (L_timeout t) = H_TimeoutSigningRepr t"
| "message_of (L_proposal bd) = H_BlockData bd"

record world =
  w_crypto :: crypto
  w_verifier :: "u64 \<Rightarrow> validator_verifier"
  w_faulty :: "account_address set"
  w_vote_data :: "vote_data set"

record sys =
  nodes :: "account_address \<Rightarrow> safety_rules"
  log :: "account_address \<Rightarrow> log_entry set"

text \<open>A signature that verifies under the key of an honest validator was made by that validator.\<close>

definition genuine :: "world \<Rightarrow> u64 \<Rightarrow> sys \<Rightarrow> account_address \<Rightarrow> crypto_hash \<Rightarrow> signature \<Rightarrow> bool" where
  "genuine W e s a msg sig \<longleftrightarrow>
     (a \<notin> w_faulty W \<longrightarrow> vv_verify (w_crypto W) (w_verifier W e) a msg sig = Ok () \<longrightarrow>
        msg \<in> message_of ` log s a)"

definition available_li :: "world \<Rightarrow> u64 \<Rightarrow> sys \<Rightarrow> ledger_info_with_signatures \<Rightarrow> bool" where
  "available_li W e s l \<longleftrightarrow>
     (\<forall>a sig. btree_get (lis_signatures l) a = Some sig \<longrightarrow> genuine W e s a (H_LedgerInfo (lis_ledger_info l)) sig)"

definition available_qc :: "world \<Rightarrow> u64 \<Rightarrow> sys \<Rightarrow> quorum_cert \<Rightarrow> bool" where
  "available_qc W e s qc \<longleftrightarrow> available_li W e s (qc_signed_ledger_info qc) \<and> qc_vote_data qc \<in> w_vote_data W"

definition available_tc :: "world \<Rightarrow> u64 \<Rightarrow> sys \<Rightarrow> two_chain_timeout_certificate \<Rightarrow> bool" where
  "available_tc W e s tc \<longleftrightarrow>
     (\<forall>a r sig. btree_get (tctc_signatures tc) a = Some (r, sig) \<longrightarrow>
        genuine W e s a (H_TimeoutSigningRepr
          \<lparr>tsr_epoch = tctc_epoch tc, tsr_round = tctc_round tc, tsr_hqc_round = r\<rparr>) sig)"

definition set_node :: "account_address \<Rightarrow> safety_rules \<Rightarrow> log_entry set \<Rightarrow> sys \<Rightarrow> sys" where
  "set_node a n new s = \<lparr>nodes = (nodes s)(a := n), log = (log s)(a := log s a \<union> new)\<rparr>"

definition agreed_epoch :: "world \<Rightarrow> safety_rules \<Rightarrow> bool" where
  "agreed_epoch W n \<longleftrightarrow> (\<forall>es. sr_epoch_state n = Some es \<longrightarrow> es_verifier es = w_verifier W (es_epoch es))"

fun result_log :: "('a \<Rightarrow> log_entry) \<Rightarrow> ('a, sr_error) result \<Rightarrow> log_entry set" where
  "result_log f (Ok a) = {f a}"
| "result_log f (Err e) = {}"
| "result_log f Panic = {}"

definition vote_entry :: "vote \<Rightarrow> log_entry" where
  "vote_entry v = L_vote (v_vote_data v) (v_ledger_info v)"

inductive sys_step :: "world \<Rightarrow> sys \<Rightarrow> sys \<Rightarrow> bool" for W where
  initialize:
    "a \<notin> w_faulty W \<Longrightarrow> guarded_initialize (w_crypto W) ecp (nodes s a) = (r, n) \<Longrightarrow> agreed_epoch W n \<Longrightarrow>
     sys_step W s (set_node a n {} s)"
| vote:
    "a \<notin> w_faulty W \<Longrightarrow>
     guarded_construct_and_sign_vote_two_chain (w_crypto W) now mvp maybe_tc (nodes s a) = (r, n) \<Longrightarrow>
     available_qc W (b_epoch (vp_block (msvp_vote_proposal mvp))) s (b_quorum_cert (vp_block (msvp_vote_proposal mvp))) \<Longrightarrow>
     (\<And>tc. maybe_tc = Some tc \<Longrightarrow> available_tc W (b_epoch (vp_block (msvp_vote_proposal mvp))) s tc \<and>
        tctc_epoch tc = b_epoch (vp_block (msvp_vote_proposal mvp))) \<Longrightarrow>
     (\<And>v. r = Ok v \<Longrightarrow> v_vote_data v \<in> w_vote_data W) \<Longrightarrow>
     sys_step W s (set_node a n (result_log vote_entry r) s)"
| timeout:
    "a \<notin> w_faulty W \<Longrightarrow> guarded_sign_timeout_with_qc (w_crypto W) t maybe_tc (nodes s a) = (r, n) \<Longrightarrow>
     sys_step W s (set_node a n (result_log (\<lambda>_. L_timeout (signing_format t)) r) s)"
| propose:
    "a \<notin> w_faulty W \<Longrightarrow> guarded_sign_proposal (w_crypto W) bd (nodes s a) = (r, n) \<Longrightarrow>
     sys_step W s (set_node a n (result_log (\<lambda>_. L_proposal bd) r) s)"
| restart:
    "a \<notin> w_faulty W \<Longrightarrow>
     sr_new (w_crypto W) (pss_new (internal_store (sr_persistent_storage (nodes s a))) cache) verify export = Ok n \<Longrightarrow>
     sys_step W s (set_node a n {} s)"
| storage_fault:
    "a \<notin> w_faulty W \<Longrightarrow> p = sr_persistent_storage (nodes s a) \<Longrightarrow>
     st = (internal_store p)\<lparr>st_get_fault := gf, st_set_fault := sf\<rparr> \<Longrightarrow>
     sys_step W s (set_node a ((nodes s a)\<lparr>sr_persistent_storage := p\<lparr>internal_store := st\<rparr>\<rparr>) {} s)"

definition sys_init :: "world \<Rightarrow> sys \<Rightarrow> bool" where
  "sys_init W s \<longleftrightarrow>
     (\<forall>a. a \<notin> w_faulty W \<longrightarrow> log s a = {} \<and>
        (\<exists>st ck ek w cache p verify export. pss_initialize st a ck ek w cache = Ok p \<and>
           sr_new (w_crypto W) p verify export = Ok (nodes s a)))"

inductive reachable :: "world \<Rightarrow> sys \<Rightarrow> bool" for W where
  init: "sys_init W s \<Longrightarrow> reachable W s"
| step: "reachable W s \<Longrightarrow> sys_step W s t \<Longrightarrow> reachable W t"

inductive_cases sys_stepE: "sys_step W s t"

section \<open>The log of one validator\<close>

text \<open>
  How the persisted safety data bounds what the validator has signed: votes and timeouts of the
  current epoch are not above the last voted round, the parents of the votes are not above the
  one-chain round, there is one vote per round, and a timeout reports at least the parent round of
  every earlier vote.
\<close>

definition votes_bounded :: "safety_data \<Rightarrow> log_entry set \<Rightarrow> bool" where
  "votes_bounded d L \<longleftrightarrow>
     (\<forall>vd li. L_vote vd li \<in> L \<longrightarrow> bi_epoch (vd_proposed vd) \<le> sd_epoch d \<and>
        (bi_epoch (vd_proposed vd) = sd_epoch d \<longrightarrow>
           bi_round (vd_proposed vd) \<le> sd_last_voted_round d \<and> bi_round (vd_parent vd) \<le> sd_one_chain_round d))"

definition timeouts_bounded :: "safety_data \<Rightarrow> log_entry set \<Rightarrow> bool" where
  "timeouts_bounded d L \<longleftrightarrow>
     (\<forall>t. L_timeout t \<in> L \<longrightarrow> tsr_epoch t \<le> sd_epoch d \<and>
        (tsr_epoch t = sd_epoch d \<longrightarrow> tsr_round t \<le> sd_last_voted_round d))"

definition one_vote :: "log_entry set \<Rightarrow> bool" where
  "one_vote L \<longleftrightarrow>
     (\<forall>vd li vd' li'. L_vote vd li \<in> L \<longrightarrow> L_vote vd' li' \<in> L \<longrightarrow>
        bi_epoch (vd_proposed vd) = bi_epoch (vd_proposed vd') \<longrightarrow>
        bi_round (vd_proposed vd) = bi_round (vd_proposed vd') \<longrightarrow> vd = vd' \<and> li = li')"

definition timeouts_report :: "log_entry set \<Rightarrow> bool" where
  "timeouts_report L \<longleftrightarrow>
     (\<forall>vd li t. L_vote vd li \<in> L \<longrightarrow> L_timeout t \<in> L \<longrightarrow> bi_epoch (vd_proposed vd) = tsr_epoch t \<longrightarrow>
        bi_round (vd_proposed vd) \<le> tsr_round t \<longrightarrow> bi_round (vd_parent vd) \<le> tsr_hqc_round t)"

definition log_inv :: "safety_data \<Rightarrow> log_entry set \<Rightarrow> bool" where
  "log_inv d L \<longleftrightarrow> votes_bounded d L \<and> timeouts_bounded d L \<and> one_vote L \<and> timeouts_report L \<and>
     (\<forall>v. sd_last_vote d = Some v \<longrightarrow> vote_entry v \<in> L)"

lemmas log_inv_defs = votes_bounded_def timeouts_bounded_def one_vote_def timeouts_report_def vote_entry_def

lemma log_inv_empty: "log_inv (safety_data_new e 0 0 0 None) {}"
  by (simp add: log_inv_def log_inv_defs safety_data_new_def)

lemma log_inv_vote:
  assumes L: "log_inv d L" and e: "bi_epoch (vd_proposed (v_vote_data v)) = sd_epoch d"
    and r: "sd_last_voted_round d < bi_round (vd_proposed (v_vote_data v))"
    and d': "sd_epoch d' = sd_epoch d" "sd_last_voted_round d' = bi_round (vd_proposed (v_vote_data v))"
      "sd_one_chain_round d \<le> sd_one_chain_round d'" "bi_round (vd_parent (v_vote_data v)) \<le> sd_one_chain_round d'"
      "sd_last_vote d' = Some v"
  shows "log_inv d' (L \<union> {vote_entry v})"
proof -
  from L have vb: "votes_bounded d L" and tb: "timeouts_bounded d L" and ov: "one_vote L" and tr: "timeouts_report L"
    by (simp_all add: log_inv_def)
  have "votes_bounded d' (L \<union> {vote_entry v})"
    using vb r d' by (auto simp: votes_bounded_def vote_entry_def e intro: order_trans less_imp_le)
  moreover have "timeouts_bounded d' (L \<union> {vote_entry v})"
    using tb r d' by (auto simp: timeouts_bounded_def vote_entry_def intro: order_trans less_imp_le)
  moreover have "one_vote (L \<union> {vote_entry v})"
    using ov vb e r unfolding one_vote_def votes_bounded_def vote_entry_def by (auto simp: not_le [symmetric])
  moreover have "timeouts_report (L \<union> {vote_entry v})"
    using tr tb e r unfolding timeouts_report_def timeouts_bounded_def vote_entry_def
    by (auto dest: less_le_trans)
  ultimately show ?thesis using d'(5) by (simp add: log_inv_def)
qed

lemma log_inv_timeout:
  assumes L: "log_inv d L" and e: "tsr_epoch t = sd_epoch d"
    and r: "sd_last_voted_round d \<le> tsr_round t" and h: "sd_one_chain_round d \<le> tsr_hqc_round t"
  shows "log_inv (d\<lparr>sd_last_voted_round := tsr_round t\<rparr>) (L \<union> {L_timeout t})"
proof -
  let ?d = "d\<lparr>sd_last_voted_round := tsr_round t\<rparr>"
  from L have vb: "votes_bounded d L" and tb: "timeouts_bounded d L" and ov: "one_vote L" and tr: "timeouts_report L"
    by (simp_all add: log_inv_def)
  have "votes_bounded ?d (L \<union> {L_timeout t})"
    using vb r by (auto simp: votes_bounded_def intro: order_trans)
  moreover have "timeouts_bounded ?d (L \<union> {L_timeout t})"
    using tb r e by (auto simp: timeouts_bounded_def intro: order_trans)
  moreover have "one_vote (L \<union> {L_timeout t})" using ov by (auto simp: one_vote_def)
  moreover have "timeouts_report (L \<union> {L_timeout t})"
    using tr vb e h unfolding timeouts_report_def votes_bounded_def by (auto intro: order_trans)
  ultimately show ?thesis using L by (simp add: log_inv_def vote_entry_def)
qed

lemma log_inv_last_voted:
  assumes "log_inv d L" and "sd_last_voted_round d \<le> r"
  shows "log_inv (d\<lparr>sd_last_voted_round := r\<rparr>) L"
  using assms by (auto simp: log_inv_def votes_bounded_def timeouts_bounded_def intro: order_trans)

lemma log_inv_epoch:
  assumes "log_inv d L" and "sd_epoch d < e"
  shows "log_inv (safety_data_new e 0 0 0 None) L"
  using assms by (auto simp: log_inv_def votes_bounded_def timeouts_bounded_def safety_data_new_def)

lemma log_inv_proposal: "log_inv d (L \<union> {L_proposal bd}) = log_inv d L"
  by (simp add: log_inv_def log_inv_defs)

section \<open>Quorums behind certificates\<close>

definition quorum_voted :: "world \<Rightarrow> u64 \<Rightarrow> sys \<Rightarrow> block_info \<Rightarrow> block_info \<Rightarrow> bool" where
  "quorum_voted W e s b p \<longleftrightarrow> bi_epoch b = e \<and>
     (\<exists>as. distinct as \<and> check_voting_power (w_verifier W e) as = Ok () \<and>
        (\<forall>a \<in> set as. a \<notin> w_faulty W \<longrightarrow> (\<exists>li. L_vote \<lparr>vd_proposed = b, vd_parent = p\<rparr> li \<in> log s a)))"

definition quorum_timed_out :: "world \<Rightarrow> u64 \<Rightarrow> sys \<Rightarrow> round \<Rightarrow> round \<Rightarrow> bool" where
  "quorum_timed_out W e s r h \<longleftrightarrow>
     (\<exists>as. distinct as \<and> check_voting_power (w_verifier W e) as = Ok () \<and>
        (\<forall>a \<in> set as. a \<notin> w_faulty W \<longrightarrow>
           (\<exists>h'. h' \<le> h \<and> L_timeout \<lparr>tsr_epoch = e, tsr_round = r, tsr_hqc_round = h'\<rparr> \<in> log s a)))"

text \<open>What every vote of an honest validator is based on.\<close>

definition vote_ok :: "world \<Rightarrow> sys \<Rightarrow> vote_data \<Rightarrow> ledger_info \<Rightarrow> bool" where
  "vote_ok W s vd li \<longleftrightarrow>
     vd \<in> w_vote_data W \<and>
     li_consensus_data_hash li = hash_of (w_crypto W) (H_VoteData vd) \<and>
     li_commit_info li =
       (if unat (bi_round (vd_proposed vd)) = unat (bi_round (vd_parent vd)) + 1 then vd_parent vd
        else block_info_empty) \<and>
     bi_epoch (vd_parent vd) = bi_epoch (vd_proposed vd) \<and>
     bi_round (vd_parent vd) < bi_round (vd_proposed vd) \<and>
     (bi_round (vd_parent vd) \<noteq> 0 \<longrightarrow> (\<exists>q. quorum_voted W (bi_epoch (vd_proposed vd)) s (vd_parent vd) q)) \<and>
     (unat (bi_round (vd_proposed vd)) = unat (bi_round (vd_parent vd)) + 1 \<or>
      (\<exists>r h. unat (bi_round (vd_proposed vd)) = unat r + 1 \<and> h \<le> bi_round (vd_parent vd) \<and>
         quorum_timed_out W (bi_epoch (vd_proposed vd)) s r h))"

definition votes_ok :: "world \<Rightarrow> sys \<Rightarrow> bool" where
  "votes_ok W s \<longleftrightarrow> (\<forall>a vd li. a \<notin> w_faulty W \<longrightarrow> L_vote vd li \<in> log s a \<longrightarrow> vote_ok W s vd li)"

text \<open>The cryptographic assumptions: batch verification is sound and the occurring vote data does not collide.\<close>

definition ideal_crypto :: "world \<Rightarrow> bool" where
  "ideal_crypto W \<longleftrightarrow>
     batch_sound (w_crypto W) \<and> inj_on (\<lambda>vd. hash_of (w_crypto W) (H_VoteData vd)) (w_vote_data W)"

lemma log_mono_quorum_voted:
  "(\<And>a. log s a \<subseteq> log t a) \<Longrightarrow> quorum_voted W e s b p \<Longrightarrow> quorum_voted W e t b p"
  unfolding quorum_voted_def by blast

lemma log_mono_quorum_timed_out:
  "(\<And>a. log s a \<subseteq> log t a) \<Longrightarrow> quorum_timed_out W e s r h \<Longrightarrow> quorum_timed_out W e t r h"
  unfolding quorum_timed_out_def by blast

lemma log_mono_vote_ok:
  assumes "\<And>a. log s a \<subseteq> log t a" and "vote_ok W s vd li"
  shows "vote_ok W t vd li"
  using assms(2) log_mono_quorum_voted [OF assms(1)] log_mono_quorum_timed_out [OF assms(1)]
  unfolding vote_ok_def by blast

lemma message_of_vote: "H_LedgerInfo li \<in> message_of ` L \<longleftrightarrow> (\<exists>vd. L_vote vd li \<in> L)"
proof -
  have "H_LedgerInfo li = message_of x \<longleftrightarrow> (\<exists>vd. x = L_vote vd li)" for x by (cases x) auto
  then show ?thesis by (auto simp: image_iff)
qed

lemma message_of_timeout: "H_TimeoutSigningRepr t \<in> message_of ` L \<longleftrightarrow> L_timeout t \<in> L"
proof -
  have "H_TimeoutSigningRepr t = message_of x \<longleftrightarrow> x = L_timeout t" for x by (cases x) auto
  then show ?thesis by (simp add: image_iff)
qed

lemma li_quorum:
  assumes ideal: "ideal_crypto W" and ok: "verify_signatures (w_crypto W) (w_verifier W e) l = Ok ()"
    and av: "available_li W e s l"
  obtains as where "distinct as" and "check_voting_power (w_verifier W e) as = Ok ()"
    and "\<And>a. a \<in> set as \<Longrightarrow> a \<notin> w_faulty W \<Longrightarrow> \<exists>vd. L_vote vd (lis_ledger_info l) \<in> log s a"
proof -
  from ideal have "batch_sound (w_crypto W)" by (simp add: ideal_crypto_def)
  from verify_signatures_Ok_iff [OF this] ok
  have agg: "verify_aggregated_struct_signature (w_crypto W) (w_verifier W e)
      (H_LedgerInfo (lis_ledger_info l)) (lis_signatures l) = Ok ()" by simp
  show thesis
  proof (rule that [of "btree_keys (lis_signatures l)"])
    show "distinct (btree_keys (lis_signatures l))" by (rule btree.keys_distinct)
    show "check_voting_power (w_verifier W e) (btree_keys (lis_signatures l)) = Ok ()"
      using ok by (rule verify_signatures_quorum)
    fix a assume a: "a \<in> set (btree_keys (lis_signatures l))" "a \<notin> w_faulty W"
    then obtain sig where sig: "btree_get (lis_signatures l) a = Some sig" by (auto simp: btree_keys_get)
    with agg have "vv_verify (w_crypto W) (w_verifier W e) a (H_LedgerInfo (lis_ledger_info l)) sig = Ok ()"
      by (simp add: verify_aggregated_Ok_iff)
    with av sig a(2) have "H_LedgerInfo (lis_ledger_info l) \<in> message_of ` log s a"
      by (simp add: available_li_def genuine_def)
    then show "\<exists>vd. L_vote vd (lis_ledger_info l) \<in> log s a" by (simp add: message_of_vote)
  qed
qed

text \<open>All honest signers of a ledger info voted for the vote data it commits to by its hash.\<close>

lemma li_vote_data:
  assumes "ideal_crypto W" and "votes_ok W s" and "a \<notin> w_faulty W" and "L_vote vd' li \<in> log s a"
    and "li_consensus_data_hash li = hash_of (w_crypto W) (H_VoteData vd)" and "vd \<in> w_vote_data W"
  shows "vd' = vd"
proof -
  from assms(2-4) have "vote_ok W s vd' li" by (simp add: votes_ok_def)
  then have "hash_of (w_crypto W) (H_VoteData vd') = hash_of (w_crypto W) (H_VoteData vd)" "vd' \<in> w_vote_data W"
    using assms(5) by (simp_all add: vote_ok_def)
  with assms(1,6) show ?thesis by (auto simp: ideal_crypto_def dest: inj_onD)
qed

lemma qc_quorum_voted:
  assumes ideal: "ideal_crypto W" and votes: "votes_ok W s"
    and ok: "qc_verify (w_crypto W) (w_verifier W e) qc = Ok ()" and av: "available_qc W e s qc"
    and pos: "bi_round (certified_block qc) \<noteq> 0" and e: "bi_epoch (certified_block qc) = e"
  shows "quorum_voted W e s (certified_block qc) (parent_block qc)"
proof -
  from ok pos have sigs: "verify_signatures (w_crypto W) (w_verifier W e) (qc_signed_ledger_info qc) = Ok ()"
    and hash: "li_consensus_data_hash (qc_ledger_info qc) = hash_of (w_crypto W) (H_VoteData (qc_vote_data qc))"
    by (auto simp: qc_verify_Ok_iff)
  from av have avl: "available_li W e s (qc_signed_ledger_info qc)" and D: "qc_vote_data qc \<in> w_vote_data W"
    by (auto simp: available_qc_def)
  obtain as where as: "distinct as" "check_voting_power (w_verifier W e) as = Ok ()"
    "\<And>a. a \<in> set as \<Longrightarrow> a \<notin> w_faulty W \<Longrightarrow> \<exists>vd. L_vote vd (qc_ledger_info qc) \<in> log s a"
    using li_quorum [OF ideal sigs avl] unfolding qc_ledger_info_def by blast
  have vd: "\<lparr>vd_proposed = certified_block qc, vd_parent = parent_block qc\<rparr> = qc_vote_data qc"
    by (simp add: certified_block_def parent_block_def)
  have "\<exists>li. L_vote (qc_vote_data qc) li \<in> log s a" if "a \<in> set as" "a \<notin> w_faulty W" for a
    using as(3) [OF that] li_vote_data [OF ideal votes that(2) _ hash D] by blast
  with as(1,2) e vd show ?thesis unfolding quorum_voted_def by auto
qed

lemma tc_quorum_timed_out:
  assumes ok: "tctc_verify (w_crypto W) (w_verifier W e) tc = Ok ()" and av: "available_tc W e s tc"
    and e: "tctc_epoch tc = e"
  shows "quorum_timed_out W e s (tctc_round tc) (highest_hqc_round tc)"
  unfolding quorum_timed_out_def
proof (intro exI [of _ "btree_keys (tctc_signatures tc)"] conjI ballI impI)
  show "distinct (btree_keys (tctc_signatures tc))" by (rule btree.keys_distinct)
  show "check_voting_power (w_verifier W e) (btree_keys (tctc_signatures tc)) = Ok ()"
    by (rule tctc_verify_Ok(3) [OF ok])
  fix a assume "a \<in> set (btree_keys (tctc_signatures tc))" and hon: "a \<notin> w_faulty W"
  then obtain r sig where g: "btree_get (tctc_signatures tc) a = Some (r, sig)" by (auto simp: btree_keys_get)
  let ?t = "\<lparr>tsr_epoch = tctc_epoch tc, tsr_round = tctc_round tc, tsr_hqc_round = r\<rparr>"
  from tctc_verify_Ok(4) [OF ok g] av g hon
  have "r \<le> highest_hqc_round tc" "H_TimeoutSigningRepr ?t \<in> message_of ` log s a"
    by (auto simp: available_tc_def genuine_def)
  with e show "\<exists>h'. h' \<le> highest_hqc_round tc \<and>
      L_timeout \<lparr>tsr_epoch = e, tsr_round = tctc_round tc, tsr_hqc_round = h'\<rparr> \<in> log s a"
    by (auto simp: message_of_timeout)
qed

section \<open>The invariant of the system\<close>

definition node_ok :: "world \<Rightarrow> safety_rules \<Rightarrow> log_entry set \<Rightarrow> bool" where
  "node_ok W n L \<longleftrightarrow> sr_inv n \<and> agreed_epoch W n \<and>
     (\<exists>d. sr_persisted n = Some d \<and> log_inv d L \<and>
        (\<forall>es. sr_epoch_state n = Some es \<longrightarrow> es_epoch es = sd_epoch d))"

definition sys_inv :: "world \<Rightarrow> sys \<Rightarrow> bool" where
  "sys_inv W s \<longleftrightarrow> (\<forall>a. a \<notin> w_faulty W \<longrightarrow> node_ok W (nodes s a) (log s a)) \<and> votes_ok W s"

lemma sr_new_Ok:
  assumes "sr_new C p vf ex = Ok n"
  shows "sr_persistent_storage n = p" and "sr_epoch_state n = None"
  using assms by (auto simp: sr_new_def ok_simps)

lemma pss_initialize_Ok:
  assumes "pss_initialize st a ck ek w cache = Ok p"
  shows "cache_ok p" and "pss_persisted p = Some (safety_data_new 1 0 0 0 None)"
proof -
  from assms obtain st1 p1 u where
    s: "pss_set_safety_data (safety_data_new 1 0 0 0 None)
      \<lparr>enable_cached_safety_data = cache, cached_safety_data = Some (safety_data_new 1 0 0 0 None), internal_store = st1\<rparr> = (Ok u, p1)"
    and w: "pss_set_waypoint w p1 = (Ok (), p)"
    by (auto simp: pss_initialize_def Let_def split: prod.splits result.splits)
  from s have "cache_ok p1" "pss_persisted p1 = Some (safety_data_new 1 0 0 0 None)"
    by (auto simp: pss_set_safety_data_def cache_ok_def pss_persisted_def split: prod.splits result.splits
        dest!: kv_set_cases)
  with pss_set_waypoint_keeps [OF w] show "cache_ok p" "pss_persisted p = Some (safety_data_new 1 0 0 0 None)" by simp_all
qed

lemma sys_inv_init:
  assumes "sys_init W s"
  shows "sys_inv W s"
proof -
  have "node_ok W (nodes s a) (log s a)" if "a \<notin> w_faulty W" for a
  proof -
    from assms that obtain st ck ek w cache p vf ex where l: "log s a = {}"
      and p: "pss_initialize st a ck ek w cache = Ok p" and n: "sr_new (w_crypto W) p vf ex = Ok (nodes s a)"
      unfolding sys_init_def by blast
    show ?thesis
      using pss_initialize_Ok [OF p] sr_new_Ok [OF n] l log_inv_empty
      by (simp add: node_ok_def sr_inv_def sr_persisted_def agreed_epoch_def)
  qed
  moreover have "votes_ok W s" using assms by (auto simp: votes_ok_def sys_init_def)
  ultimately show ?thesis by (simp add: sys_inv_def)
qed

text \<open>A step of one validator keeps the invariant if it keeps it for that validator and its new votes are justified.\<close>

lemma sys_inv_set_node:
  assumes inv: "sys_inv W s" and n: "node_ok W n (log s a \<union> new)"
    and new: "\<And>vd li. L_vote vd li \<in> new \<Longrightarrow> vote_ok W s vd li"
  shows "sys_inv W (set_node a n new s)"
proof -
  have mono: "log s x \<subseteq> log (set_node a n new s) x" for x by (simp add: set_node_def)
  have "vote_ok W s vd li" if "x \<notin> w_faulty W" "L_vote vd li \<in> log (set_node a n new s) x" for x vd li
    using that inv new by (auto simp: set_node_def sys_inv_def votes_ok_def split: if_splits)
  then have "votes_ok W (set_node a n new s)"
    using log_mono_vote_ok [OF mono] by (auto simp: votes_ok_def)
  with inv n show ?thesis by (auto simp: sys_inv_def set_node_def)
qed

lemma sys_inv_node: "sys_inv W s \<Longrightarrow> a \<notin> w_faulty W \<Longrightarrow> node_ok W (nodes s a) (log s a)"
  by (simp add: sys_inv_def)

lemma node_ok_quiet:
  assumes "node_ok W n L" and "sr_inv n'" and "sr_persisted n' = sr_persisted n" and "sr_epoch_state n' = sr_epoch_state n"
  shows "node_ok W n' L"
  using assms by (simp add: node_ok_def agreed_epoch_def)

lemma sys_inv_initialize:
  assumes inv: "sys_inv W s" and a: "a \<notin> w_faulty W"
    and run: "guarded_initialize (w_crypto W) ecp (nodes s a) = (r, n)" and ag: "agreed_epoch W n"
  shows "sys_inv W (set_node a n {} s)"
proof (rule sys_inv_set_node [OF inv])
  from sys_inv_node [OF inv a] obtain d where ni: "sr_inv (nodes s a)" and d: "sr_persisted (nodes s a) = Some d"
    "log_inv d (log s a)" "\<forall>es. sr_epoch_state (nodes s a) = Some es \<longrightarrow> es_epoch es = sd_epoch d"
    by (auto simp: node_ok_def)
  from initialize_cases [OF ni run] d ag log_inv_epoch [OF d(2)] show "node_ok W n (log s a \<union> {})"
    by (auto simp: node_ok_def safety_data_new_def split: if_splits)
qed simp

lemma sys_inv_timeout:
  assumes inv: "sys_inv W s" and a: "a \<notin> w_faulty W"
    and run: "guarded_sign_timeout_with_qc (w_crypto W) to maybe_tc (nodes s a) = (r, n)"
  shows "sys_inv W (set_node a n (result_log (\<lambda>_. L_timeout (signing_format to)) r) s)"
proof (rule sys_inv_set_node [OF inv])
  let ?new = "result_log (\<lambda>_. L_timeout (signing_format to)) r"
  from sys_inv_node [OF inv a] obtain d where ni: "sr_inv (nodes s a)" "agreed_epoch W (nodes s a)"
    and d: "sr_persisted (nodes s a) = Some d" "log_inv d (log s a)"
    "\<forall>es. sr_epoch_state (nodes s a) = Some es \<longrightarrow> es_epoch es = sd_epoch d"
    by (auto simp: node_ok_def)
  from sign_timeout_with_qc_cases [OF ni(1) run] have n: "sr_inv n" "sr_epoch_state n = sr_epoch_state (nodes s a)"
    by (auto simp: sr_env_def)
  from sign_timeout_with_qc_cases [OF ni(1) run] d(1) consider
    "sr_persisted n = Some d" "\<forall>sig. r \<noteq> Ok sig"
    | "tct_epoch to = sd_epoch d" "safe_to_timeout to maybe_tc d = Ok ()" "sd_last_voted_round d \<le> tct_round to"
      "sr_persisted n = Some (d\<lparr>sd_last_voted_round := tct_round to\<rparr>)"
    by auto
  then show "node_ok W n (log s a \<union> ?new)"
  proof cases
    case 1
    then have "?new = {}" by (cases r) auto
    with 1 n d ni show ?thesis by (simp add: node_ok_def agreed_epoch_def)
  next
    case 2
    have "log_inv (d\<lparr>sd_last_voted_round := tct_round to\<rparr>) (log s a \<union> {L_timeout (signing_format to)})"
      using log_inv_timeout [OF d(2), of "signing_format to"] 2 safe_to_timeout_Ok(1) [OF 2(2)]
      by (simp add: signing_format_def)
    moreover have "log_inv (d\<lparr>sd_last_voted_round := tct_round to\<rparr>) (log s a)"
      by (rule log_inv_last_voted [OF d(2) 2(3)])
    ultimately have "log_inv (d\<lparr>sd_last_voted_round := tct_round to\<rparr>) (log s a \<union> ?new)" by (cases r) auto
    with 2 n d ni show ?thesis by (simp add: node_ok_def agreed_epoch_def)
  qed
qed (cases r; simp)

lemma sys_inv_propose:
  assumes inv: "sys_inv W s" and a: "a \<notin> w_faulty W"
    and run: "guarded_sign_proposal (w_crypto W) bd (nodes s a) = (r, n)"
  shows "sys_inv W (set_node a n (result_log (\<lambda>_. L_proposal bd) r) s)"
proof (rule sys_inv_set_node [OF inv])
  from keepsD [OF keeps_sign_proposal run] sys_inv_node [OF inv a]
  have "node_ok W n (log s a)" by (auto simp: quiet_def sr_env_def node_ok_def agreed_epoch_def)
  then show "node_ok W n (log s a \<union> result_log (\<lambda>_. L_proposal bd) r)"
    by (cases r) (auto simp: node_ok_def log_inv_proposal [simplified])
qed (cases r; simp)

lemma sys_inv_restart:
  assumes inv: "sys_inv W s" and a: "a \<notin> w_faulty W"
    and new: "sr_new (w_crypto W) (pss_new (internal_store (sr_persistent_storage (nodes s a))) cache) vf ex = Ok n"
  shows "sys_inv W (set_node a n {} s)"
proof (rule sys_inv_set_node [OF inv])
  from sys_inv_node [OF inv a] sr_new_Ok [OF new] show "node_ok W n (log s a \<union> {})"
    by (auto simp: node_ok_def agreed_epoch_def sr_inv_def sr_persisted_def pss_new_def cache_ok_def pss_persisted_def)
qed simp

lemma sys_inv_fault:
  assumes inv: "sys_inv W s" and a: "a \<notin> w_faulty W" and p: "p = sr_persistent_storage (nodes s a)"
    and st: "st = (internal_store p)\<lparr>st_get_fault := gf, st_set_fault := sf\<rparr>"
  shows "sys_inv W (set_node a ((nodes s a)\<lparr>sr_persistent_storage := p\<lparr>internal_store := st\<rparr>\<rparr>) {} s)"
proof (rule sys_inv_set_node [OF inv])
  from sys_inv_node [OF inv a] p st
  show "node_ok W ((nodes s a)\<lparr>sr_persistent_storage := p\<lparr>internal_store := st\<rparr>\<rparr>) (log s a \<union> {})"
    by (auto simp: node_ok_def agreed_epoch_def sr_inv_def sr_persisted_def cache_ok_def pss_persisted_def)
qed simp

text \<open>A new vote is justified by the certificates its validator has checked.\<close>

lemma new_vote_ok:
  assumes ideal: "ideal_crypto W" and votes: "votes_ok W s"
    and e: "b_epoch b = e" and qc: "qc_verify (w_crypto W) (w_verifier W e) (b_quorum_cert b) = Ok ()"
    and wf: "verify_well_formed now b = Ok ()"
    and av: "available_qc W e s (b_quorum_cert b)"
    and tcs: "\<And>tc. maybe_tc = Some tc \<Longrightarrow>
      tctc_verify (w_crypto W) (w_verifier W e) tc = Ok () \<and> available_tc W e s tc \<and> tctc_epoch tc = e"
    and vd: "gen_vote_data (w_crypto W) vp = Ok vd" and b: "b = vp_block vp" and D: "vd \<in> w_vote_data W"
    and safe: "safe_to_vote b maybe_tc = Ok ()"
    and li: "construct_ledger_info_2chain b (hash_of (w_crypto W) (H_VoteData vd)) = Ok li"
  shows "vote_ok W s vd li"
proof -
  let ?p = "certified_block (b_quorum_cert b)"
  note g = gen_vote_data_Ok [OF vd, folded b] and f = verify_well_formed_Ok [OF wf]
  have "\<exists>q. quorum_voted W e s ?p q" if "bi_round ?p \<noteq> 0"
    using qc_quorum_voted [OF ideal votes qc av that] f(3) e by auto
  moreover have "unat (b_round b) = unat (bi_round ?p) + 1 \<or>
      (\<exists>r h. unat (b_round b) = unat r + 1 \<and> h \<le> bi_round ?p \<and> quorum_timed_out W e s r h)"
  proof (cases maybe_tc)
    case None
    with safe_to_vote_Ok [OF safe] word_less_imp_unat [OF f(2)] show ?thesis by auto
  next
    case (Some tc)
    with safe_to_vote_Ok [OF safe] tcs [OF Some] tc_quorum_timed_out [of W e tc s] show ?thesis by auto
  qed
  ultimately show ?thesis
    using g f e D construct_ledger_info_2chain_Ok [OF li] by (simp add: vote_ok_def)
qed

lemma sys_inv_vote:
  assumes ideal: "ideal_crypto W" and inv: "sys_inv W s" and a: "a \<notin> w_faulty W"
    and run: "guarded_construct_and_sign_vote_two_chain (w_crypto W) now mvp maybe_tc (nodes s a) = (r, n)"
    and av: "available_qc W (b_epoch (vp_block (msvp_vote_proposal mvp))) s (b_quorum_cert (vp_block (msvp_vote_proposal mvp)))"
    and tcs: "\<And>tc. maybe_tc = Some tc \<Longrightarrow> available_tc W (b_epoch (vp_block (msvp_vote_proposal mvp))) s tc \<and>
        tctc_epoch tc = b_epoch (vp_block (msvp_vote_proposal mvp))"
    and D: "\<And>v. r = Ok v \<Longrightarrow> v_vote_data v \<in> w_vote_data W"
  shows "sys_inv W (set_node a n (result_log vote_entry r) s)"
proof (cases "\<exists>v. r = Ok v")
  case False
  then have new: "result_log vote_entry r = {}" by (cases r) auto
  from sys_inv_node [OF inv a] have ni: "node_ok W (nodes s a) (log s a)" "sr_inv (nodes s a)"
    by (auto simp: node_ok_def)
  from vote_two_chain_other [OF ni(2) run] False
  have "node_ok W n (log s a)" by (intro node_ok_quiet [OF ni(1)]) (auto simp: sr_env_def)
  then show ?thesis unfolding new by (intro sys_inv_set_node [OF inv]) auto
next
  case True
  then obtain v where r: "r = Ok v" by auto
  let ?b = "vp_block (msvp_vote_proposal mvp)"
  from sys_inv_node [OF inv a] obtain d where ni: "sr_inv (nodes s a)" "agreed_epoch W (nodes s a)"
    and d: "sr_persisted (nodes s a) = Some d" "log_inv d (log s a)"
    and es: "\<forall>es. sr_epoch_state (nodes s a) = Some es \<longrightarrow> es_epoch es = sd_epoch d"
    by (auto simp: node_ok_def)
  from vote_two_chain_other [OF ni(1) run] have n: "sr_inv n" "sr_epoch_state n = sr_epoch_state (nodes s a)"
    by (auto simp: sr_env_def)
  obtain d2 es2 where v: "sr_persisted (nodes s a) = Some d2" "sr_epoch_state (nodes s a) = Some es2"
    "b_epoch ?b = sd_epoch d2" "qc_verify (w_crypto W) (es_verifier es2) (b_quorum_cert ?b) = Ok ()"
    "verify_well_formed now ?b = Ok ()"
    "\<And>tc. maybe_tc = Some tc \<Longrightarrow> tctc_verify (w_crypto W) (es_verifier es2) tc = Ok ()"
    and out: "sd_last_vote d2 = Some v \<and> v_round v = b_round ?b \<and> sr_persisted n = Some d2 \<or>
      gen_vote_data (w_crypto W) (msvp_vote_proposal mvp) = Ok (v_vote_data v) \<and>
      sd_last_voted_round d2 < b_round ?b \<and> safe_to_vote ?b maybe_tc = Ok () \<and>
      construct_ledger_info_2chain ?b (hash_of (w_crypto W) (H_VoteData (v_vote_data v))) = Ok (v_ledger_info v) \<and>
      sr_persisted n = Some ((observe_qc (b_quorum_cert ?b) (d2\<lparr>sd_last_voted_round := b_round ?b\<rparr>))
         \<lparr>sd_last_vote := Some v\<rparr>)"
    by (rule vote_two_chain_Ok [OF ni(1) run [unfolded r]]) (rule that; assumption)
  from v(1) d(1) have d2: "d2 = d" by simp
  have ver: "es_verifier es2 = w_verifier W (b_epoch ?b)" using ni(2) v(2,3) es d2 by (simp add: agreed_epoch_def)
  from out show ?thesis
  proof (elim disjE conjE)
    assume old: "sd_last_vote d2 = Some v" "sr_persisted n = Some d2"
    then have "vote_entry v \<in> log s a" using d(2) d2 by (simp add: log_inv_def)
    then have "log s a \<union> result_log vote_entry r = log s a" and "vote_ok W s (v_vote_data v) (v_ledger_info v)"
      using r inv a by (auto simp: sys_inv_def votes_ok_def vote_entry_def)
    with n ni d es old d2 r show ?thesis
      by (intro sys_inv_set_node [OF inv]) (auto simp: node_ok_def agreed_epoch_def vote_entry_def)
  next
    assume gv: "gen_vote_data (w_crypto W) (msvp_vote_proposal mvp) = Ok (v_vote_data v)"
      and lv: "sd_last_voted_round d2 < b_round ?b" and safe: "safe_to_vote ?b maybe_tc = Ok ()"
      and li: "construct_ledger_info_2chain ?b (hash_of (w_crypto W) (H_VoteData (v_vote_data v))) = Ok (v_ledger_info v)"
      and per: "sr_persisted n = Some ((observe_qc (b_quorum_cert ?b) (d2\<lparr>sd_last_voted_round := b_round ?b\<rparr>))
         \<lparr>sd_last_vote := Some v\<rparr>)"
    have "vote_ok W s (v_vote_data v) (v_ledger_info v)"
      by (rule new_vote_ok [OF ideal _ refl v(4) [unfolded ver] v(5) av _ gv refl D [OF r] safe li])
        (use inv tcs v(6) ver in \<open>auto simp: sys_inv_def\<close>)
    moreover have "log_inv ((observe_qc (b_quorum_cert ?b) (d2\<lparr>sd_last_voted_round := b_round ?b\<rparr>))
         \<lparr>sd_last_vote := Some v\<rparr>) (log s a \<union> {vote_entry v})"
      using gen_vote_data_Ok [OF gv] lv v(3) d2 by (intro log_inv_vote [OF d(2)]) simp_all
    ultimately show ?thesis
      using n ni es v(3) d2 per r
      by (intro sys_inv_set_node [OF inv]) (auto simp: node_ok_def agreed_epoch_def vote_entry_def)
  qed
qed

lemma reachable_inv:
  assumes ideal: "ideal_crypto W" and "reachable W s"
  shows "sys_inv W s"
  using assms(2)
proof induction
  case (init s)
  then show ?case by (rule sys_inv_init)
next
  case (step s t)
  from step.hyps(2) step.IH show ?case
  proof cases
    case (vote a now mvp maybe_tc r n)
    from sys_inv_vote [OF ideal step.IH vote(2,3,4)] vote show ?thesis by blast
  qed (auto intro: sys_inv_initialize sys_inv_timeout sys_inv_propose sys_inv_restart sys_inv_fault)
qed

lemma reachable_log_mono: "sys_step W s t \<Longrightarrow> log s a \<subseteq> log t a"
  by (auto elim!: sys_stepE simp: set_node_def)

section \<open>The protocol laws hold\<close>

definition rnd_of :: "block_info \<Rightarrow> nat" where
  "rnd_of b = unat (bi_round b)"

inductive ancestor :: "world \<Rightarrow> u64 \<Rightarrow> sys \<Rightarrow> block_info \<Rightarrow> block_info \<Rightarrow> bool" for W e s where
  self: "ancestor W e s b b"
| child: "ancestor W e s b p \<Longrightarrow> quorum_voted W e s c p \<Longrightarrow> ancestor W e s b c"

text \<open>The assumption of the fault model for an epoch.\<close>

definition sound_epoch :: "world \<Rightarrow> u64 \<Rightarrow> bool" where
  "sound_epoch W e \<longleftrightarrow> sound_verifier (w_verifier W e) \<and> minority (w_verifier W e) (w_faulty W)"

definition has_voted :: "u64 \<Rightarrow> sys \<Rightarrow> account_address \<Rightarrow> block_info \<Rightarrow> block_info \<Rightarrow> bool" where
  "has_voted e s a b p \<longleftrightarrow> bi_epoch b = e \<and> (\<exists>li. L_vote \<lparr>vd_proposed = b, vd_parent = p\<rparr> li \<in> log s a)"

definition has_timed_out :: "u64 \<Rightarrow> sys \<Rightarrow> account_address \<Rightarrow> nat \<Rightarrow> nat \<Rightarrow> bool" where
  "has_timed_out e s a r h \<longleftrightarrow>
     (\<exists>t. L_timeout t \<in> log s a \<and> tsr_epoch t = e \<and> unat (tsr_round t) = r \<and> unat (tsr_hqc_round t) = h)"

definition is_quorum :: "validator_verifier \<Rightarrow> account_address set \<Rightarrow> bool" where
  "is_quorum vv A \<longleftrightarrow> (\<exists>as. set as = A \<and> distinct as \<and> check_voting_power vv as = Ok ())"

lemma honest_vote:
  assumes "sys_inv W s" and "a \<notin> w_faulty W" and "has_voted e s a b p"
  obtains li d where "L_vote \<lparr>vd_proposed = b, vd_parent = p\<rparr> li \<in> log s a" and "bi_epoch b = e"
    and "log_inv d (log s a)" and "vote_ok W s \<lparr>vd_proposed = b, vd_parent = p\<rparr> li"
  using assms unfolding has_voted_def sys_inv_def node_ok_def votes_ok_def by blast

lemma quorum_timed_out_quorum:
  assumes "quorum_timed_out W e s r h"
  obtains A where "is_quorum (w_verifier W e) A"
    and "\<And>x. x \<in> A \<Longrightarrow> x \<in> - w_faulty W \<Longrightarrow> \<exists>h'. h' \<le> unat h \<and> has_timed_out e s x (unat r) h'"
proof -
  from assms obtain as where as: "distinct as" "check_voting_power (w_verifier W e) as = Ok ()"
    and t: "\<And>a. a \<in> set as \<Longrightarrow> a \<notin> w_faulty W \<Longrightarrow>
      \<exists>h'. h' \<le> h \<and> L_timeout \<lparr>tsr_epoch = e, tsr_round = r, tsr_hqc_round = h'\<rparr> \<in> log s a"
    unfolding quorum_timed_out_def by blast
  show thesis
  proof (rule that [of "set as"])
    show "is_quorum (w_verifier W e) (set as)" using as by (auto simp: is_quorum_def)
    fix x assume "x \<in> set as" "x \<in> - w_faulty W"
    with t [of x] show "\<exists>h'. h' \<le> unat h \<and> has_timed_out e s x (unat r) h'"
      by (force simp: has_timed_out_def word_le_nat_alt)
  qed
qed

lemma honest_vote_once:
  assumes "sys_inv W s" and "a \<notin> w_faulty W" and "has_voted e s a b p" and "has_voted e s a b' p'"
    and "rnd_of b = rnd_of b'"
  shows "b = b' \<and> p = p'"
proof -
  obtain li d where v: "L_vote \<lparr>vd_proposed = b, vd_parent = p\<rparr> li \<in> log s a" "bi_epoch b = e" "log_inv d (log s a)"
    by (rule honest_vote [OF assms(1-3)])
  from assms(4) obtain li' where v': "L_vote \<lparr>vd_proposed = b', vd_parent = p'\<rparr> li' \<in> log s a" "bi_epoch b' = e"
    by (auto simp: has_voted_def)
  from assms(5) have "bi_round b = bi_round b'" by (simp add: rnd_of_def word_unat_eq_iff)
  with v v' show ?thesis unfolding log_inv_def one_vote_def by fastforce
qed

lemma honest_vote_timeout:
  assumes "sys_inv W s" and "a \<notin> w_faulty W" and "has_voted e s a b p" and "has_timed_out e s a r h"
    and "rnd_of b \<le> r"
  shows "rnd_of p \<le> h"
proof -
  obtain li d where v: "L_vote \<lparr>vd_proposed = b, vd_parent = p\<rparr> li \<in> log s a" "bi_epoch b = e" "log_inv d (log s a)"
    by (rule honest_vote [OF assms(1-3)])
  from assms(4) obtain t where t: "L_timeout t \<in> log s a" "tsr_epoch t = e" "unat (tsr_round t) = r"
    "unat (tsr_hqc_round t) = h" by (auto simp: has_timed_out_def)
  from v(3) have "timeouts_report (log s a)" by (simp add: log_inv_def)
  with v(1,2) t(1,2) have "bi_round b \<le> tsr_round t \<Longrightarrow> bi_round p \<le> tsr_hqc_round t"
    unfolding timeouts_report_def by fastforce
  with t assms(5) show ?thesis by (auto simp: rnd_of_def word_le_nat_alt)
qed

lemma honest_vote_rule:
  assumes "sys_inv W s" and "a \<notin> w_faulty W" and "has_voted e s a b p"
  shows "rnd_of b = Suc (rnd_of p) \<or>
      (\<exists>A h r. rnd_of b = Suc r \<and> is_quorum (w_verifier W e) A \<and> h \<le> rnd_of p \<and>
         (\<forall>x. x \<in> A \<longrightarrow> x \<in> - w_faulty W \<longrightarrow> (\<exists>h'. h' \<le> h \<and> has_timed_out e s x r h')))"
proof -
  obtain li where e: "bi_epoch b = e" and ok: "vote_ok W s \<lparr>vd_proposed = b, vd_parent = p\<rparr> li"
    by (rule honest_vote [OF assms])
  from ok e consider "unat (bi_round b) = unat (bi_round p) + 1"
    | r h where "unat (bi_round b) = unat r + 1" "h \<le> bi_round p" "quorum_timed_out W e s r h"
    unfolding vote_ok_def by auto
  then show ?thesis
  proof cases
    case 1
    then show ?thesis by (simp add: rnd_of_def)
  next
    case 2
    obtain A where "is_quorum (w_verifier W e) A"
      "\<And>x. x \<in> A \<Longrightarrow> x \<in> - w_faulty W \<Longrightarrow> \<exists>h'. h' \<le> unat h \<and> has_timed_out e s x (unat r) h'"
      by (rule quorum_timed_out_quorum [OF 2(3)]) (rule that; assumption)
    with 2 show ?thesis
      by (intro disjI2 exI [of _ A] exI [of _ "unat h"] exI [of _ "unat r"]) (auto simp: rnd_of_def word_le_nat_alt)
  qed
qed

lemma honest_vote_parent:
  assumes "sys_inv W s" and "a \<notin> w_faulty W" and "has_voted e s a b p"
  shows "rnd_of p < rnd_of b" and "0 < rnd_of p \<Longrightarrow> \<exists>q. quorum_voted W e s p q"
proof -
  obtain li where e: "bi_epoch b = e" and ok: "vote_ok W s \<lparr>vd_proposed = b, vd_parent = p\<rparr> li"
    by (rule honest_vote [OF assms])
  from ok show "rnd_of p < rnd_of b" by (simp add: vote_ok_def rnd_of_def word_less_nat_alt)
  assume "0 < rnd_of p"
  then have "bi_round p \<noteq> 0" by (auto simp: rnd_of_def)
  with ok e show "\<exists>q. quorum_voted W e s p q" by (simp add: vote_ok_def)
qed

interpretation diem: two_chain_protocol
  "\<lambda>(W, e, s). sys_inv W s \<and> sound_epoch W e"
  "\<lambda>(W, e, s) A. is_quorum (w_verifier W e) A"
  "\<lambda>(W, e, s). - w_faulty W"
  rnd_of
  "\<lambda>(W, e, s). has_voted e s"
  "\<lambda>(W, e, s). has_timed_out e s"
  "\<lambda>(W, e, s). quorum_voted W e s"
  "\<lambda>(W, e, s). ancestor W e s"
proof (unfold_locales; unfold split_paired_all prod.case)
  fix W e s A B
  assume "sys_inv W s \<and> sound_epoch W e" "is_quorum (w_verifier W e) A" "is_quorum (w_verifier W e) B"
  then show "\<exists>a. a \<in> A \<and> a \<in> B \<and> a \<in> - w_faulty W"
    using quorums_intersect by (fastforce simp: sound_epoch_def is_quorum_def)
next
  fix W e s b p
  assume "quorum_voted W e s b p"
  then show "\<exists>A. is_quorum (w_verifier W e) A \<and> (\<forall>a. a \<in> A \<longrightarrow> a \<in> - w_faulty W \<longrightarrow> has_voted e s a b p)"
    by (auto simp: quorum_voted_def is_quorum_def has_voted_def)
next
  fix W e s a b p
  assume *: "sys_inv W s \<and> sound_epoch W e" "a \<in> - w_faulty W" "has_voted e s a b p"
  show "rnd_of p < rnd_of b" using * honest_vote_parent(1) by auto
  show "rnd_of b = Suc (rnd_of p) \<or>
      (\<exists>A h r. rnd_of b = Suc r \<and> is_quorum (w_verifier W e) A \<and> h \<le> rnd_of p \<and>
         (\<forall>x. x \<in> A \<longrightarrow> x \<in> - w_faulty W \<longrightarrow> (\<exists>h'. h' \<le> h \<and> has_timed_out e s x r h')))"
    using * by (intro honest_vote_rule) auto
  show "0 < rnd_of p \<Longrightarrow> \<exists>q. quorum_voted W e s p q" using * honest_vote_parent(2) by auto
  show "has_voted e s a b' p' \<Longrightarrow> rnd_of b = rnd_of b' \<Longrightarrow> b = b' \<and> p = p'" for b' p'
    using * honest_vote_once by blast
  show "has_timed_out e s a r h \<Longrightarrow> rnd_of b \<le> r \<Longrightarrow> rnd_of p \<le> h" for r h
    using * honest_vote_timeout by blast
next
  fix W e s b c p
  show "ancestor W e s b b" by (rule ancestor.self)
  show "ancestor W e s b p \<Longrightarrow> quorum_voted W e s c p \<Longrightarrow> ancestor W e s b c" by (rule ancestor.child)
  show "ancestor W e s b c \<Longrightarrow> b = c \<or> (\<exists>p. ancestor W e s b p \<and> quorum_voted W e s c p)"
    by (auto elim: ancestor.cases)
qed

section \<open>Agreement\<close>

text \<open>
  What a client or a syncing node takes as committed in epoch \<open>e\<close>: the commit info of a ledger info
  that carries valid signatures of a quorum.
\<close>

definition committed :: "world \<Rightarrow> u64 \<Rightarrow> sys \<Rightarrow> block_info \<Rightarrow> bool" where
  "committed W e s c \<longleftrightarrow> bi_epoch c = e \<and> bi_round c \<noteq> 0 \<and>
     (\<exists>l. verify_signatures (w_crypto W) (w_verifier W e) l = Ok () \<and> available_li W e s l \<and>
        li_commit_info (lis_ledger_info l) = c)"

lemma committed_two_chain:
  assumes ideal: "ideal_crypto W" and inv: "sys_inv W s" and sound: "sound_epoch W e" and c: "committed W e s c"
  obtains b q where "quorum_voted W e s b c" and "rnd_of b = Suc (rnd_of c)" and "quorum_voted W e s c q"
proof -
  from c obtain l where l: "verify_signatures (w_crypto W) (w_verifier W e) l = Ok ()" "available_li W e s l"
    and lc: "li_commit_info (lis_ledger_info l) = c" and ce: "bi_epoch c = e" "bi_round c \<noteq> 0"
    by (auto simp: committed_def)
  obtain as where as: "distinct as" "check_voting_power (w_verifier W e) as = Ok ()"
    and vs: "\<And>a. a \<in> set as \<Longrightarrow> a \<notin> w_faulty W \<Longrightarrow> \<exists>vd. L_vote vd (lis_ledger_info l) \<in> log s a"
    by (rule li_quorum [OF ideal l]) (rule that; assumption)
  from inv have ok: "votes_ok W s" by (simp add: sys_inv_def)
  from quorums_intersect [of "w_verifier W e" "w_faulty W" as as] as sound
  obtain a where a: "a \<in> set as" "a \<notin> w_faulty W" by (auto simp: sound_epoch_def)
  with vs obtain vd where vd: "L_vote vd (lis_ledger_info l) \<in> log s a" by blast
  with ok a have va: "vote_ok W s vd (lis_ledger_info l)" by (auto simp: votes_ok_def)
  with lc ce have par: "vd_parent vd = c" "rnd_of (vd_proposed vd) = Suc (rnd_of c)"
    "bi_epoch (vd_proposed vd) = e"
    by (auto simp: vote_ok_def rnd_of_def block_info_empty_def split: if_splits)
  have "\<exists>li. L_vote vd li \<in> log s x" if "x \<in> set as" "x \<notin> w_faulty W" for x
    using vs [OF that] li_vote_data [OF ideal ok that(2), of _ "lis_ledger_info l" vd] va
    by (auto simp: vote_ok_def)
  with as par have q: "quorum_voted W e s (vd_proposed vd) c"
    unfolding quorum_voted_def by (cases vd) auto
  moreover obtain q' where "quorum_voted W e s c q'"
    using va par ce by (auto simp: vote_ok_def)
  ultimately show thesis using par that by blast
qed


end
