(* ===== verification/Two_Chain_Run.thy ===== *)
theory Two_Chain_Run
  imports Two_Chain_Safety
begin

text \<open>
  Concrete runs of SafetyRules: one validator that is initialised from a genesis epoch change, votes
  for the nil blocks of three consecutive rounds and thereby commits two of them. The run shows that
  the hypotheses of the agreement theorem can hold together.
\<close>

section \<open>A validator that commits two blocks\<close>

definition run_crypto :: crypto where
  "run_crypto = \<lparr>
     hash_of = (\<lambda>h. case h of H_VoteData vd \<Rightarrow> ucast (bi_round (vd_proposed vd)) | _ \<Rightarrow> 0),
     verify_struct_signature = (\<lambda>pk msg sig. sig = 7), batch_verify = (\<lambda>msg ks. list_all (\<lambda>(pk, sig). sig = 7) ks),
     sign_message = (\<lambda>k msg. 7), public_key_of = (\<lambda>k. k), txn_node_hash = (\<lambda>l r. l)\<rparr>"

definition run_verifier :: validator_verifier where
  "run_verifier = \<lparr>
     address_to_validator_info = btree_insert 1 \<lparr>vci_public_key = 5, vci_voting_power = 1\<rparr> btree_new,
     quorum_voting_power = 1, total_voting_power = 1\<rparr>"

definition run_genesis_li :: ledger_info where
  "run_genesis_li = ledger_info_new
     (block_info_new 0 0 0 0 0 0 (Some \<lparr>es_epoch = 1, es_verifier = run_verifier\<rparr>)) 0"

definition run_proof :: epoch_change_proof where
  "run_proof = \<lparr>ledger_info_with_sigs = [lis_new run_genesis_li btree_new], ecp_more = False\<rparr>"

text \<open>The block of a round, and the vote data, certificate, vote and safety data of the validator that votes for it.\<close>

definition run_info :: "round \<Rightarrow> block_info" where
  "run_info r = block_info_new 1 r 0 (if r = 0 then 0 else accumulator_placeholder_hash) 0 0 None"

definition run_vd :: "round \<Rightarrow> vote_data" where
  "run_vd r = vote_data_new (run_info r) (run_info (if r = 0 then 0 else r - 1))"

definition run_li :: "round \<Rightarrow> ledger_info" where
  "run_li r = ledger_info_new (run_info (if r = 0 then 0 else r - 1)) (hash_of run_crypto (H_VoteData (run_vd r)))"

definition run_lis :: "round \<Rightarrow> ledger_info_with_signatures" where
  "run_lis r = lis_new (run_li r) (if r = 0 then btree_new else btree_insert 1 7 btree_new)"

definition run_qc :: "round \<Rightarrow> quorum_cert" where
  "run_qc r = qc_new (run_vd r) (run_lis r)"

definition run_proposal :: "round \<Rightarrow> maybe_signed_vote_proposal" where
  "run_proposal r = \<lparr>msvp_vote_proposal = \<lparr>vp_accumulator_extension_proof =
        \<lparr>aep_frozen_subtree_roots = [], aep_num_leaves = 0, aep_leaves = []\<rparr>,
        vp_block = new_nil run_crypto r (run_qc (r - 1)),
        vp_next_epoch_state = None, vp_decoupled_execution = True\<rparr>, msvp_signature = None\<rparr>"

definition run_v :: "round \<Rightarrow> vote" where
  "run_v r = vote_new_with_signature (run_vd r) 1 (run_li r) 7"

definition run_sd :: "round \<Rightarrow> safety_data" where
  "run_sd r = safety_data_new 1 r (if r \<le> 1 then 0 else r - 2) (if r = 0 then 0 else r - 1)
     (if r = 0 then None else Some (run_v r))"

definition run_store :: "safety_data \<Rightarrow> persistent_safety_storage" where
  "run_store d = \<lparr>enable_cached_safety_data = True, cached_safety_data = Some d,
     internal_store = \<lparr>st_data = [waypoint_key \<mapsto> SV_Waypoint (waypoint_new_any run_crypto run_genesis_li),
       consensus_key \<mapsto> SV_Key 5, execution_key \<mapsto> SV_Key 6, owner_account \<mapsto> SV_Author 1,
       safety_data_key \<mapsto> SV_SafetyData d], st_get_fault = None, st_set_fault = None\<rparr>\<rparr>"

definition run_node0 :: safety_rules where
  "run_node0 = \<lparr>sr_persistent_storage = run_store (run_sd 0), sr_execution_public_key = None,
     sr_export_consensus_key = False, sr_validator_signer = None, sr_epoch_state = None\<rparr>"

definition run_node_at :: "u64 \<Rightarrow> safety_data \<Rightarrow> safety_rules" where
  "run_node_at e d = \<lparr>sr_persistent_storage = run_store d, sr_execution_public_key = None,
     sr_export_consensus_key = False, sr_validator_signer = Some (Handle \<lparr>vh_author = 1, vh_key_version = 5\<rparr>),
     sr_epoch_state = Some \<lparr>es_epoch = e, es_verifier = run_verifier\<rparr>\<rparr>"

definition run_node :: "round \<Rightarrow> safety_rules" where
  "run_node r = run_node_at 1 (run_sd r)"

lemma run_node0_new:
  "\<exists>p. pss_initialize \<lparr>st_data = Map.empty, st_get_fault = None, st_set_fault = None\<rparr> 1 5 6
        (waypoint_new_any run_crypto run_genesis_li) True = Ok p \<and> sr_new run_crypto p False False = Ok run_node0"
  by (auto simp: pss_initialize_def initialize_keys_and_accounts_def import_private_key_def kv_set_def Let_def
      pss_set_safety_data_def pss_set_waypoint_def sr_new_def run_node0_def run_store_def run_sd_def fun_eq_iff storage_keys)

lemma run_qc_verify:
  "qc_verify run_crypto run_verifier (run_qc 0) = Ok ()"
  "qc_verify run_crypto run_verifier (run_qc 1) = Ok ()"
  "qc_verify run_crypto run_verifier (run_qc 2) = Ok ()"
  by code_simp+

lemma run_lis_verify:
  "verify_signatures run_crypto run_verifier (run_lis 2) = Ok ()"
  "verify_signatures run_crypto run_verifier (run_lis 3) = Ok ()"
  by code_simp+

lemma run_well_formed:
  "verify_well_formed 0 (new_nil run_crypto 1 (run_qc 0)) = Ok ()"
  "verify_well_formed 0 (new_nil run_crypto 2 (run_qc 1)) = Ok ()"
  "verify_well_formed 0 (new_nil run_crypto 3 (run_qc 2)) = Ok ()"
  by code_simp+

lemma run_ideal: "ideal_crypto \<lparr>w_crypto = run_crypto, w_verifier = v, w_faulty = F, w_vote_data = run_vd ` {0, 1, 2, 3}\<rparr>"
proof -
  have "batch_sound run_crypto" by (auto simp: batch_sound_def run_crypto_def list_all_iff)
  moreover have "inj_on (\<lambda>vd. hash_of run_crypto (H_VoteData vd)) (run_vd ` {0, 1, 2, 3})"
    by (auto simp: inj_on_def run_crypto_def run_vd_def vote_data_new_def run_info_def block_info_new_def)
  ultimately show ?thesis by (simp add: ideal_crypto_def)
qed

lemma run_sound: "sound_verifier run_verifier"
  by (simp add: sound_verifier_def wf_verifier_def run_verifier_def validator_verifier_new_def sum_voting_power_def
      btree_values_def btree_is_empty_def checked_add_def Let_def)

lemma run_minority: "minority run_verifier (- {1})"
proof -
  have "members run_verifier = {1}"
    unfolding members_def run_verifier_def get_ordered_account_addresses_def btree_keys_def by simp
  then show ?thesis by (simp add: minority_def power_of_def run_verifier_def)
qed

lemma run_signer: "cvs_sign run_crypto (Handle \<lparr>vh_author = 1, vh_key_version = 5\<rparr>) msg (run_store d) = Ok 7"
  by (simp add: pss_sign_def sign_using_version_def export_private_key_for_version_def export_private_key_def kv_get_def
      run_store_def run_crypto_def storage_keys)

lemma run_store_update:
  "(run_store d)\<lparr>internal_store := (internal_store (run_store d))
     \<lparr>st_data := (st_data (internal_store (run_store d)))(safety_data_key \<mapsto> SV_SafetyData d')\<rparr>,
     cached_safety_data := Some d'\<rparr> = run_store d'"
  by (simp add: run_store_def)

definition run_block :: "round \<Rightarrow> block" where
  "run_block r = vp_block (msvp_vote_proposal (run_proposal r))"

text \<open>The checks on the blocks of the first three rounds, by evaluation.\<close>

lemma run_blocks_valid:
  "\<forall>r \<in> set [1, 2, 3]. qc_verify run_crypto run_verifier (b_quorum_cert (run_block r)) = Ok () \<and>
     validate_signature run_crypto run_verifier (run_block r) = Ok () \<and> verify_well_formed 0 (run_block r) = Ok ()"
  by code_simp

lemma run_blocks_votable:
  "\<forall>r \<in> set [1, 2, 3]. b_epoch (run_block r) = 1 \<and> b_round (run_block r) = r \<and>
     gen_vote_data run_crypto (msvp_vote_proposal (run_proposal r)) = Ok (run_vd r) \<and>
     certified_block (b_quorum_cert (run_block r)) = run_info (r - 1)"
  by code_simp

lemma run_blocks_rule:
  assumes "r \<in> set [1, 2, 3]"
  shows "safe_to_vote (run_block r) None = Ok ()"
    and "construct_ledger_info_2chain (run_block r) (hash_of run_crypto (H_VoteData (run_vd r))) = Ok (run_li r)"
proof -
  from assms have n: "next_round (r - 1) = Ok r" by (auto simp: next_round_def checked_add_def)
  have i: "bi_round (run_info (r - 1)) = r - 1" by (simp add: run_info_def block_info_new_def)
  from run_blocks_votable assms have b: "b_round (run_block r) = r"
    "certified_block (b_quorum_cert (run_block r)) = run_info (r - 1)" by auto
  show "safe_to_vote (run_block r) None = Ok ()" by (simp add: safe_to_vote_def b i n)
  have "r \<noteq> 0" using assms by auto
  then show "construct_ledger_info_2chain (run_block r) (hash_of run_crypto (H_VoteData (run_vd r))) = Ok (run_li r)"
    by (simp add: construct_ledger_info_2chain_def b i n run_li_def)
qed

lemma run_safety_data:
  "\<forall>r \<in> set [1, 2, 3]. sd_epoch (run_sd (r - 1)) = 1 \<and> sd_last_voted_round (run_sd (r - 1)) < r \<and>
     (case sd_last_vote (run_sd (r - 1)) of None \<Rightarrow> True | Some v \<Rightarrow> v_round v \<noteq> r) \<and>
     (observe_qc (b_quorum_cert (run_block r)) ((run_sd (r - 1))\<lparr>sd_last_voted_round := b_round (run_block r)\<rparr>))
        \<lparr>sd_last_vote := Some (run_v r)\<rparr> = run_sd r"
  by code_simp

lemma run_node_at_simps [simp]:
  "sr_validator_signer (run_node_at e d) = Some (Handle \<lparr>vh_author = 1, vh_key_version = 5\<rparr>)"
  "sr_epoch_state (run_node_at e d) = Some \<lparr>es_epoch = e, es_verifier = run_verifier\<rparr>"
  "sr_persistent_storage (run_node_at e d) = run_store d"
  "verify_execution_signature C mvp (run_node_at e d) = Ok ()"
  "(run_node_at e d)\<lparr>sr_persistent_storage := run_store d'\<rparr> = run_node_at e d'"
  by (simp_all add: run_node_at_def verify_execution_signature_def)

lemma run_store_simps [simp]:
  "enable_cached_safety_data (run_store d)" "cached_safety_data (run_store d) = Some d"
  "st_set_fault (internal_store (run_store d)) = None"
  by (simp_all add: run_store_def)

lemma run_node_vote:
  assumes b: "b = vp_block (msvp_vote_proposal mvp)"
    and valid: "b_epoch b = sd_epoch d" "qc_verify run_crypto run_verifier (b_quorum_cert b) = Ok ()"
      "validate_signature run_crypto run_verifier b = Ok ()" "verify_well_formed now b = Ok ()"
      "gen_vote_data run_crypto (msvp_vote_proposal mvp) = Ok vd"
      "\<forall>tc. maybe_tc = Some tc \<longrightarrow> tctc_verify run_crypto run_verifier tc = Ok ()"
    and fresh: "sd_last_voted_round d < b_round b" "\<forall>v. sd_last_vote d = Some v \<longrightarrow> v_round v \<noteq> b_round b"
    and rules: "safe_to_vote b maybe_tc = Ok ()"
      "construct_ledger_info_2chain b (hash_of run_crypto (H_VoteData vd)) = Ok li"
    and v: "v = vote_new_with_signature vd 1 li 7"
    and d': "d' = (observe_qc (b_quorum_cert b) (d\<lparr>sd_last_voted_round := b_round b\<rparr>))\<lparr>sd_last_vote := Some v\<rparr>"
  shows "guarded_construct_and_sign_vote_two_chain run_crypto now mvp maybe_tc (run_node_at e d)
    = (Ok v, run_node_at e d')"
proof -
  note run = vote_two_chain_run [OF b run_node_at_simps(1,2,4), unfolded run_node_at_simps epoch_state.simps cvs_author.simps
    validator_handle.simps]
  show ?thesis
    by (rule run [OF run_store_simps(1,2) valid fresh rules run_signer run_store_simps(3) v d', unfolded run_store_update
        run_node_at_simps])
qed

lemma run_vote_step:
  assumes "r \<in> set [1, 2, 3]"
  shows "guarded_construct_and_sign_vote_two_chain run_crypto 0 (run_proposal r) None (run_node (r - 1))
    = (Ok (run_v r), run_node r)"
  unfolding run_node_def
proof (rule run_node_vote [OF run_block_def])
  show "\<forall>v. sd_last_vote (run_sd (r - 1)) = Some v \<longrightarrow> v_round v \<noteq> b_round (run_block r)"
    using run_safety_data run_blocks_votable assms by auto
  show "run_v r = vote_new_with_signature (run_vd r) 1 (run_li r) 7" by (rule run_v_def)
qed (use run_blocks_valid [rule_format, OF assms] run_blocks_votable [rule_format, OF assms]
    run_safety_data [rule_format, OF assms] run_blocks_rule [OF assms] in simp_all)

lemma run_initialize:
  "guarded_initialize run_crypto run_proof run_node0 = (Ok (), run_node 0)"
proof -
  have "ecp_verify run_crypto run_proof (Dyn_Waypoint (waypoint_new_any run_crypto run_genesis_li))
      = Ok (lis_new run_genesis_li btree_new)" by code_simp
  moreover have "waypoint_new_epoch_boundary run_crypto run_genesis_li = Ok (waypoint_new_any run_crypto run_genesis_li)"
    by code_simp
  moreover have "get_public_key run_verifier 1 = Some 5" by code_simp
  moreover have "li_next_epoch_state run_genesis_li = Some \<lparr>es_epoch = 1, es_verifier = run_verifier\<rparr>" by code_simp
  moreover have "pss_waypoint (run_store (run_sd 0)) = Ok (waypoint_new_any run_crypto run_genesis_li)"
    "pss_author (run_store (run_sd 0)) = Ok 1"
    by (simp_all add: pss_waypoint_def pss_author_def kv_get_def run_store_def storage_keys)
  moreover have "pss_safety_data (run_store (run_sd 0)) = (Ok (run_sd 0), run_store (run_sd 0))"
    by (simp add: pss_safety_data_def run_store_def)
  moreover have "sd_epoch (run_sd 0) = 1" by (simp add: run_sd_def safety_data_new_def)
  moreover have "lis_ledger_info (lis_new run_genesis_li btree_new) = run_genesis_li" by (simp add: lis_new_def)
  ultimately show ?thesis
    by (simp add: guarded_initialize_def run_node0_def run_node_def run_node_at_def sbind_def sget_def slift_def sput_def on_storage_def Let_def
        reset_signer_on_error_def reconcile_key_def sr_sign_def sr_signer_def run_signer [simplified])
qed

section \<open>The run of the system\<close>

definition run_world :: world where
  "run_world = \<lparr>w_crypto = run_crypto, w_verifier = (\<lambda>_. run_verifier), w_faulty = - {1}, w_vote_data = run_vd ` {0, 1, 2, 3}\<rparr>"

definition run_start :: sys where
  "run_start = \<lparr>nodes = (\<lambda>_. run_node0), log = (\<lambda>_. {})\<rparr>"

fun run_sys :: "round list \<Rightarrow> sys" where
  "run_sys [] = set_node 1 (run_node 0) {} run_start"
| "run_sys (r # rs) = set_node 1 (run_node r) {vote_entry (run_v r)} (run_sys rs)"

lemma run_world_simps [simp]:
  "w_crypto run_world = run_crypto" "w_verifier run_world e = run_verifier" "a \<notin> w_faulty run_world \<longleftrightarrow> a = 1"
  "w_vote_data run_world = run_vd ` {0, 1, 2, 3}"
  by (simp_all add: run_world_def)

lemma run_sys_simps:
  "nodes (run_sys rs) 1 = run_node (case rs of [] \<Rightarrow> 0 | r # _ \<Rightarrow> r)"
  "log (run_sys rs) 1 = (\<lambda>r. vote_entry (run_v r)) ` set rs"
  by (induction rs) (auto simp: set_node_def run_start_def)

lemma run_available:
  assumes "r = 0 \<or> r \<in> set rs"
  shows "available_li run_world 1 (run_sys rs) (run_lis r)"
proof -
  have "H_LedgerInfo (run_li r) \<in> message_of ` log (run_sys rs) 1" if "r \<in> set rs"
    using that by (force simp: run_sys_simps message_of_vote vote_entry_def run_v_def vote_new_with_signature_def)
  with assms show ?thesis
    by (auto simp: available_li_def genuine_def run_lis_def lis_new_def btree_laws split: if_splits)
qed

lemma run_sys_step:
  assumes r: "r \<in> set [1, 2, 3]" and rs: "r - 1 = (case rs of [] \<Rightarrow> 0 | q # _ \<Rightarrow> q)"
  shows "sys_step run_world (run_sys rs) (run_sys (r # rs))"
proof -
  let ?b = "vp_block (msvp_vote_proposal (run_proposal r))"
  from run_blocks_votable r have b: "b_epoch ?b = 1" by (auto simp: run_block_def)
  have qc: "b_quorum_cert ?b = run_qc (r - 1)"
    by (simp add: run_proposal_def new_nil_def bd_new_nil_def b_quorum_cert_def Let_def)
  have av: "available_qc run_world (b_epoch ?b) (run_sys rs) (b_quorum_cert ?b)"
    using run_available [of "r - 1" rs] r rs unfolding b qc
    by (auto simp: available_qc_def run_qc_def qc_new_def split: list.splits)
  have "run_vd r \<in> w_vote_data run_world" using r by auto
  from sys_step.vote [of 1 run_world 0 "run_proposal r" None "run_sys rs" "Ok (run_v r)" "run_node r", OF _ _ av] run_vote_step [OF r] rs this
  show ?thesis by (simp add: run_sys_simps run_v_def vote_new_with_signature_def)
qed

lemma run_reachable: "reachable run_world (run_sys [3, 2, 1])"
proof -
  obtain p where "pss_initialize \<lparr>st_data = Map.empty, st_get_fault = None, st_set_fault = None\<rparr> 1 5 6
      (waypoint_new_any run_crypto run_genesis_li) True = Ok p" "sr_new run_crypto p False False = Ok run_node0"
    using run_node0_new by blast
  then have "sys_init run_world run_start" unfolding sys_init_def by (simp add: run_start_def) blast
  moreover have "sys_step run_world run_start (run_sys [])"
    using sys_step.initialize [of 1 run_world run_proof run_start "Ok ()" "run_node 0"] run_initialize
    by (simp add: run_start_def agreed_epoch_def run_node_def)
  moreover have "sys_step run_world (run_sys []) (run_sys [1])" "sys_step run_world (run_sys [1]) (run_sys [2, 1])"
    "sys_step run_world (run_sys [2, 1]) (run_sys [3, 2, 1])" by (rule run_sys_step; simp)+
  ultimately show ?thesis by (meson reachable.intros)
qed

lemma run_committed:
  "committed run_world 1 (run_sys [3, 2, 1]) (run_info 1)" "committed run_world 1 (run_sys [3, 2, 1]) (run_info 2)"
proof -
  have c: "li_commit_info (lis_ledger_info (run_lis 2)) = run_info 1" "li_commit_info (lis_ledger_info (run_lis 3)) = run_info 2"
    by (simp_all add: run_lis_def lis_new_def run_li_def ledger_info_new_def)
  show "committed run_world 1 (run_sys [3, 2, 1]) (run_info 1)" "committed run_world 1 (run_sys [3, 2, 1]) (run_info 2)"
    unfolding committed_def using run_lis_verify run_available [of _ "[3, 2, 1]"] c
    by (auto simp: run_info_def block_info_new_def intro: exI [of _ "run_lis 2"] exI [of _ "run_lis 3"])
qed


end
