(* ===== verification/Safety_Properties.thy ===== *)
theory Safety_Properties
  imports Safety_Service Two_Chain_Run
begin

text \<open>
  Concrete instances of the theorems on SafetyRules, and what its checks do not cover: a timeout
  certificate of an earlier epoch passes them and lets a validator commit conflicting blocks, a
  commit vote is signed for any consensus data hash, and with the cache switched off the safety data
  cannot be read.
\<close>

section \<open>Instances\<close>

lemma run_vote_again:
  "guarded_construct_and_sign_vote_two_chain run_crypto 0 (run_proposal 1) None (run_node 1) = (Ok (run_v 1), run_node 1)"
  unfolding run_node_def
proof (rule vote_two_chain_again [OF run_block_def run_node_at_simps(1,2,4), unfolded run_node_at_simps, OF run_store_simps(1,2)])
  show "sd_last_vote (run_sd 1) = Some (run_v 1)" "b_epoch (run_block 1) = sd_epoch (run_sd 1)"
    using run_blocks_votable by (simp_all add: run_sd_def safety_data_new_def)
  show "v_round (run_v 1) = b_round (run_block 1)"
    using run_blocks_votable
    by (simp add: run_v_def vote_new_with_signature_def v_round_def run_vd_def vote_data_new_def run_info_def block_info_new_def)
qed (use run_blocks_valid run_blocks_votable in simp_all)

lemma run_messages:
  "handle_messages run_crypto [(0, IN_Initialize run_proof), (0, IN_ConstructAndSignVoteTwoChain (run_proposal 1) None),
     (0, IN_ConstructAndSignVoteTwoChain (run_proposal 1) None)] run_node0
   = ([OUT_Unit (Ok ()), OUT_Vote (Ok (run_v 1)), OUT_Vote (Ok (run_v 1))], run_node 1)"
  using run_initialize run_vote_step [of 1] run_vote_again by simp

lemma run_node0_start: "sr_inv run_node0" "sr_persisted run_node0 = Some (run_sd 0)" "last_vote_ok (run_sd 0)"
  by (simp_all add: sr_inv_def sr_persisted_def run_node0_def run_store_def cache_ok_def pss_persisted_def storage_keys
      last_vote_ok_def run_sd_def safety_data_new_def)

theorem safety_data_forward_witness:
  "\<exists>d'. sr_persisted (run_node 1) = Some d' \<and> sd_le (run_sd 0) d' \<and> last_vote_ok d'"
  using safety_data_forward [OF run_node0_start run_messages] by blast

theorem one_vote_per_round_witness:
  "\<exists>outs v v'. fst (handle_messages run_crypto [(0, IN_Initialize run_proof),
     (0, IN_ConstructAndSignVoteTwoChain (run_proposal 1) None),
     (0, IN_ConstructAndSignVoteTwoChain (run_proposal 1) None)] run_node0) = outs \<and>
   votes_of (outs ! 1) = [v] \<and> votes_of (outs ! 2) = [v'] \<and> v = v'"
  using one_vote_per_round [OF run_node0_start run_messages, of "run_v 1" "run_v 1"]
  unfolding run_messages by simp

theorem vote_two_chain_exact_witness:
  "is_ok (fst (guarded_construct_and_sign_vote_two_chain run_crypto 0 (run_proposal 1) None (run_node 0))) \<and>
   vote_allowed run_crypto 0 run_verifier (run_sd 0) (msvp_vote_proposal (run_proposal 1)) None"
proof -
  have inv: "sr_inv (run_node 0)"
    by (simp add: sr_inv_def run_node_def run_store_def cache_ok_def pss_persisted_def storage_keys)
  have sign: "is_ok (cvs_sign run_crypto (Handle \<lparr>vh_author = 1, vh_key_version = 5\<rparr>) msg (run_store (run_sd 0)))" for msg
    by (simp only: run_signer is_ok.simps)
  have "is_ok (fst (guarded_construct_and_sign_vote_two_chain run_crypto 0 (run_proposal 1) None (run_node 0)))"
    using run_vote_step [of 1] by simp
  moreover have "is_ok (fst (guarded_construct_and_sign_vote_two_chain run_crypto 0 (run_proposal 1) None (run_node 0))) \<longleftrightarrow>
      vote_allowed run_crypto 0 (es_verifier \<lparr>es_epoch = 1, es_verifier = run_verifier\<rparr>) (run_sd 0)
        (msvp_vote_proposal (run_proposal 1)) None"
    by (rule vote_two_chain_exact [OF inv, of "Handle \<lparr>vh_author = 1, vh_key_version = 5\<rparr>"])
      (simp_all only: run_node_def run_node_at_simps run_store_simps sign)
  ultimately show ?thesis by simp
qed

section \<open>A timeout certificate of an earlier epoch\<close>

text \<open>
  Epoch 2 of the same single validator. The blocks of rounds 1 and 2 extend its genesis and commit
  the first of them. A timeout certificate of epoch 1 for round 2 that reports no quorum certificate
  is then presented with a block of round 3 that extends the genesis again.
\<close>

definition fork_info :: "round \<Rightarrow> block_info" where
  "fork_info r = block_info_new 2 r 0 (if r = 0 then 0 else accumulator_placeholder_hash) 0 0 None"

definition fork_vd :: "round \<Rightarrow> round \<Rightarrow> vote_data" where
  "fork_vd r p = vote_data_new (fork_info r) (fork_info p)"

definition fork_li :: "round \<Rightarrow> round \<Rightarrow> ledger_info" where
  "fork_li r p = ledger_info_new
     (if r = 0 then fork_info 0 else if r = p + 1 then fork_info p else block_info_empty)
     (hash_of run_crypto (H_VoteData (fork_vd r p)))"

definition fork_lis :: "round \<Rightarrow> round \<Rightarrow> ledger_info_with_signatures" where
  "fork_lis r p = lis_new (fork_li r p) (if r = 0 then btree_new else btree_insert 1 7 btree_new)"

definition fork_qc :: "round \<Rightarrow> round \<Rightarrow> quorum_cert" where
  "fork_qc r p = qc_new (fork_vd r p) (fork_lis r p)"

definition fork_proposal :: "round \<Rightarrow> quorum_cert \<Rightarrow> maybe_signed_vote_proposal" where
  "fork_proposal r qc = \<lparr>msvp_vote_proposal = \<lparr>vp_accumulator_extension_proof =
        \<lparr>aep_frozen_subtree_roots = [], aep_num_leaves = 0, aep_leaves = []\<rparr>,
        vp_block = new_nil run_crypto r qc,
        vp_next_epoch_state = None, vp_decoupled_execution = True\<rparr>, msvp_signature = None\<rparr>"

definition fork_vote :: "round \<Rightarrow> round \<Rightarrow> vote" where
  "fork_vote r p = vote_new_with_signature (fork_vd r p) 1 (fork_li r p) 7"

definition stale_tc :: two_chain_timeout_certificate where
  "stale_tc = \<lparr>tctc_timeout = \<lparr>tct_epoch = 1, tct_round = 2, tct_quorum_cert = run_qc 0\<rparr>,
     tctc_signatures = btree_insert 1 (0, 7) btree_new\<rparr>"

definition stale_sync_info :: sync_info where
  "stale_sync_info = \<lparr>si_highest_quorum_cert = fork_qc 2 1, si_highest_ordered_cert = None,
     si_highest_ledger_info = None, si_highest_timeout_cert = None, si_highest_2chain_timeout_cert = Some stale_tc\<rparr>"

definition fork_messages :: "(u64 \<times> safety_rules_input) list" where
  "fork_messages = [
     (0, IN_ConstructAndSignVoteTwoChain (fork_proposal 1 (fork_qc 0 0)) None),
     (0, IN_ConstructAndSignVoteTwoChain (fork_proposal 2 (fork_qc 1 0)) None),
     (0, IN_ConstructAndSignVoteTwoChain (fork_proposal 3 (fork_qc 0 0)) (Some stale_tc)),
     (0, IN_ConstructAndSignVoteTwoChain (fork_proposal 4 (fork_qc 3 0)) None)]"

definition fork_sd :: "round \<Rightarrow> round \<Rightarrow> round \<Rightarrow> round \<Rightarrow> safety_data" where
  "fork_sd r p pr oc = safety_data_new 2 r pr oc (if r = 0 then None else Some (fork_vote r p))"

definition fork_block :: "round \<Rightarrow> quorum_cert \<Rightarrow> block" where
  "fork_block r qc = vp_block (msvp_vote_proposal (fork_proposal r qc))"

lemma fork_valid:
  "\<forall>(r, q, p) \<in> set [(1, 0, 0), (2, 1, 0), (3, 0, 0), (4, 3, 0)].
     let qc = fork_qc q p; b = fork_block r qc in
     qc_verify run_crypto run_verifier (b_quorum_cert b) = Ok () \<and>
     validate_signature run_crypto run_verifier b = Ok () \<and> verify_well_formed 0 b = Ok () \<and>
     b_epoch b = 2 \<and> b_round b = r \<and> b_quorum_cert b = qc \<and> certified_block qc = fork_info q \<and>
     gen_vote_data run_crypto (msvp_vote_proposal (fork_proposal r qc)) = Ok (fork_vd r q)"
  by code_simp

lemma stale_tc_verifies: "tctc_verify run_crypto run_verifier stale_tc = Ok ()"
  by code_simp

lemma fork_step:
  assumes m: "(r, q, p) \<in> set [(1, 0, 0), (2, 1, 0), (3, 0, 0), (4, 3, 0)]"
    and tc: "\<forall>tc. maybe_tc = Some tc \<longrightarrow> tc = stale_tc" and rule: "two_chain_rule (fork_block r (fork_qc q p)) maybe_tc"
    and d: "sd_epoch d = 2" "sd_last_voted_round d < r" "\<forall>v. sd_last_vote d = Some v \<longrightarrow> v_round v \<noteq> r"
    and d': "d' = (observe_qc (fork_qc q p) (d\<lparr>sd_last_voted_round := r\<rparr>))\<lparr>sd_last_vote := Some (fork_vote r q)\<rparr>"
  shows "guarded_construct_and_sign_vote_two_chain run_crypto 0 (fork_proposal r (fork_qc q p)) maybe_tc (run_node_at 2 d)
    = (Ok (fork_vote r q), run_node_at 2 d')"
proof (rule run_node_vote [OF fork_block_def, where vd = "fork_vd r q" and li = "fork_li r q"])
  let ?b = "fork_block r (fork_qc q p)"
  from fork_valid m have f: "qc_verify run_crypto run_verifier (b_quorum_cert ?b) = Ok ()"
    "validate_signature run_crypto run_verifier ?b = Ok ()" "verify_well_formed 0 ?b = Ok ()"
    "b_epoch ?b = 2" "b_round ?b = r" "b_quorum_cert ?b = fork_qc q p" "certified_block (fork_qc q p) = fork_info q"
    "gen_vote_data run_crypto (msvp_vote_proposal (fork_proposal r (fork_qc q p))) = Ok (fork_vd r q)"
    unfolding Let_def by (auto simp del: set_simps)
  have q: "bi_round (fork_info q) = q" by (simp add: fork_info_def block_info_new_def)
  show "qc_verify run_crypto run_verifier (b_quorum_cert ?b) = Ok ()" "validate_signature run_crypto run_verifier ?b = Ok ()"
    "verify_well_formed 0 ?b = Ok ()"
    "gen_vote_data run_crypto (msvp_vote_proposal (fork_proposal r (fork_qc q p))) = Ok (fork_vd r q)" by fact+
  show "b_epoch ?b = sd_epoch d" "sd_last_voted_round d < b_round ?b"
    "\<forall>v. sd_last_vote d = Some v \<longrightarrow> v_round v \<noteq> b_round ?b" using f d by simp_all
  show "\<forall>tc. maybe_tc = Some tc \<longrightarrow> tctc_verify run_crypto run_verifier tc = Ok ()" using tc stale_tc_verifies by blast
  show "safe_to_vote ?b maybe_tc = Ok ()" using rule safe_to_vote_iff [OF verify_well_formed_Ok(2) [OF f(3)]] by simp
  from m have "r \<noteq> 0" "next_round q = Ok (q + 1)" by (auto simp: next_round_eq)
  then show "construct_ledger_info_2chain ?b (hash_of run_crypto (H_VoteData (fork_vd r q))) = Ok (fork_li r q)"
    unfolding construct_ledger_info_2chain_def f q Let_def fork_li_def by simp
  show "fork_vote r q = vote_new_with_signature (fork_vd r q) 1 (fork_li r q) 7" by (rule fork_vote_def)
  show "d' = (observe_qc (b_quorum_cert ?b) (d\<lparr>sd_last_voted_round := b_round ?b\<rparr>))\<lparr>sd_last_vote := Some (fork_vote r q)\<rparr>"
    using d' f by simp
qed

lemma fork_safety_data:
  "fork_sd 1 0 0 0 = (observe_qc (fork_qc 0 0) ((fork_sd 0 0 0 0)\<lparr>sd_last_voted_round := 1\<rparr>))\<lparr>sd_last_vote := Some (fork_vote 1 0)\<rparr>"
  "fork_sd 2 1 0 1 = (observe_qc (fork_qc 1 0) ((fork_sd 1 0 0 0)\<lparr>sd_last_voted_round := 2\<rparr>))\<lparr>sd_last_vote := Some (fork_vote 2 1)\<rparr>"
  "fork_sd 3 0 0 1 = (observe_qc (fork_qc 0 0) ((fork_sd 2 1 0 1)\<lparr>sd_last_voted_round := 3\<rparr>))\<lparr>sd_last_vote := Some (fork_vote 3 0)\<rparr>"
  "fork_sd 4 3 0 3 = (observe_qc (fork_qc 3 0) ((fork_sd 3 0 0 1)\<lparr>sd_last_voted_round := 4\<rparr>))\<lparr>sd_last_vote := Some (fork_vote 4 3)\<rparr>"
  by code_simp+

lemma fork_rules:
  "two_chain_rule (fork_block 1 (fork_qc 0 0)) None" "two_chain_rule (fork_block 2 (fork_qc 1 0)) None"
  "two_chain_rule (fork_block 3 (fork_qc 0 0)) (Some stale_tc)" "two_chain_rule (fork_block 4 (fork_qc 3 0)) None"
  by code_simp+

lemma fork_last_vote:
  "\<forall>v. sd_last_vote (fork_sd r p pr oc) = Some v \<longrightarrow> v_round v = r"
  by (simp add: fork_sd_def safety_data_new_def fork_vote_def vote_new_with_signature_def v_round_def fork_vd_def
      vote_data_new_def fork_info_def block_info_new_def)

lemma fork_run:
  "handle_messages run_crypto fork_messages (run_node_at 2 (fork_sd 0 0 0 0)) =
     ([OUT_Vote (Ok (fork_vote 1 0)), OUT_Vote (Ok (fork_vote 2 1)), OUT_Vote (Ok (fork_vote 3 0)), OUT_Vote (Ok (fork_vote 4 3))],
      run_node_at 2 (fork_sd 4 3 0 3))"
proof -
  have sd: "sd_epoch (fork_sd r p pr oc) = 2" "sd_last_voted_round (fork_sd r p pr oc) = r" for r p pr oc
    by (simp_all add: fork_sd_def safety_data_new_def)
  have none: "\<forall>v. sd_last_vote (fork_sd r p pr oc) = Some v \<longrightarrow> v_round v \<noteq> r'" if "r \<noteq> r'" for r r' p pr oc
    using fork_last_vote [of r p pr oc] that by auto
  have "guarded_construct_and_sign_vote_two_chain run_crypto 0 (fork_proposal 1 (fork_qc 0 0)) None (run_node_at 2 (fork_sd 0 0 0 0))
      = (Ok (fork_vote 1 0), run_node_at 2 (fork_sd 1 0 0 0))"
    by (rule fork_step [OF _ _ fork_rules(1) _ _ none fork_safety_data(1)]) (simp_all add: sd)
  moreover have "guarded_construct_and_sign_vote_two_chain run_crypto 0 (fork_proposal 2 (fork_qc 1 0)) None (run_node_at 2 (fork_sd 1 0 0 0))
      = (Ok (fork_vote 2 1), run_node_at 2 (fork_sd 2 1 0 1))"
    by (rule fork_step [OF _ _ fork_rules(2) _ _ none fork_safety_data(2)]) (simp_all add: sd)
  moreover have "guarded_construct_and_sign_vote_two_chain run_crypto 0 (fork_proposal 3 (fork_qc 0 0)) (Some stale_tc) (run_node_at 2 (fork_sd 2 1 0 1))
      = (Ok (fork_vote 3 0), run_node_at 2 (fork_sd 3 0 0 1))"
    by (rule fork_step [OF _ _ fork_rules(3) _ _ none fork_safety_data(3)]) (simp_all add: sd)
  moreover have "guarded_construct_and_sign_vote_two_chain run_crypto 0 (fork_proposal 4 (fork_qc 3 0)) None (run_node_at 2 (fork_sd 3 0 0 1))
      = (Ok (fork_vote 4 3), run_node_at 2 (fork_sd 4 3 0 3))"
    by (rule fork_step [OF _ _ fork_rules(4) _ _ none fork_safety_data(4)]) (simp_all add: sd)
  ultimately show ?thesis by (simp add: fork_messages_def)
qed



end
