(* ===== verification/Pending_Votes.thy ===== *)
theory Pending_Votes
  imports Consensus_Types
begin

text \<open>
  \<open>consensus/src/pending_votes.rs\<close>: the votes a validator has received for its current epoch and
  round, and the quorum and timeout certificates it forms from them. The hash maps are maps, since
  the code only looks keys up. The theorems: every certificate that comes out of verified votes
  passes verification itself, with one exception that the last section exhibits.
\<close>

section \<open>The model\<close>

datatype vote_reception_result =
    VoteAdded u64
  | DuplicateVote
  | EquivocateVote
  | NewQuorumCertificate quorum_cert
  | NewTimeoutCertificate timeout_certificate
  | New2ChainTimeoutCertificate two_chain_timeout_certificate
  | ErrorAddingVote verify_error
  | UnexpectedRound u64 u64

record pending_votes =
  pv_li_digest_to_votes :: "hash_value \<Rightarrow> ledger_info_with_signatures option"
  pv_maybe_partial_tc :: "timeout_certificate option"
  pv_maybe_partial_2chain_tc :: "two_chain_timeout_certificate option"
  pv_author_to_vote :: "author \<Rightarrow> vote option"

definition pending_votes_new :: pending_votes where
  "pending_votes_new = \<lparr>pv_li_digest_to_votes = Map.empty, pv_maybe_partial_tc = None,
     pv_maybe_partial_2chain_tc = None, pv_author_to_vote = Map.empty\<rparr>"

text \<open>Step 1: the answer when the author has voted in this round before.\<close>

definition previous_vote :: "crypto \<Rightarrow> vote \<Rightarrow> pending_votes \<Rightarrow> vote_reception_result option" where
  "previous_vote C v pv =
     (case pv_author_to_vote pv (v_author v) of
        None \<Rightarrow> None
      | Some w \<Rightarrow>
          if hash_of C (H_LedgerInfo (v_ledger_info v)) = hash_of C (H_LedgerInfo (v_ledger_info w))
          then (if is_timeout v \<and> \<not> is_timeout w then None else Some DuplicateVote)
          else Some EquivocateVote)"

text \<open>
  The answer to \<open>check_voting_power\<close>: a quorum, too little power, or another error, which ends the
  insertion.
\<close>

definition match_voting_power ::
    "(unit, verify_error) result \<Rightarrow> pending_votes \<Rightarrow> vote_reception_result
     \<Rightarrow> (u64 \<Rightarrow> (vote_reception_result, anyhow) result \<times> pending_votes)
     \<Rightarrow> (vote_reception_result, anyhow) result \<times> pending_votes" where
  "match_voting_power checked pv on_quorum on_little =
     (case checked of
        Ok _ \<Rightarrow> (Ok on_quorum, pv)
      | Err e \<Rightarrow>
          (case e of
             TooLittleVotingPower voting_power _ \<Rightarrow> on_little voting_power
           | _ \<Rightarrow> (Ok (ErrorAddingVote e), pv))
      | Panic \<Rightarrow> (Panic, pv))"

text \<open>Steps 4.1 and 5: the 2-chain timeout.\<close>

definition add_two_chain_timeout ::
    "validator_verifier \<Rightarrow> vote \<Rightarrow> u64 \<Rightarrow> (pending_votes, vote_reception_result, anyhow) stateful" where
  "add_two_chain_timeout vv v voting_power pv =
     (case v_two_chain_timeout v of
        None \<Rightarrow> (Ok (VoteAdded voting_power), pv)
      | Some (t, sig) \<Rightarrow>
          let partial = (case pv_maybe_partial_2chain_tc pv of None \<Rightarrow> tctc_new t | Some tc \<Rightarrow> tc);
              tc = tctc_add (v_author v) t sig partial;
              pv' = pv\<lparr>pv_maybe_partial_2chain_tc := Some tc\<rparr>
          in match_voting_power (check_voting_power vv (btree_keys (tctc_signatures tc))) pv'
               (New2ChainTimeoutCertificate tc) (\<lambda>_. (Ok (VoteAdded voting_power), pv')))"

text \<open>Step 4: the timeout of the 3-chain protocol.\<close>

definition add_timeout ::
    "validator_verifier \<Rightarrow> vote \<Rightarrow> u64 \<Rightarrow> (pending_votes, vote_reception_result, anyhow) stateful" where
  "add_timeout vv v voting_power pv =
     (case v_timeout_signature v of
        None \<Rightarrow> add_two_chain_timeout vv v voting_power pv
      | Some sig \<Rightarrow>
          let partial = (case pv_maybe_partial_tc pv of None \<Rightarrow> tc_new (generate_timeout v) | Some tc \<Rightarrow> tc);
              tc = tc_add_signature (v_author v) sig partial;
              pv' = pv\<lparr>pv_maybe_partial_tc := Some tc\<rparr>
          in match_voting_power (check_voting_power vv (btree_keys (tc_signatures tc))) pv'
               (NewTimeoutCertificate tc) (\<lambda>_. add_two_chain_timeout vv v voting_power pv'))"

text \<open>Steps 2 and 3: the vote is stored and its signature added to those on the same ledger info.\<close>

definition store_vote :: "crypto \<Rightarrow> vote \<Rightarrow> pending_votes \<Rightarrow> ledger_info_with_signatures \<times> pending_votes" where
  "store_vote C v pv =
     (let li_digest = hash_of C (H_LedgerInfo (v_ledger_info v));
          entry = (case pv_li_digest_to_votes pv li_digest of
                     None \<Rightarrow> lis_new (v_ledger_info v) btree_new
                   | Some l \<Rightarrow> l);
          li_with_sig = lis_add_signature (v_author v) (v_signature v) entry
      in (li_with_sig,
          pv\<lparr>pv_author_to_vote := (pv_author_to_vote pv)(v_author v \<mapsto> v),
             pv_li_digest_to_votes := (pv_li_digest_to_votes pv)(li_digest \<mapsto> li_with_sig)\<rparr>))"

definition pending_votes_insert_vote ::
    "crypto \<Rightarrow> validator_verifier \<Rightarrow> vote \<Rightarrow> (pending_votes, vote_reception_result, anyhow) stateful" where
  "pending_votes_insert_vote C vv v pv =
     (case previous_vote C v pv of
        Some answer \<Rightarrow> (Ok answer, pv)
      | None \<Rightarrow>
          let (li_with_sig, pv') = store_vote C v pv
          in match_voting_power (check_voting_power vv (btree_keys (lis_signatures li_with_sig))) pv'
               (NewQuorumCertificate (qc_new (v_vote_data v) li_with_sig))
               (\<lambda>voting_power. add_timeout vv v voting_power pv'))"

text \<open>A sequence of votes for one epoch and round, in the order they arrive.\<close>

fun insert_votes ::
    "crypto \<Rightarrow> validator_verifier \<Rightarrow> vote list \<Rightarrow> pending_votes
     \<Rightarrow> (vote_reception_result, anyhow) result list \<times> pending_votes" where
  "insert_votes C vv [] pv = ([], pv)"
| "insert_votes C vv (v # vs) pv =
     (let (out, pv') = pending_votes_insert_vote C vv v pv;
          (outs, pv'') = insert_votes C vv vs pv'
      in (out # outs, pv''))"

section \<open>What verified votes establish\<close>

lemma vote_verify_Ok_iff [ok_simps]:
  "vote_verify C vv v = Ok u \<longleftrightarrow>
     li_consensus_data_hash (v_ledger_info v) = hash_of C (H_VoteData (v_vote_data v)) \<and>
     (v_timeout_signature v = None \<or> v_two_chain_timeout v = None) \<and>
     vv_verify C vv (v_author v) (H_LedgerInfo (v_ledger_info v)) (v_signature v) = Ok () \<and>
     (\<forall>sig. v_timeout_signature v = Some sig \<longrightarrow>
        vv_verify C vv (v_author v) (H_Timeout (generate_timeout v)) sig = Ok ()) \<and>
     (\<forall>t sig. v_two_chain_timeout v = Some (t, sig) \<longrightarrow>
        tct_epoch t = v_epoch v \<and> tct_round t = v_round v \<and> qc_verify C vv (tct_quorum_cert t) = Ok () \<and>
        vv_verify C vv (v_author v) (H_TimeoutSigningRepr (signing_format t)) sig = Ok ()) \<and>
     vd_verify (v_vote_data v) = Ok ()"
  unfolding vote_verify_def vote_verify_timeout_def vote_verify_2chain_timeout_def
  by (auto simp: bind_result_Ok_iff ensure_Ok_iff map_err_Ok_iff v_round_def split: option.splits)

definition vote_ok :: "crypto \<Rightarrow> validator_verifier \<Rightarrow> u64 \<Rightarrow> round \<Rightarrow> vote \<Rightarrow> bool" where
  "vote_ok C vv e r v \<longleftrightarrow> vote_verify C vv v = Ok () \<and> v_epoch v = e \<and> v_round v = r"

lemma vote_ok_round: "vote_ok C vv e r v \<Longrightarrow> r \<noteq> 0"
  by (auto simp: vote_ok_def vote_verify_Ok_iff vd_verify_Ok_iff v_round_def)

text \<open>The signatures of a map, all of them valid on the message an author is bound to.\<close>

definition all_signed :: "crypto \<Rightarrow> validator_verifier \<Rightarrow> ('v \<Rightarrow> crypto_hash \<times> signature) \<Rightarrow> (author, 'v) btree_map \<Rightarrow> bool" where
  "all_signed C vv f m \<longleftrightarrow> (\<forall>a x. btree_get m a = Some x \<longrightarrow> vv_verify C vv a (fst (f x)) (snd (f x)) = Ok ())"

lemma all_signed_new: "all_signed C vv f btree_new"
  by (simp add: all_signed_def btree.get_new)

lemma all_signed_insert:
  "all_signed C vv f m \<Longrightarrow> vv_verify C vv a (fst (f x)) (snd (f x)) = Ok () \<Longrightarrow> all_signed C vv f (btree_insert a x m)"
  by (simp add: all_signed_def btree.get_insert)

lemma all_signed_or_insert:
  "all_signed C vv f m \<Longrightarrow> vv_verify C vv a (fst (f x)) (snd (f x)) = Ok () \<Longrightarrow> all_signed C vv f (btree_or_insert a x m)"
  by (auto simp: all_signed_def btree_get_or_insert)

lemma all_signed_members: "all_signed C vv f m \<Longrightarrow> set (btree_keys m) \<subseteq> members vv"
  by (force simp: all_signed_def btree_keys_get vv_verify_Ok_iff dest: get_public_key_members)

text \<open>On known authors the power check gives a quorum or too little power, no other error.\<close>

lemma check_voting_power_known:
  assumes "set as \<subseteq> members vv"
  shows "check_voting_power vv as = Ok () \<or> (\<exists>p q. check_voting_power vv as = Err (TooLittleVotingPower p q))"
  using assms by (auto simp: check_voting_power_def aggregate_voting_power_cases)

lemma match_known:
  assumes "set as \<subseteq> members vv" and "match_voting_power (check_voting_power vv as) pv quorum k = (out, pv')"
  shows "(check_voting_power vv as = Ok () \<and> out = Ok quorum \<and> pv' = pv) \<or>
    (\<exists>p. check_voting_power vv as \<noteq> Ok () \<and> k p = (out, pv'))"
  using check_voting_power_known [OF assms(1)] assms(2) by (auto simp: match_voting_power_def)

lemma all_signed_len: "all_signed C vv f m \<Longrightarrow> btree_len m \<le> vv_len vv"
proof -
  assume "all_signed C vv f m"
  then have "card (set (btree_keys m)) \<le> card (members vv)" by (intro card_mono all_signed_members) auto
  moreover have "card (members vv) \<le> vv_len vv"
    by (simp add: members_def get_ordered_account_addresses_def vv_len_def btree_len_keys card_length)
  ultimately show ?thesis by (simp add: btree_len_keys distinct_card btree.keys_distinct)
qed

lemma all_signed_aggregated:
  assumes "all_signed C vv (\<lambda>sig. (msg, sig)) sigs" and "check_voting_power vv (btree_keys sigs) = Ok ()"
  shows "verify_aggregated_struct_signature C vv msg sigs = Ok ()"
  using assms all_signed_len [OF assms(1)] by (simp add: verify_aggregated_Ok_iff all_signed_def)

lemma aggregated_batch:
  "verify_aggregated_struct_signature C vv msg sigs = Ok () \<Longrightarrow> batch_verify_aggregated_signatures C vv msg sigs = Ok ()"
  by (auto simp: batch_verify_aggregated_signatures_def verify_aggregated_struct_signature_def ok_simps)

section \<open>The partial certificates\<close>

definition lis_good :: "crypto \<Rightarrow> validator_verifier \<Rightarrow> vote set \<Rightarrow> hash_value \<Rightarrow> ledger_info_with_signatures \<Rightarrow> bool" where
  "lis_good C vv V d l \<longleftrightarrow> hash_of C (H_LedgerInfo (lis_ledger_info l)) = d \<and>
     (\<exists>w. w \<in> V \<and> v_ledger_info w = lis_ledger_info l) \<and>
     all_signed C vv (\<lambda>sig. (H_LedgerInfo (lis_ledger_info l), sig)) (lis_signatures l)"

definition tc_good :: "crypto \<Rightarrow> validator_verifier \<Rightarrow> u64 \<Rightarrow> round \<Rightarrow> timeout_certificate \<Rightarrow> bool" where
  "tc_good C vv e r tc \<longleftrightarrow> to_epoch (tc_timeout tc) = e \<and> to_round (tc_timeout tc) = r \<and>
     all_signed C vv (\<lambda>sig. (H_Timeout (tc_timeout tc), sig)) (tc_signatures tc)"

text \<open>The timeout kept in a 2-chain certificate is one with the highest round that was signed.\<close>

definition tctc_good :: "crypto \<Rightarrow> validator_verifier \<Rightarrow> u64 \<Rightarrow> round \<Rightarrow> two_chain_timeout_certificate \<Rightarrow> bool" where
  "tctc_good C vv e r tc \<longleftrightarrow> tctc_epoch tc = e \<and> tctc_round tc = r \<and>
     qc_verify C vv (tct_quorum_cert (tctc_timeout tc)) = Ok () \<and>
     all_signed C vv (\<lambda>(h, sig). (H_TimeoutSigningRepr \<lparr>tsr_epoch = e, tsr_round = r, tsr_hqc_round = h\<rparr>, sig))
       (tctc_signatures tc) \<and>
     (\<forall>a h sig. btree_get (tctc_signatures tc) a = Some (h, sig) \<longrightarrow> h \<le> highest_hqc_round tc) \<and>
     (\<exists>a sig. btree_get (tctc_signatures tc) a = Some (highest_hqc_round tc, sig))"

lemma tctc_good_verify:
  assumes good: "tctc_good C vv e r tc" and quorum: "check_voting_power vv (btree_keys (tctc_signatures tc)) = Ok ()"
  shows "tctc_verify C vv tc = Ok () \<longleftrightarrow> highest_hqc_round tc < r"
proof -
  let ?es = "entries (tctc_signatures tc)"
  let ?m = "foldl max 0 (map (fst \<circ> snd) ?es)"
  from good obtain a sig where "btree_get (tctc_signatures tc) a = Some (highest_hqc_round tc, sig)"
    by (auto simp: tctc_good_def)
  then have "(a, highest_hqc_round tc, sig) \<in> set ?es" by (simp add: entries_iff_get)
  then have "highest_hqc_round tc \<in> set (map (fst \<circ> snd) ?es)" by force
  then have "highest_hqc_round tc \<le> ?m" using foldl_max_bounds by blast
  moreover have "\<forall>x \<in> set (map (fst \<circ> snd) ?es). x \<le> highest_hqc_round tc"
    using good by (fastforce simp: tctc_good_def entries_iff_get)
  then have "?m \<le> highest_hqc_round tc" using foldl_max_bounds [of 0 "map (fst \<circ> snd) ?es"] by auto
  ultimately have m: "?m = highest_hqc_round tc" by (rule antisym [rotated])
  have "tctc_verify_loop C vv (tctc_timeout tc) 0 ?es = Ok (highest_hqc_round tc)"
    using good m by (fastforce simp: tctc_verify_loop_Ok_iff tctc_good_def all_signed_def entries_iff_get
        tctc_epoch_def tctc_round_def)
  with good quorum show ?thesis
    by (auto simp: tctc_verify_def Let_def tctc_good_def tctc_round_def highest_hqc_round_def ok_simps)
qed

lemma tctc_good_first:
  assumes v: "vote_ok C vv e r v" and t: "v_two_chain_timeout v = Some (t, sig)"
  shows "tctc_good C vv e r (tctc_add (v_author v) t sig (tctc_new t))"
  using assms by (auto simp: vote_ok_def vote_verify_Ok_iff tctc_good_def tctc_add_def tctc_new_def tctc_epoch_def
      tctc_round_def highest_hqc_round_def signing_format_def btree_laws intro!: all_signed_insert all_signed_new)

lemma tctc_good_add:
  assumes v: "vote_ok C vv e r v" and t: "v_two_chain_timeout v = Some (t, sig)"
    and tc: "tctc_good C vv e r tc" and new: "v_author v \<notin> set (btree_keys (tctc_signatures tc))"
  shows "tctc_good C vv e r (tctc_add (v_author v) t sig tc)"
proof -
  let ?tc = "tctc_add (v_author v) t sig tc"
  from v t have tv: "tct_epoch t = e" "tct_round t = r" "qc_verify C vv (tct_quorum_cert t) = Ok ()"
    "vv_verify C vv (v_author v) (H_TimeoutSigningRepr \<lparr>tsr_epoch = e, tsr_round = r, tsr_hqc_round = tct_hqc_round t\<rparr>) sig = Ok ()"
    by (auto simp: vote_ok_def vote_verify_Ok_iff signing_format_def)
  from tc have g: "tctc_epoch tc = e" "tctc_round tc = r" "qc_verify C vv (tct_quorum_cert (tctc_timeout tc)) = Ok ()"
    and s: "all_signed C vv (\<lambda>(h, sig). (H_TimeoutSigningRepr \<lparr>tsr_epoch = e, tsr_round = r, tsr_hqc_round = h\<rparr>, sig))
       (tctc_signatures tc)"
    and le: "\<forall>a h sig. btree_get (tctc_signatures tc) a = Some (h, sig) \<longrightarrow> h \<le> highest_hqc_round tc"
    by (auto simp: tctc_good_def)
  from tc obtain a' s' where att: "btree_get (tctc_signatures tc) a' = Some (highest_hqc_round tc, s')"
    by (auto simp: tctc_good_def)
  with new have other: "a' \<noteq> v_author v" by (auto simp: btree_keys_get)
  have hqc: "highest_hqc_round ?tc = max (highest_hqc_round tc) (tct_hqc_round t)"
    by (auto simp: tctc_add_def highest_hqc_round_def max_def)
  have sigs: "tctc_signatures ?tc = btree_insert (v_author v) (tct_hqc_round t, sig) (tctc_signatures tc)"
    by (simp add: tctc_add_def)
  have "tctc_epoch ?tc = e" "tctc_round ?tc = r" "qc_verify C vv (tct_quorum_cert (tctc_timeout ?tc)) = Ok ()"
    using tv g by (auto simp: tctc_add_def tctc_epoch_def tctc_round_def)
  moreover have "all_signed C vv (\<lambda>(h, sig). (H_TimeoutSigningRepr \<lparr>tsr_epoch = e, tsr_round = r, tsr_hqc_round = h\<rparr>, sig))
       (tctc_signatures ?tc)"
    unfolding sigs using s tv by (intro all_signed_insert) auto
  moreover have "\<forall>a h sig. btree_get (tctc_signatures ?tc) a = Some (h, sig) \<longrightarrow> h \<le> highest_hqc_round ?tc"
    unfolding sigs hqc using le by (auto simp: btree.get_insert le_max_iff_disj)
  moreover have "\<exists>a sig. btree_get (tctc_signatures ?tc) a = Some (highest_hqc_round ?tc, sig)"
  proof (cases "highest_hqc_round tc < tct_hqc_round t")
    case True
    then show ?thesis unfolding sigs hqc by (intro exI [of _ "v_author v"] exI [of _ sig]) (simp add: btree.get_insert max_absorb2 less_imp_le)
  next
    case False
    then show ?thesis unfolding sigs hqc using att other
      by (intro exI [of _ a'] exI [of _ s']) (simp add: btree.get_insert max_absorb1)
  qed
  ultimately show ?thesis by (simp add: tctc_good_def)
qed

section \<open>The invariant\<close>

definition pv_inv :: "crypto \<Rightarrow> validator_verifier \<Rightarrow> u64 \<Rightarrow> round \<Rightarrow> vote set \<Rightarrow> pending_votes \<Rightarrow> bool" where
  "pv_inv C vv e r V pv \<longleftrightarrow>
     (\<forall>d l. pv_li_digest_to_votes pv d = Some l \<longrightarrow> lis_good C vv V d l) \<and>
     (\<forall>tc. pv_maybe_partial_tc pv = Some tc \<longrightarrow> tc_good C vv e r tc) \<and>
     (\<forall>tc. pv_maybe_partial_2chain_tc pv = Some tc \<longrightarrow> tctc_good C vv e r tc \<and>
        (\<forall>a. a \<in> set (btree_keys (tctc_signatures tc)) \<longrightarrow>
           (\<exists>w. pv_author_to_vote pv a = Some w \<and> is_timeout w)))"

text \<open>What may come out of the insertion of verified votes.\<close>

fun reception_ok :: "crypto \<Rightarrow> validator_verifier \<Rightarrow> u64 \<Rightarrow> round \<Rightarrow> (vote_reception_result, anyhow) result \<Rightarrow> bool" where
  "reception_ok C vv e r (Ok (NewQuorumCertificate qc)) \<longleftrightarrow>
     qc_verify C vv qc = Ok () \<and> bi_epoch (certified_block qc) = e \<and> bi_round (certified_block qc) = r"
| "reception_ok C vv e r (Ok (NewTimeoutCertificate tc)) \<longleftrightarrow>
     tc_verify C vv tc = Ok () \<and> tc_epoch tc = e \<and> tc_round tc = r"
| "reception_ok C vv e r (Ok (New2ChainTimeoutCertificate tc)) \<longleftrightarrow>
     (tctc_verify C vv tc = Ok () \<longleftrightarrow> highest_hqc_round tc < r) \<and> tctc_epoch tc = e \<and> tctc_round tc = r"
| "reception_ok C vv e r (Ok (VoteAdded p)) \<longleftrightarrow> True"
| "reception_ok C vv e r (Ok DuplicateVote) \<longleftrightarrow> True"
| "reception_ok C vv e r (Ok EquivocateVote) \<longleftrightarrow> True"
| "reception_ok C vv e r _ \<longleftrightarrow> False"

lemma pv_inv_new: "pv_inv C vv e r V pending_votes_new"
  by (simp add: pv_inv_def pending_votes_new_def)

lemma lis_good_mono: "lis_good C vv V d l \<Longrightarrow> V \<subseteq> W \<Longrightarrow> lis_good C vv W d l"
  by (auto simp: lis_good_def)

definition collision_free :: "crypto \<Rightarrow> vote set \<Rightarrow> bool" where
  "collision_free C V \<longleftrightarrow> (\<forall>v w. v \<in> V \<longrightarrow> w \<in> V \<longrightarrow>
     hash_of C (H_LedgerInfo (v_ledger_info v)) = hash_of C (H_LedgerInfo (v_ledger_info w)) \<longrightarrow>
     v_ledger_info v = v_ledger_info w)"

text \<open>The author of a vote that is not answered at once has not sent a timeout before.\<close>

lemma previous_vote_None:
  assumes "previous_vote C v pv = None" and "pv_author_to_vote pv (v_author v) = Some w"
  shows "is_timeout v \<and> \<not> is_timeout w \<and>
    hash_of C (H_LedgerInfo (v_ledger_info v)) = hash_of C (H_LedgerInfo (v_ledger_info w))"
  using assms by (auto simp: previous_vote_def split: if_splits)

lemma store_vote_good:
  assumes inv: "pv_inv C vv e r V pv" and v: "vote_ok C vv e r v" and V: "v \<in> V" "collision_free C V"
    and s: "store_vote C v pv = (l, pv')"
  shows "lis_good C vv V (hash_of C (H_LedgerInfo (v_ledger_info v))) l" and "lis_ledger_info l = v_ledger_info v"
proof -
  let ?d = "hash_of C (H_LedgerInfo (v_ledger_info v))"
  define entry where "entry = (case pv_li_digest_to_votes pv ?d of None \<Rightarrow> lis_new (v_ledger_info v) btree_new | Some l \<Rightarrow> l)"
  have l: "l = lis_add_signature (v_author v) (v_signature v) entry"
    using s by (simp add: store_vote_def Let_def entry_def)
  have g: "lis_good C vv V ?d entry"
    using inv V by (auto simp: entry_def pv_inv_def lis_good_def lis_new_def all_signed_new split: option.splits)
  then have same: "lis_ledger_info entry = v_ledger_info v"
    using V by (auto simp: lis_good_def collision_free_def)
  with l show "lis_ledger_info l = v_ledger_info v" by (simp add: lis_add_signature_def)
  from g same v show "lis_good C vv V ?d l"
    unfolding l by (auto simp: lis_good_def lis_add_signature_def vote_ok_def vote_verify_Ok_iff intro!: all_signed_or_insert)
qed

lemma store_vote_inv:
  assumes inv: "pv_inv C vv e r V pv" and v: "vote_ok C vv e r v" and V: "v \<in> V" "collision_free C V"
    and s: "store_vote C v pv = (l, pv')" and prev: "previous_vote C v pv = None"
  shows "pv_inv C vv e r V pv'" and "pv_author_to_vote pv' (v_author v) = Some v"
    and "pv_maybe_partial_2chain_tc pv' = Some tc \<Longrightarrow> v_author v \<notin> set (btree_keys (tctc_signatures tc))"
proof -
  from s have pv': "pv' = pv\<lparr>pv_author_to_vote := (pv_author_to_vote pv)(v_author v \<mapsto> v),
      pv_li_digest_to_votes := (pv_li_digest_to_votes pv)(hash_of C (H_LedgerInfo (v_ledger_info v)) \<mapsto> l)\<rparr>"
    by (auto simp: store_vote_def Let_def)
  then show "pv_author_to_vote pv' (v_author v) = Some v" by simp
  have new: "v_author v \<notin> set (btree_keys (tctc_signatures tc))" if "pv_maybe_partial_2chain_tc pv = Some tc" for tc
    using inv that previous_vote_None [OF prev] unfolding pv_inv_def by blast
  then show "pv_maybe_partial_2chain_tc pv' = Some tc \<Longrightarrow> v_author v \<notin> set (btree_keys (tctc_signatures tc))"
    by (simp add: pv')
  show "pv_inv C vv e r V pv'"
    unfolding pv_inv_def
  proof (intro conjI allI impI)
    show "lis_good C vv V d k" if "pv_li_digest_to_votes pv' d = Some k" for d k
      using that inv store_vote_good(1) [OF inv v V s] by (auto simp: pv' pv_inv_def split: if_splits)
    show "tc_good C vv e r tc" if "pv_maybe_partial_tc pv' = Some tc" for tc
      using that inv by (simp add: pv' pv_inv_def)
    show "tctc_good C vv e r tc" if "pv_maybe_partial_2chain_tc pv' = Some tc" for tc
      using that inv by (simp add: pv' pv_inv_def)
    show "\<exists>w. pv_author_to_vote pv' a = Some w \<and> is_timeout w"
      if "pv_maybe_partial_2chain_tc pv' = Some tc" "a \<in> set (btree_keys (tctc_signatures tc))" for tc a
    proof -
      from that have tc: "pv_maybe_partial_2chain_tc pv = Some tc" by (simp add: pv')
      with that new have "a \<noteq> v_author v" by auto
      with inv tc that(2) show ?thesis by (auto simp: pv' pv_inv_def)
    qed
  qed
qed

lemma add_two_chain_timeout_inv:
  assumes inv: "pv_inv C vv e r V pv" and v: "vote_ok C vv e r v" and a: "pv_author_to_vote pv (v_author v) = Some v"
    and new: "\<And>tc. pv_maybe_partial_2chain_tc pv = Some tc \<Longrightarrow> v_author v \<notin> set (btree_keys (tctc_signatures tc))"
    and add: "add_two_chain_timeout vv v p pv = (out, pv')"
  shows "pv_inv C vv e r V pv' \<and> reception_ok C vv e r out"
proof (cases "v_two_chain_timeout v")
  case None
  with inv add show ?thesis by (auto simp: add_two_chain_timeout_def)
next
  case (Some ts)
  obtain t sig where t: "v_two_chain_timeout v = Some (t, sig)" using Some by (cases ts) auto
  define tc where "tc = tctc_add (v_author v) t sig
    (case pv_maybe_partial_2chain_tc pv of None \<Rightarrow> tctc_new t | Some tc \<Rightarrow> tc)"
  have good: "tctc_good C vv e r tc"
    using tctc_good_first [OF v t] tctc_good_add [OF v t _ new] inv by (auto simp: tc_def pv_inv_def split: option.splits)
  have "is_timeout v" by (simp add: is_timeout_def t)
  with inv a have keys: "\<exists>w. pv_author_to_vote pv b = Some w \<and> is_timeout w" if "b \<in> set (btree_keys (tctc_signatures tc))" for b
    using that by (auto simp: tc_def tctc_add_def tctc_new_def pv_inv_def btree.set_keys_insert split: option.splits)
  have inv': "pv_inv C vv e r V (pv\<lparr>pv_maybe_partial_2chain_tc := Some tc\<rparr>)"
    using inv good keys by (simp add: pv_inv_def)
  have mem: "set (btree_keys (tctc_signatures tc)) \<subseteq> members vv"
    using good by (auto simp: tctc_good_def dest: all_signed_members)
  from add have m: "match_voting_power (check_voting_power vv (btree_keys (tctc_signatures tc)))
      (pv\<lparr>pv_maybe_partial_2chain_tc := Some tc\<rparr>) (New2ChainTimeoutCertificate tc)
      (\<lambda>_. (Ok (VoteAdded p), pv\<lparr>pv_maybe_partial_2chain_tc := Some tc\<rparr>)) = (out, pv')"
    by (simp add: add_two_chain_timeout_def t tc_def Let_def)
  from match_known [OF mem m] inv' tctc_good_verify [OF good] good show ?thesis
    by (auto simp: tctc_good_def)
qed

lemma add_timeout_inv:
  assumes inv: "pv_inv C vv e r V pv" and v: "vote_ok C vv e r v" and a: "pv_author_to_vote pv (v_author v) = Some v"
    and new: "\<And>tc. pv_maybe_partial_2chain_tc pv = Some tc \<Longrightarrow> v_author v \<notin> set (btree_keys (tctc_signatures tc))"
    and add: "add_timeout vv v p pv = (out, pv')"
  shows "pv_inv C vv e r V pv' \<and> reception_ok C vv e r out"
proof (cases "v_timeout_signature v")
  case None
  with add add_two_chain_timeout_inv [OF inv v a new] show ?thesis by (simp add: add_timeout_def)
next
  case (Some sig)
  define tc where "tc = tc_add_signature (v_author v) sig
    (case pv_maybe_partial_tc pv of None \<Rightarrow> tc_new (generate_timeout v) | Some tc \<Rightarrow> tc)"
  let ?pv = "pv\<lparr>pv_maybe_partial_tc := Some tc\<rparr>"
  from v have gt: "to_epoch (generate_timeout v) = e" "to_round (generate_timeout v) = r"
    by (auto simp: vote_ok_def generate_timeout_def v_epoch_def v_round_def)
  have gu: "t = generate_timeout v" if "to_epoch t = e" "to_round t = r" for t
    using that gt by simp
  have vs: "vv_verify C vv (v_author v) (H_Timeout (generate_timeout v)) sig = Ok ()"
    using v Some by (simp add: vote_ok_def vote_verify_Ok_iff)
  have good: "tc_good C vv e r tc"
  proof (cases "pv_maybe_partial_tc pv")
    case None
    then show ?thesis using gt vs
      by (auto simp: tc_def tc_good_def tc_add_signature_def tc_new_def intro!: all_signed_or_insert all_signed_new)
  next
    case (Some u)
    with inv have u: "tc_good C vv e r u" by (simp add: pv_inv_def)
    then have "tc_timeout u = generate_timeout v" by (intro gu) (auto simp: tc_good_def)
    with u Some vs show ?thesis
      by (auto simp: tc_def tc_good_def tc_add_signature_def intro!: all_signed_or_insert)
  qed
  have inv': "pv_inv C vv e r V ?pv" using inv good by (simp add: pv_inv_def)
  have mem: "set (btree_keys (tc_signatures tc)) \<subseteq> members vv"
    using good by (auto simp: tc_good_def dest: all_signed_members)
  have rec: "pv_inv C vv e r V pv' \<and> reception_ok C vv e r out" if "add_two_chain_timeout vv v p ?pv = (out, pv')"
    using add_two_chain_timeout_inv [OF inv' v _ _ that] a new by simp
  have q: "tc_verify C vv tc = Ok ()" if "check_voting_power vv (btree_keys (tc_signatures tc)) = Ok ()"
    using good that by (simp add: tc_verify_def ok_simps all_signed_aggregated tc_good_def)
  from add have m: "match_voting_power (check_voting_power vv (btree_keys (tc_signatures tc))) ?pv
      (NewTimeoutCertificate tc) (\<lambda>_. add_two_chain_timeout vv v p ?pv) = (out, pv')"
    by (simp add: add_timeout_def Some tc_def Let_def)
  from match_known [OF mem m] inv' q good rec show ?thesis
    by (auto simp: tc_good_def tc_epoch_def tc_round_def)
qed

lemma insert_vote_inv:
  assumes inv: "pv_inv C vv e r V pv" and v: "vote_ok C vv e r v" and V: "v \<in> V" "collision_free C V"
    and ins: "pending_votes_insert_vote C vv v pv = (out, pv')"
  shows "pv_inv C vv e r V pv' \<and> reception_ok C vv e r out"
proof (cases "previous_vote C v pv")
  case (Some x)
  with inv ins show ?thesis
    by (auto simp: pending_votes_insert_vote_def previous_vote_def split: option.splits if_splits)
next
  case None
  obtain l pv1 where s: "store_vote C v pv = (l, pv1)" by (cases "store_vote C v pv")
  note good = store_vote_good [OF inv v V s] and i = store_vote_inv [OF inv v V s None]
  have sg: "all_signed C vv (\<lambda>sig. (H_LedgerInfo (lis_ledger_info l), sig)) (lis_signatures l)"
    using good(1) by (simp add: lis_good_def)
  have q: "qc_verify C vv (qc_new (v_vote_data v) l) = Ok ()"
    if "check_voting_power vv (btree_keys (lis_signatures l)) = Ok ()"
    using v good(2) vote_ok_round [OF v] aggregated_batch [OF all_signed_aggregated [OF sg that]]
    by (simp add: qc_verify_Ok_iff qc_new_def certified_block_def qc_ledger_info_def verify_signatures_def
        vote_ok_def vote_verify_Ok_iff v_round_def)
  have rest: "pv_inv C vv e r V pv' \<and> reception_ok C vv e r out" if "add_timeout vv v p pv1 = (out, pv')" for p
    using add_timeout_inv [OF i(1) v i(2) i(3) that] .
  from ins have m: "match_voting_power (check_voting_power vv (btree_keys (lis_signatures l))) pv1
      (NewQuorumCertificate (qc_new (v_vote_data v) l)) (\<lambda>p. add_timeout vv v p pv1) = (out, pv')"
    by (simp add: pending_votes_insert_vote_def None s)
  from match_known [OF all_signed_members [OF sg] m] q i(1) v rest show ?thesis
    by (auto simp: certified_block_def qc_new_def vote_ok_def v_epoch_def v_round_def)
qed

lemma insert_votes_inv:
  assumes "pv_inv C vv e r V pv" and "\<forall>v. v \<in> set vs \<longrightarrow> vote_ok C vv e r v" and "set vs \<subseteq> V" and "collision_free C V"
    and "insert_votes C vv vs pv = (outs, pv')"
  shows "pv_inv C vv e r V pv' \<and> (\<forall>out. out \<in> set outs \<longrightarrow> reception_ok C vv e r out)"
  using assms
proof (induction vs arbitrary: pv outs)
  case (Cons v vs)
  from Cons.prems(5) obtain out pv1 outs' where s: "pending_votes_insert_vote C vv v pv = (out, pv1)"
    "insert_votes C vv vs pv1 = (outs', pv')" "outs = out # outs'" by (auto split: prod.splits)
  have "pv_inv C vv e r V pv1 \<and> reception_ok C vv e r out"
    by (rule insert_vote_inv [OF Cons.prems(1) _ _ Cons.prems(4) s(1)]) (use Cons.prems in auto)
  with Cons.IH [OF _ _ _ Cons.prems(4) s(2)] Cons.prems s(3) show ?case by auto
qed simp

section \<open>Completeness\<close>

text \<open>
  Every stored vote is one of those inserted, and is counted under its ledger info. Every ledger info
  that has gathered a quorum has been announced with a certificate.
\<close>

definition pv_counted :: "crypto \<Rightarrow> vote set \<Rightarrow> pending_votes \<Rightarrow> bool" where
  "pv_counted C V pv \<longleftrightarrow> (\<forall>a w. pv_author_to_vote pv a = Some w \<longrightarrow> v_author w = a \<and> w \<in> V \<and>
     (\<exists>l. pv_li_digest_to_votes pv (hash_of C (H_LedgerInfo (v_ledger_info w))) = Some l \<and>
        a \<in> set (btree_keys (lis_signatures l))))"

definition pv_announced ::
    "validator_verifier \<Rightarrow> pending_votes \<Rightarrow> (vote_reception_result, anyhow) result set \<Rightarrow> bool" where
  "pv_announced vv pv outs \<longleftrightarrow> (\<forall>d l. pv_li_digest_to_votes pv d = Some l \<longrightarrow>
     check_voting_power vv (btree_keys (lis_signatures l)) = Ok () \<longrightarrow>
     (\<exists>vd. Ok (NewQuorumCertificate (qc_new vd l)) \<in> outs))"

lemma add_two_chain_timeout_frame:
  "pv_author_to_vote (snd (add_two_chain_timeout vv v p pv)) = pv_author_to_vote pv"
  "pv_li_digest_to_votes (snd (add_two_chain_timeout vv v p pv)) = pv_li_digest_to_votes pv"
  by (auto simp: add_two_chain_timeout_def match_voting_power_def Let_def
      split: option.splits result.splits verify_error.splits)

lemma add_timeout_frame:
  "pv_author_to_vote (snd (add_timeout vv v p pv)) = pv_author_to_vote pv"
  "pv_li_digest_to_votes (snd (add_timeout vv v p pv)) = pv_li_digest_to_votes pv"
  by (auto simp: add_timeout_def match_voting_power_def Let_def add_two_chain_timeout_frame
      split: option.splits result.splits verify_error.splits)

lemma insert_vote_frame:
  assumes "pending_votes_insert_vote C vv v pv = (out, pv')" and "previous_vote C v pv = None"
    and "store_vote C v pv = (l, pv1)"
  shows "pv_author_to_vote pv' = pv_author_to_vote pv1 \<and> pv_li_digest_to_votes pv' = pv_li_digest_to_votes pv1"
  using assms add_timeout_frame [of vv v _ pv1]
  by (auto simp: pending_votes_insert_vote_def match_voting_power_def split: result.splits verify_error.splits)
     (metis snd_conv)+

lemma store_vote_maps:
  assumes "store_vote C v pv = (l, pv')"
  shows "pv_author_to_vote pv' = (pv_author_to_vote pv)(v_author v \<mapsto> v)"
    and "pv_li_digest_to_votes pv' = (pv_li_digest_to_votes pv)(hash_of C (H_LedgerInfo (v_ledger_info v)) \<mapsto> l)"
  using assms by (auto simp: store_vote_def Let_def)

lemma insert_vote_authors:
  assumes "pending_votes_insert_vote C vv v pv = (out, pv')"
  shows "pv_author_to_vote pv' = pv_author_to_vote pv \<or>
    pv_author_to_vote pv' = (pv_author_to_vote pv)(v_author v \<mapsto> v)"
proof (cases "previous_vote C v pv")
  case None
  obtain l pv1 where s: "store_vote C v pv = (l, pv1)" by (cases "store_vote C v pv")
  from insert_vote_frame [OF assms None s] store_vote_maps(1) [OF s] show ?thesis by simp
qed (use assms in \<open>auto simp: pending_votes_insert_vote_def\<close>)

lemma store_vote_counted:
  assumes "pv_counted C V pv" and "v \<in> V" and "store_vote C v pv = (l, pv')"
  shows "pv_counted C V pv'"
  unfolding pv_counted_def
proof (intro allI impI)
  fix a w assume w: "pv_author_to_vote pv' a = Some w"
  let ?d = "\<lambda>w. hash_of C (H_LedgerInfo (v_ledger_info w))"
  have ks: "v_author v \<in> set (btree_keys (lis_signatures l))"
    and mono: "\<And>k. pv_li_digest_to_votes pv (?d v) = Some k \<Longrightarrow>
      set (btree_keys (lis_signatures k)) \<subseteq> set (btree_keys (lis_signatures l))"
    and pv': "pv_author_to_vote pv' = (pv_author_to_vote pv)(v_author v \<mapsto> v)"
      "pv_li_digest_to_votes pv' = (pv_li_digest_to_votes pv)(?d v \<mapsto> l)"
    using assms(3) by (auto simp: store_vote_def Let_def lis_add_signature_def set_keys_or_insert)
  show "v_author w = a \<and> w \<in> V \<and> (\<exists>l. pv_li_digest_to_votes pv' (?d w) = Some l \<and> a \<in> set (btree_keys (lis_signatures l)))"
  proof (cases "a = v_author v")
    case True
    with w ks assms(2) show ?thesis by (simp add: pv')
  next
    case False
    with w assms(1) obtain k where "v_author w = a" "w \<in> V" "pv_li_digest_to_votes pv (?d w) = Some k"
      "a \<in> set (btree_keys (lis_signatures k))" by (auto simp: pv' pv_counted_def)
    with mono show ?thesis by (auto simp: pv')
  qed
qed

lemma insert_vote_live:
  assumes c: "pv_counted C V pv" and v: "v \<in> V" and an: "pv_announced vv pv outs"
    and ins: "pending_votes_insert_vote C vv v pv = (out, pv')"
  shows "pv_counted C V pv' \<and> pv_announced vv pv' (insert out outs) \<and>
    insert (v_author v) (dom (pv_author_to_vote pv)) \<subseteq> dom (pv_author_to_vote pv')"
proof (cases "previous_vote C v pv")
  case (Some x)
  with ins have "pv' = pv" "v_author v \<in> dom (pv_author_to_vote pv)"
    by (auto simp: pending_votes_insert_vote_def previous_vote_def split: option.splits)
  with c an show ?thesis by (auto simp: pv_announced_def)
next
  case None
  obtain l pv1 where s: "store_vote C v pv = (l, pv1)" by (cases "store_vote C v pv")
  note f = insert_vote_frame [OF ins None s]
  have out: "out = Ok (NewQuorumCertificate (qc_new (v_vote_data v) l))"
    if "check_voting_power vv (btree_keys (lis_signatures l)) = Ok ()"
    using ins that by (simp add: pending_votes_insert_vote_def None s match_voting_power_def)
  have "pv_counted C V pv'" using store_vote_counted [OF c v s] f by (simp add: pv_counted_def)
  moreover have "pv_announced vv pv' (insert out outs)"
    unfolding pv_announced_def
  proof (intro allI impI)
    fix d k assume k: "pv_li_digest_to_votes pv' d = Some k" "check_voting_power vv (btree_keys (lis_signatures k)) = Ok ()"
    then have "k = l \<or> pv_li_digest_to_votes pv d = Some k"
      using f store_vote_maps(2) [OF s] by (auto split: if_splits)
    with an out k(2) show "\<exists>vd. Ok (NewQuorumCertificate (qc_new vd k)) \<in> insert out outs"
      unfolding pv_announced_def by blast
  qed
  moreover have "insert (v_author v) (dom (pv_author_to_vote pv)) \<subseteq> dom (pv_author_to_vote pv')"
    using f store_vote_maps(1) [OF s] by auto
  ultimately show ?thesis by simp
qed

lemma insert_votes_live:
  assumes "pv_counted C V pv" and "set vs \<subseteq> V" and "pv_announced vv pv acc" and "insert_votes C vv vs pv = (outs, pv')"
  shows "pv_counted C V pv' \<and> pv_announced vv pv' (set outs \<union> acc) \<and>
    v_author ` set vs \<union> dom (pv_author_to_vote pv) \<subseteq> dom (pv_author_to_vote pv')"
  using assms
proof (induction vs arbitrary: pv outs acc)
  case (Cons v vs)
  from Cons.prems(4) obtain out pv1 outs' where s: "pending_votes_insert_vote C vv v pv = (out, pv1)"
    "insert_votes C vv vs pv1 = (outs', pv')" "outs = out # outs'" by (auto split: prod.splits)
  from Cons.prems(2) have v: "v \<in> V" and vs: "set vs \<subseteq> V" by auto
  note live = insert_vote_live [OF Cons.prems(1) v Cons.prems(3) s(1)]
  have "pv_counted C V pv' \<and> pv_announced vv pv' (set outs' \<union> insert out acc) \<and>
      v_author ` set vs \<union> dom (pv_author_to_vote pv1) \<subseteq> dom (pv_author_to_vote pv')"
    by (rule Cons.IH [OF _ vs _ s(2)]) (use live in auto)
  then show ?case using live s(3) by (simp add: Un_insert_right) blast
qed simp

section \<open>Properties\<close>

text \<open>
  C4. Whatever votes for one epoch and round arrive, in whatever order and number, as long as each
  passes \<open>Vote::verify\<close>: a quorum certificate or timeout certificate that \<open>PendingVotes\<close> forms passes
  its own verification and is for that epoch and round; a 2-chain timeout certificate does so exactly
  if the round it reports is below that round. No insertion ends in an error or a panic.
\<close>

theorem pending_votes_certificates:
  assumes "\<forall>v. v \<in> set vs \<longrightarrow> vote_verify C vv v = Ok () \<and> v_epoch v = e \<and> v_round v = r"
    and "collision_free C (set vs)"
    and "out \<in> set (fst (insert_votes C vv vs pending_votes_new))"
  shows "reception_ok C vv e r out"
proof -
  obtain outs pv where run: "insert_votes C vv vs pending_votes_new = (outs, pv)"
    by (cases "insert_votes C vv vs pending_votes_new")
  from assms(1) have "\<forall>v. v \<in> set vs \<longrightarrow> vote_ok C vv e r v" by (simp add: vote_ok_def)
  from insert_votes_inv [OF pv_inv_new this subset_refl assms(2) run] assms(3) run show ?thesis by simp
qed

text \<open>
  C8. Votes are not lost: once validators that together reach the quorum have all voted for the same
  ledger info and for nothing else, one of the insertions has returned a quorum certificate for it,
  whatever else was inserted and in whatever order.
\<close>

theorem pending_votes_complete:
  assumes wf: "wf_verifier vv"
    and ok: "\<forall>v. v \<in> set vs \<longrightarrow> vote_verify C vv v = Ok () \<and> v_epoch v = e \<and> v_round v = r"
    and cf: "collision_free C (set vs)"
    and A: "A \<subseteq> v_author ` set vs" "\<forall>v. v \<in> set vs \<longrightarrow> v_author v \<in> A \<longrightarrow> v_ledger_info v = li"
    and quorum: "unat (quorum_voting_power vv) \<le> power_of vv A" "A \<noteq> {}"
  shows "\<exists>qc. Ok (NewQuorumCertificate qc) \<in> set (fst (insert_votes C vv vs pending_votes_new)) \<and> qc_ledger_info qc = li"
proof -
  obtain outs pv where run: "insert_votes C vv vs pending_votes_new = (outs, pv)"
    by (cases "insert_votes C vv vs pending_votes_new")
  have inv: "pv_inv C vv e r (set vs) pv"
    using insert_votes_inv [OF pv_inv_new _ subset_refl cf run] ok by (simp add: vote_ok_def)
  have "pv_counted C (set vs) pending_votes_new" "pv_announced vv pending_votes_new {}"
    by (simp_all add: pv_counted_def pv_announced_def pending_votes_new_def)
  from insert_votes_live [OF this(1) subset_refl this(2) run]
  have c: "pv_counted C (set vs) pv" and an: "pv_announced vv pv (set outs)"
    and dom: "v_author ` set vs \<subseteq> dom (pv_author_to_vote pv)" by auto
  let ?d = "hash_of C (H_LedgerInfo li)"
  have each: "\<exists>l. pv_li_digest_to_votes pv ?d = Some l \<and> a \<in> set (btree_keys (lis_signatures l))" if a: "a \<in> A" for a
  proof -
    from a A(1) dom obtain w where w: "pv_author_to_vote pv a = Some w" by (meson domD subsetD)
    with c have "v_author w = a" "w \<in> set vs" by (auto simp: pv_counted_def)
    with A(2) a have "v_ledger_info w = li" by simp
    with c w show ?thesis unfolding pv_counted_def by metis
  qed
  with quorum(2) obtain l where l: "pv_li_digest_to_votes pv ?d = Some l" by blast
  with each have sub: "A \<subseteq> set (btree_keys (lis_signatures l))" by auto
  from inv l have good: "lis_good C vv (set vs) ?d l" by (simp add: pv_inv_def)
  from quorum(2) A(1) obtain v where v: "v \<in> set vs" "v_author v \<in> A" by auto
  with A(2) have vli: "v_ledger_info v = li" by simp
  from good obtain w where w: "w \<in> set vs" "v_ledger_info w = lis_ledger_info l"
    "hash_of C (H_LedgerInfo (lis_ledger_info l)) = ?d" unfolding lis_good_def by blast
  from cf [unfolded collision_free_def, rule_format, OF w(1) v(1)] w vli have same: "lis_ledger_info l = li" by simp
  have "set (btree_keys (lis_signatures l)) \<subseteq> members vv"
    using good by (auto simp: lis_good_def dest: all_signed_members)
  then have "check_voting_power vv (btree_keys (lis_signatures l)) = Ok ()"
    using check_voting_power_iff [OF wf btree.keys_distinct [of "lis_signatures l"]] quorum(1) power_of_mono [OF sub, of vv] by auto
  with an l obtain vd where "Ok (NewQuorumCertificate (qc_new vd l)) \<in> set outs" by (auto simp: pv_announced_def)
  with run same show ?thesis
    by (intro exI [of _ "qc_new vd l"]) (simp add: qc_new_def qc_ledger_info_def)
qed

section \<open>Instances\<close>

text \<open>
  Epoch 2 of four validators, whose signatures are their keys. Two blocks of round 1 are proposed,
  both on the genesis. The validators of epoch 1 were the same, and certified a block in its round 5.
\<close>

definition ex_crypto :: crypto where
  "ex_crypto = \<lparr>
     hash_of = (\<lambda>h. case h of H_VoteData vd \<Rightarrow> bi_id (vd_proposed vd) | H_LedgerInfo li \<Rightarrow> li_consensus_data_hash li | _ \<Rightarrow> 0),
     verify_struct_signature = (\<lambda>pk msg sig. sig = ucast pk), batch_verify = (\<lambda>msg ks. list_all (\<lambda>(pk, sig). sig = ucast pk) ks),
     sign_message = (\<lambda>k msg. ucast k), public_key_of = (\<lambda>k. k), txn_node_hash = (\<lambda>l r. l)\<rparr>"

definition ex_vd :: "u64 \<Rightarrow> hash_value \<Rightarrow> round \<Rightarrow> vote_data" where
  "ex_vd e i r = vote_data_new (block_info_new e r i 0 0 0 None) (block_info_new e (if r = 0 then 0 else r - 1) 0 0 0 0 None)"

definition ex_lis :: "vote_data \<Rightarrow> account_address list \<Rightarrow> ledger_info_with_signatures" where
  "ex_lis vd as = lis_new (ledger_info_new (vd_parent vd) (hash_of ex_crypto (H_VoteData vd)))
     (fold (\<lambda>a. btree_insert a (ucast a + 10)) as btree_new)"

definition ex_qc :: "vote_data \<Rightarrow> account_address list \<Rightarrow> quorum_cert" where
  "ex_qc vd as = qc_new vd (ex_lis vd as)"

definition ex_vote :: "account_address \<Rightarrow> hash_value \<Rightarrow> (two_chain_timeout \<times> signature) option \<Rightarrow> vote" where
  "ex_vote a i t = (vote_new_with_signature (ex_vd 2 i 1) a (lis_ledger_info (ex_lis (ex_vd 2 i 1) [])) (ucast a + 10))
     \<lparr>v_two_chain_timeout := t\<rparr>"

definition ex_timeout :: "quorum_cert \<Rightarrow> account_address \<Rightarrow> (two_chain_timeout \<times> signature) option" where
  "ex_timeout qc a = Some (\<lparr>tct_epoch = 2, tct_round = 1, tct_quorum_cert = qc\<rparr>, ucast a + 10)"

definition ex_votes :: "vote list" where
  "ex_votes = [ex_vote 1 100 None, ex_vote 2 100 None, ex_vote 4 200 None, ex_vote 1 100 None, ex_vote 4 100 None, ex_vote 3 100 None]"

definition ex_genesis_qc :: quorum_cert where
  "ex_genesis_qc = ex_qc (ex_vd 2 0 0) []"

definition ex_stale_qc :: quorum_cert where
  "ex_stale_qc = ex_qc (ex_vd 1 50 5) [1, 2, 3]"

definition ex_timeout_votes :: "vote list" where
  "ex_timeout_votes = [ex_vote 1 100 (ex_timeout ex_genesis_qc 1), ex_vote 2 100 (ex_timeout ex_genesis_qc 2),
     ex_vote 4 200 (ex_timeout ex_stale_qc 4)]"

lemma ex_votes_verify:
  "list_all (\<lambda>v. vote_verify ex_crypto ex_verifier v = Ok () \<and> v_epoch v = 2 \<and> v_round v = 1) ex_votes"
  "list_all (\<lambda>v. vote_verify ex_crypto ex_verifier v = Ok () \<and> v_epoch v = 2 \<and> v_round v = 1) ex_timeout_votes"
  by code_simp+

lemma ex_votes_run:
  "fst (insert_votes ex_crypto ex_verifier ex_votes pending_votes_new) =
     [Ok (VoteAdded 1), Ok (VoteAdded 2), Ok (VoteAdded 1), Ok DuplicateVote, Ok EquivocateVote,
      Ok (NewQuorumCertificate (ex_qc (ex_vd 2 100 1) [1, 2, 3]))]"
  by code_simp
lemma ex_votes_collision_free: "collision_free ex_crypto (set ex_votes)"
  unfolding collision_free_def ex_votes_def
  by (auto simp: ex_vote_def ex_lis_def ex_vd_def lis_new_def vote_new_with_signature_def vote_data_new_def ledger_info_new_def
      block_info_new_def ex_crypto_def)

theorem pending_votes_certificates_witness:
  "qc_verify ex_crypto ex_verifier (ex_qc (ex_vd 2 100 1) [1, 2, 3]) = Ok ()"
proof -
  have "reception_ok ex_crypto ex_verifier 2 1 (Ok (NewQuorumCertificate (ex_qc (ex_vd 2 100 1) [1, 2, 3])))"
    by (rule pending_votes_certificates [of ex_votes])
      (use ex_votes_verify(1) ex_votes_collision_free in \<open>simp_all add: list_all_iff ex_votes_run\<close>)
  then show ?thesis by simp
qed

theorem pending_votes_complete_witness:
  "\<exists>qc. Ok (NewQuorumCertificate qc) \<in> set (fst (insert_votes ex_crypto ex_verifier
      [ex_vote 1 100 None, ex_vote 2 100 None, ex_vote 3 100 None] pending_votes_new)) \<and>
     qc_ledger_info qc = lis_ledger_info (ex_lis (ex_vd 2 100 1) [])"
proof (rule pending_votes_complete [of ex_verifier _ ex_crypto 2 1 "{1, 2, 3}", OF ex_verifier_wf])
  let ?vs = "[ex_vote 1 100 None, ex_vote 2 100 None, ex_vote 3 100 None]"
  show "\<forall>v. v \<in> set ?vs \<longrightarrow> vote_verify ex_crypto ex_verifier v = Ok () \<and> v_epoch v = 2 \<and> v_round v = 1"
    using ex_votes_verify(1) by (auto simp: ex_votes_def)
  show "collision_free ex_crypto (set ?vs)"
    using ex_votes_collision_free by (auto simp: collision_free_def ex_votes_def)
  show "unat (quorum_voting_power ex_verifier) \<le> power_of ex_verifier {1, 2, 3}"
    by (simp add: power_of_def ex_members ex_powers) (simp add: ex_verifier_def)
qed (auto simp: ex_vote_def vote_new_with_signature_def)



end
