(* ===== verification/Round_State.thy ===== *)
theory Round_State
  imports Pending_Votes
begin

text \<open>
  \<open>consensus/src/liveness/round_state.rs\<close>: the current round of a validator, which moves forward with
  the certificates it sees, the local timeout of the round and the votes received for it. The clock
  reading of a call is an argument, and the trait object \<open>RoundTimeInterval\<close> is a function in the
  state. Times are in nanoseconds. The timer task is what its abort handle refers to: the round it
  will report, and after which time.
\<close>

section \<open>The model\<close>

datatype new_round_reason = QCReady | Timeout

record new_round_event =
  nre_round :: round
  nre_reason :: new_round_reason
  nre_timeout :: nat

record timeout_task =
  task_after :: nat
  task_round :: round

record round_state =
  rs_time_interval :: "u64 \<Rightarrow> nat"
  rs_highest_committed_round :: round
  rs_current_round :: round
  rs_current_round_deadline :: nat
  rs_pending_votes :: pending_votes
  rs_vote_sent :: "vote option"
  rs_abort_handle :: "timeout_task option"

definition round_state_new :: "(u64 \<Rightarrow> nat) \<Rightarrow> nat \<Rightarrow> round_state" where
  "round_state_new time_interval now =
     \<lparr>rs_time_interval = time_interval, rs_highest_committed_round = 0, rs_current_round = 0,
      rs_current_round_deadline = now, rs_pending_votes = pending_votes_new, rs_vote_sent = None,
      rs_abort_handle = None\<rparr>"

text \<open>\<open>Duration\<close> counts seconds in 64 bits; its addition panics beyond that.\<close>

definition duration_add :: "nat \<Rightarrow> nat \<Rightarrow> (nat, anyhow) result" where
  "duration_add a b = (if int (a + b) < 18446744073709551616000000000 then Ok (a + b) else Panic)"

definition round_index_after_committed_round :: "round_state \<Rightarrow> u64" where
  "round_index_after_committed_round s =
     (if rs_highest_committed_round s = 0 then rs_current_round s - 1
      else if rs_current_round s < rs_highest_committed_round s + 3 then 0
      else rs_current_round s - rs_highest_committed_round s - 3)"

definition setup_deadline :: "nat \<Rightarrow> (round_state, nat, anyhow) stateful" where
  "setup_deadline now s =
     (let timeout = rs_time_interval s (round_index_after_committed_round s) in
      sbind (slift (duration_add now timeout)) (\<lambda>d s. (Ok timeout, s\<lparr>rs_current_round_deadline := d\<rparr>)) s)"

definition setup_timeout :: "nat \<Rightarrow> (round_state, nat, anyhow) stateful" where
  "setup_timeout now =
     sbind (setup_deadline now) (\<lambda>timeout s.
       (Ok timeout, s\<lparr>rs_abort_handle := Some \<lparr>task_after = timeout, task_round = rs_current_round s\<rparr>\<rparr>))"

definition process_local_timeout :: "nat \<Rightarrow> round \<Rightarrow> (round_state, bool, anyhow) stateful" where
  "process_local_timeout now r s =
     (if r \<noteq> rs_current_round s then (Ok False, s)
      else sbind (setup_timeout now) (\<lambda>_. slift (Ok True)) s)"

definition process_certificates :: "nat \<Rightarrow> sync_info \<Rightarrow> (round_state, new_round_event option, anyhow) stateful" where
  "process_certificates now si s =
     (let s1 = (if rs_highest_committed_round s < highest_ordered_round si
                then s\<lparr>rs_highest_committed_round := highest_ordered_round si\<rparr> else s);
          new_round = highest_round si + 1
      in if rs_current_round s1 < new_round
         then sbind (setup_timeout now) (\<lambda>timeout s.
                (Ok (Some \<lparr>nre_round = rs_current_round s,
                           nre_reason = (if highest_certified_round si + 1 = new_round then QCReady else Timeout),
                           nre_timeout = timeout\<rparr>), s))
                (s1\<lparr>rs_current_round := new_round, rs_pending_votes := pending_votes_new, rs_vote_sent := None\<rparr>)
         else (Ok None, s1))"

definition round_state_insert_vote ::
    "crypto \<Rightarrow> validator_verifier \<Rightarrow> vote \<Rightarrow> (round_state, vote_reception_result, anyhow) stateful" where
  "round_state_insert_vote C vv v s =
     (if v_round v = rs_current_round s
      then (let (r, pv) = pending_votes_insert_vote C vv v (rs_pending_votes s) in (r, s\<lparr>rs_pending_votes := pv\<rparr>))
      else (Ok (UnexpectedRound (v_round v) (rs_current_round s)), s))"

definition record_vote :: "vote \<Rightarrow> round_state \<Rightarrow> round_state" where
  "record_vote v s = (if v_round v = rs_current_round s then s\<lparr>rs_vote_sent := Some v\<rparr> else s)"

text \<open>The calls a round state receives, and a sequence of them, which a panic ends.\<close>

datatype round_state_call =
    RS_process_certificates nat sync_info
  | RS_process_local_timeout nat round
  | RS_insert_vote vote
  | RS_record_vote vote

datatype round_state_answer =
    RA_event "new_round_event option"
  | RA_timeout bool
  | RA_vote vote_reception_result
  | RA_unit

fun round_state_call_run ::
    "crypto \<Rightarrow> validator_verifier \<Rightarrow> round_state_call \<Rightarrow> (round_state, round_state_answer, anyhow) stateful" where
  "round_state_call_run C vv (RS_process_certificates now si) =
     sbind (process_certificates now si) (\<lambda>x. slift (Ok (RA_event x)))"
| "round_state_call_run C vv (RS_process_local_timeout now r) =
     sbind (process_local_timeout now r) (\<lambda>x. slift (Ok (RA_timeout x)))"
| "round_state_call_run C vv (RS_insert_vote v) =
     sbind (round_state_insert_vote C vv v) (\<lambda>x. slift (Ok (RA_vote x)))"
| "round_state_call_run C vv (RS_record_vote v) = (\<lambda>s. (Ok RA_unit, record_vote v s))"

fun round_state_run ::
    "crypto \<Rightarrow> validator_verifier \<Rightarrow> round_state_call list \<Rightarrow> round_state \<Rightarrow> round_state_answer list \<times> round_state" where
  "round_state_run C vv [] s = ([], s)"
| "round_state_run C vv (c # cs) s =
     (case round_state_call_run C vv c s of
        (Ok a, s1) \<Rightarrow> (let (as, s2) = round_state_run C vv cs s1 in (a # as, s2))
      | (_, s1) \<Rightarrow> ([], s1))"

section \<open>Single calls\<close>

lemma setup_timeout_run:
  "setup_timeout now s = (r, t) \<longleftrightarrow>
     (let timeout = rs_time_interval s (round_index_after_committed_round s) in
      (\<exists>d. duration_add now timeout = Ok d \<and> r = Ok timeout \<and> t = s\<lparr>rs_current_round_deadline := d,
          rs_abort_handle := Some \<lparr>task_after = timeout, task_round = rs_current_round s\<rparr>\<rparr>) \<or>
      (duration_add now timeout = Panic \<and> r = Panic \<and> t = s))"
  by (auto simp: setup_timeout_def setup_deadline_def sbind_def slift_def duration_add_def Let_def split: if_splits)

text \<open>What holds between calls: everything kept for a round belongs to the current one.\<close>

definition round_state_inv :: "round_state \<Rightarrow> bool" where
  "round_state_inv s \<longleftrightarrow>
     (\<forall>a w. pv_author_to_vote (rs_pending_votes s) a = Some w \<longrightarrow> v_author w = a \<and> v_round w = rs_current_round s) \<and>
     (\<forall>v. rs_vote_sent s = Some v \<longrightarrow> v_round v = rs_current_round s) \<and>
     (\<forall>t. rs_abort_handle s = Some t \<longrightarrow> task_round t = rs_current_round s)"

lemma process_certificates_Ok:
  assumes "process_certificates now si s = (r, t)"
  shows "rs_current_round t = max (rs_current_round s) (highest_round si + 1)"
    and "rs_current_round s < highest_round si + 1 \<Longrightarrow> rs_pending_votes t = pending_votes_new \<and> rs_vote_sent t = None"
    and "rs_current_round s < highest_round si + 1 \<Longrightarrow> r = Ok ev \<Longrightarrow>
      (\<exists>e. ev = Some e \<and> nre_round e = rs_current_round t \<and>
        rs_abort_handle t = Some \<lparr>task_after = nre_timeout e, task_round = rs_current_round t\<rparr>)"
    and "\<not> rs_current_round s < highest_round si + 1 \<Longrightarrow> r = Ok None \<and> rs_pending_votes t = rs_pending_votes s \<and>
      rs_vote_sent t = rs_vote_sent s \<and> rs_abort_handle t = rs_abort_handle s"
  using assms
  by (auto simp: process_certificates_def Let_def sbind_eq_iff setup_timeout_run split: if_splits result.splits)

lemma process_local_timeout_Ok:
  assumes "process_local_timeout now r0 s = (r, t)"
  shows "rs_current_round t = rs_current_round s" and "rs_pending_votes t = rs_pending_votes s"
    and "rs_vote_sent t = rs_vote_sent s"
    and "r = Ok b \<Longrightarrow> b = (r0 = rs_current_round s) \<and> (rs_abort_handle t = rs_abort_handle s \<or>
      (\<exists>d. rs_abort_handle t = Some \<lparr>task_after = d, task_round = rs_current_round s\<rparr>))"
  using assms
  by (auto simp: process_local_timeout_def Let_def sbind_eq_iff slift_iff setup_timeout_run split: if_splits result.splits)

lemma round_state_insert_vote_run:
  assumes "round_state_insert_vote C vv v s = (r, t)"
  shows "rs_current_round t = rs_current_round s" and "rs_vote_sent t = rs_vote_sent s"
    and "rs_abort_handle t = rs_abort_handle s"
    and "(v_round v = rs_current_round s \<and> pending_votes_insert_vote C vv v (rs_pending_votes s) = (r, rs_pending_votes t)) \<or>
      (v_round v \<noteq> rs_current_round s \<and> r = Ok (UnexpectedRound (v_round v) (rs_current_round s)) \<and> t = s)"
  using assms by (auto simp: round_state_insert_vote_def split: if_splits prod.splits)

fun call_round :: "round_state_call \<Rightarrow> round list" where
  "call_round (RS_process_certificates now si) = [highest_round si + 1]"
| "call_round _ = []"

fun event_round :: "round_state_answer \<Rightarrow> round list" where
  "event_round (RA_event (Some e)) = [nre_round e]"
| "event_round _ = []"

lemma call_run_round:
  assumes "round_state_call_run C vv c s = (r, t)"
  shows "rs_current_round t = foldl max (rs_current_round s) (call_round c)"
    and "r = Ok a \<Longrightarrow> event_round a = [] \<and> rs_current_round t = rs_current_round s \<or>
      event_round a = [rs_current_round t] \<and> rs_current_round s < rs_current_round t"
proof -
  show "rs_current_round t = foldl max (rs_current_round s) (call_round c)"
    using assms by (cases c) (auto simp: sbind_eq_iff slift_iff record_vote_def
        dest: process_certificates_Ok(1) process_local_timeout_Ok(1) round_state_insert_vote_run(1))
  assume r: "r = Ok a"
  show "event_round a = [] \<and> rs_current_round t = rs_current_round s \<or>
      event_round a = [rs_current_round t] \<and> rs_current_round s < rs_current_round t"
  proof (cases c)
    case (RS_process_certificates now si)
    with assms r obtain ev where ev: "process_certificates now si s = (Ok ev, t)" "a = RA_event ev"
      by (auto simp: sbind_Ok_iff slift_iff)
    show ?thesis
    proof (cases "rs_current_round s < highest_round si + 1")
      case True
      with process_certificates_Ok(1,3) [OF ev(1)] ev(2) show ?thesis by (auto simp: max_def)
    next
      case False
      with process_certificates_Ok(1,4) [OF ev(1)] ev(2) show ?thesis by (auto simp: max_def)
    qed
  qed (use assms r in \<open>auto simp: sbind_Ok_iff slift_iff record_vote_def
      dest: process_local_timeout_Ok(1) round_state_insert_vote_run(1)\<close>)
qed

text \<open>The answers of a run, without the current round's history.\<close>

lemma round_state_run_Cons:
  assumes "round_state_run C vv (c # cs) s = (as, t)"
  obtains (ok) a s1 as' where "round_state_call_run C vv c s = (Ok a, s1)" "round_state_run C vv cs s1 = (as', t)" "as = a # as'"
  | (panic) r where "round_state_call_run C vv c s = (r, t)" "as = []"
  using assms by (auto split: prod.splits result.splits)

lemma round_state_run_rounds:
  assumes "round_state_run C vv cs s = (as, t)"
  shows "rs_current_round s \<le> rs_current_round t"
    and "sorted_wrt (<) (rs_current_round s # concat (map event_round as))"
    and "list_all (\<lambda>r. r \<le> rs_current_round t) (concat (map event_round as))"
    and "length as = length cs \<Longrightarrow> rs_current_round t = foldl max (rs_current_round s) (concat (map call_round cs))"
  using assms
proof (induction cs arbitrary: s as)
  case (Cons c cs)
  { case 1 show ?case
    proof (rule round_state_run_Cons [OF 1])
      fix a s1 as' assume h: "round_state_call_run C vv c s = (Ok a, s1)" "round_state_run C vv cs s1 = (as', t)"
      show ?thesis using call_run_round(2) [OF h(1) refl] Cons.IH(1) [OF h(2)] by auto
    next
      fix r assume h: "round_state_call_run C vv c s = (r, t)"
      show ?thesis using call_run_round(1) [OF h] foldl_max_bounds by metis
    qed }
  { case 2 show ?case
    proof (rule round_state_run_Cons [OF 2])
      fix a s1 as' assume h: "round_state_call_run C vv c s = (Ok a, s1)" "round_state_run C vv cs s1 = (as', t)" "as = a # as'"
      show ?thesis using call_run_round(2) [OF h(1) refl] Cons.IH(2) [OF h(2)] h(3)
        by (auto intro: less_trans)
    qed auto }
  { case 3 show ?case
    proof (rule round_state_run_Cons [OF 3])
      fix a s1 as' assume h: "round_state_call_run C vv c s = (Ok a, s1)" "round_state_run C vv cs s1 = (as', t)" "as = a # as'"
      show ?thesis using call_run_round(2) [OF h(1) refl] Cons.IH(1,3) [OF h(2)] h(3) by auto
    qed auto }
  { case 4 show ?case
    proof (rule round_state_run_Cons [OF 4(2)])
      fix a s1 as' assume h: "round_state_call_run C vv c s = (Ok a, s1)" "round_state_run C vv cs s1 = (as', t)" "as = a # as'"
      show ?thesis using call_run_round(1) [OF h(1)] Cons.IH(4) [OF _ h(2)] h(3) 4(1) by simp
    qed (use 4(1) in auto) }
qed simp_all

lemma call_run_inv:
  assumes "round_state_inv s" and "round_state_call_run C vv c s = (Ok a, t)"
  shows "round_state_inv t"
proof (cases c)
  case (RS_process_certificates now si)
  with assms(2) obtain ev where ev: "process_certificates now si s = (Ok ev, t)" by (auto simp: sbind_Ok_iff slift_iff)
  show ?thesis
    using assms(1) process_certificates_Ok [OF ev]
    by (cases "rs_current_round s < highest_round si + 1") (auto simp: round_state_inv_def pending_votes_new_def max_def)
next
  case (RS_process_local_timeout now r)
  with assms(2) obtain b where b: "process_local_timeout now r s = (Ok b, t)" by (auto simp: sbind_Ok_iff slift_iff)
  show ?thesis using assms(1) process_local_timeout_Ok [OF b] by (auto simp: round_state_inv_def)
next
  case (RS_insert_vote v)
  with assms(2) obtain r where r: "round_state_insert_vote C vv v s = (Ok r, t)" by (auto simp: sbind_Ok_iff slift_iff)
  note same = round_state_insert_vote_run(1-3) [OF r]
  from round_state_insert_vote_run(4) [OF r] show ?thesis
  proof
    assume h: "v_round v = rs_current_round s \<and> pending_votes_insert_vote C vv v (rs_pending_votes s) = (Ok r, rs_pending_votes t)"
    then have "pv_author_to_vote (rs_pending_votes t) = pv_author_to_vote (rs_pending_votes s) \<or>
        pv_author_to_vote (rs_pending_votes t) = (pv_author_to_vote (rs_pending_votes s))(v_author v \<mapsto> v)"
      using insert_vote_authors by blast
    then show ?thesis
      by (rule disjE) (use h same assms(1) in \<open>simp_all add: round_state_inv_def\<close>)
  qed (use assms(1) in simp)
next
  case (RS_record_vote v)
  with assms show ?thesis
    by (cases "v_round v = rs_current_round s") (auto simp: record_vote_def round_state_inv_def)
qed

lemma round_state_run_inv:
  assumes "round_state_inv s" and "round_state_run C vv cs s = (as, t)" and "length as = length cs"
  shows "round_state_inv t"
  using assms
proof (induction cs arbitrary: s as)
  case (Cons c cs)
  show ?case
  proof (rule round_state_run_Cons [OF Cons.prems(2)])
    fix a s1 as' assume h: "round_state_call_run C vv c s = (Ok a, s1)" "round_state_run C vv cs s1 = (as', t)" "as = a # as'"
    show ?thesis using Cons.IH [OF call_run_inv [OF Cons.prems(1) h(1)] h(2)] h(3) Cons.prems(3) by simp
  qed (use Cons.prems(3) in simp)
qed simp

section \<open>The votes of a round\<close>

definition round_state_votes_ok :: "crypto \<Rightarrow> validator_verifier \<Rightarrow> u64 \<Rightarrow> vote set \<Rightarrow> round_state \<Rightarrow> bool" where
  "round_state_votes_ok C vv e V s \<longleftrightarrow> pv_inv C vv e (rs_current_round s) V (rs_pending_votes s)"

fun call_votes :: "round_state_call \<Rightarrow> vote list" where
  "call_votes (RS_insert_vote v) = [v]"
| "call_votes _ = []"

fun answer_ok :: "crypto \<Rightarrow> validator_verifier \<Rightarrow> u64 \<Rightarrow> round_state_call \<times> round_state_answer \<Rightarrow> bool" where
  "answer_ok C vv e (RS_insert_vote v, RA_vote (UnexpectedRound r c)) \<longleftrightarrow> r = v_round v \<and> r \<noteq> c"
| "answer_ok C vv e (RS_insert_vote v, RA_vote out) \<longleftrightarrow> reception_ok C vv e (v_round v) (Ok out)"
| "answer_ok C vv e _ \<longleftrightarrow> True"

lemma answer_ok_reception:
  "reception_ok C vv e (v_round v) (Ok out) \<Longrightarrow> answer_ok C vv e (RS_insert_vote v, RA_vote out)"
  by (cases out) auto

lemma call_run_votes:
  assumes inv: "round_state_votes_ok C vv e V s" and run: "round_state_call_run C vv c s = (Ok a, t)"
    and votes: "\<forall>v. v \<in> set (call_votes c) \<longrightarrow> v \<in> V \<and> vote_verify C vv v = Ok () \<and> v_epoch v = e"
    and cf: "collision_free C V"
  shows "round_state_votes_ok C vv e V t \<and> answer_ok C vv e (c, a)"
proof (cases c)
  case (RS_process_certificates now si)
  with run obtain ev where ev: "process_certificates now si s = (Ok ev, t)" "a = RA_event ev"
    by (auto simp: sbind_Ok_iff slift_iff)
  show ?thesis
    using inv process_certificates_Ok [OF ev(1)] pv_inv_new RS_process_certificates
    by (cases "rs_current_round s < highest_round si + 1") (auto simp: round_state_votes_ok_def max_def)
next
  case (RS_process_local_timeout now r)
  with run obtain b where b: "process_local_timeout now r s = (Ok b, t)" by (auto simp: sbind_Ok_iff slift_iff)
  show ?thesis using inv process_local_timeout_Ok [OF b] RS_process_local_timeout by (simp add: round_state_votes_ok_def)
next
  case (RS_insert_vote v)
  with run obtain r where r: "round_state_insert_vote C vv v s = (Ok r, t)" "a = RA_vote r"
    by (auto simp: sbind_Ok_iff slift_iff)
  from votes RS_insert_vote have v: "v \<in> V" "vote_verify C vv v = Ok ()" "v_epoch v = e" by auto
  from round_state_insert_vote_run(4) [OF r(1)] show ?thesis
  proof
    assume h: "v_round v = rs_current_round s \<and> pending_votes_insert_vote C vv v (rs_pending_votes s) = (Ok r, rs_pending_votes t)"
    then have "pv_inv C vv e (v_round v) V (rs_pending_votes t) \<and> reception_ok C vv e (v_round v) (Ok r)"
      using inv v by (intro insert_vote_inv [OF _ _ v(1) cf]) (auto simp: round_state_votes_ok_def vote_ok_def)
    with h round_state_insert_vote_run(1) [OF r(1)] r(2) RS_insert_vote show ?thesis
      by (simp add: round_state_votes_ok_def answer_ok_reception)
  qed (use inv r(2) RS_insert_vote in auto)
next
  case (RS_record_vote v)
  with inv run show ?thesis by (auto simp: record_vote_def round_state_votes_ok_def)
qed

lemma round_state_run_votes:
  assumes "round_state_votes_ok C vv e V s" and "round_state_run C vv cs s = (as, t)"
    and "\<forall>v. v \<in> set (concat (map call_votes cs)) \<longrightarrow> v \<in> V \<and> vote_verify C vv v = Ok () \<and> v_epoch v = e"
    and "collision_free C V"
  shows "list_all (answer_ok C vv e) (zip cs as)"
  using assms
proof (induction cs arbitrary: s as)
  case (Cons c cs)
  show ?case
  proof (rule round_state_run_Cons [OF Cons.prems(2)])
    fix a s1 as' assume h: "round_state_call_run C vv c s = (Ok a, s1)" "round_state_run C vv cs s1 = (as', t)" "as = a # as'"
    have "round_state_votes_ok C vv e V s1 \<and> answer_ok C vv e (c, a)"
      by (rule call_run_votes [OF Cons.prems(1) h(1) _ Cons.prems(4)]) (use Cons.prems(3) in auto)
    with Cons.IH [OF _ h(2) _ Cons.prems(4)] Cons.prems(3) h(3) show ?thesis by auto
  qed simp
qed simp

section \<open>Properties\<close>

text \<open>
  C15. The round of a validator only moves forward: whatever calls a round state receives, the rounds of
  the events it answers with are strictly increasing and above the round it started in, as
  \<open>NewRoundEvent\<close> promises; and if no call panics, the current round is the highest of the round it
  started in and the rounds that follow the certificates of the calls.
\<close>

theorem round_state_events_increase:
  assumes "round_state_run C vv cs s = (as, t)"
  shows "sorted_wrt (<) (rs_current_round s # concat (map event_round as)) \<and>
    list_all (\<lambda>r. r \<le> rs_current_round t) (concat (map event_round as)) \<and>
    (length as = length cs \<longrightarrow> rs_current_round t = foldl max (rs_current_round s) (concat (map call_round cs)))"
  using round_state_run_rounds [OF assms] by auto

text \<open>
  C17. A round starts afresh: after any calls on a new round state that do not panic, the stored votes,
  at most one per author, the vote sent and the running timer all belong to the current round.
\<close>

theorem round_state_one_round:
  assumes "round_state_run C vv cs (round_state_new f now) = (as, t)" and "length as = length cs"
  shows "round_state_inv t"
  by (rule round_state_run_inv [OF _ assms]) (simp add: round_state_inv_def round_state_new_def pending_votes_new_def)


section \<open>Instances\<close>

text \<open>Round 1 starts from the genesis, gathers a certificate, and round 2 starts from that.\<close>

definition ex_sync_info :: "quorum_cert \<Rightarrow> sync_info" where
  "ex_sync_info qc = \<lparr>si_highest_quorum_cert = qc, si_highest_ordered_cert = None, si_highest_ledger_info = None,
     si_highest_timeout_cert = None, si_highest_2chain_timeout_cert = None\<rparr>"

definition ex_calls :: "round_state_call list" where
  "ex_calls = [RS_process_certificates 10 (ex_sync_info ex_genesis_qc), RS_insert_vote (ex_vote 1 100 None),
     RS_insert_vote (ex_vote 2 100 None), RS_process_local_timeout 20 1, RS_insert_vote (ex_vote 3 100 None),
     RS_process_certificates 30 (ex_sync_info (ex_qc (ex_vd 2 100 1) [1, 2, 3])), RS_insert_vote (ex_vote 4 100 None)]"

definition ex_interval :: "u64 \<Rightarrow> nat" where
  "ex_interval i = (if i = 0 then 5 else 9)"

lemma ex_calls_answers:
  "fst (round_state_run ex_crypto ex_verifier ex_calls (round_state_new ex_interval 0)) =
     [RA_event (Some \<lparr>nre_round = 1, nre_reason = QCReady, nre_timeout = 5\<rparr>), RA_vote (VoteAdded 1), RA_vote (VoteAdded 2),
      RA_timeout True, RA_vote (NewQuorumCertificate (ex_qc (ex_vd 2 100 1) [1, 2, 3])),
      RA_event (Some \<lparr>nre_round = 2, nre_reason = QCReady, nre_timeout = 9\<rparr>), RA_vote (UnexpectedRound 1 2)]"
  by code_simp

lemma ex_calls_run:
  obtains as t where "round_state_run ex_crypto ex_verifier ex_calls (round_state_new ex_interval 0) = (as, t)"
    and "length as = length ex_calls"
proof -
  have len: "length ex_calls = 7" by (simp add: ex_calls_def)
  show thesis by (rule that [OF surjective_pairing]) (simp only: ex_calls_answers len, simp)
qed

lemma ex_calls_rounds: "concat (map call_round ex_calls) = [1, 2]"
  by code_simp

theorem round_state_events_increase_witness:
  "rs_current_round (snd (round_state_run ex_crypto ex_verifier ex_calls (round_state_new ex_interval 0))) = 2"
proof (rule ex_calls_run)
  fix as t
  assume run: "round_state_run ex_crypto ex_verifier ex_calls (round_state_new ex_interval 0) = (as, t)"
    and len: "length as = length ex_calls"
  from round_state_events_increase [OF run] len have "rs_current_round t = 2"
    by (simp add: ex_calls_rounds) (simp add: round_state_new_def max_def)
  then show ?thesis unfolding run by simp
qed

theorem round_state_one_round_witness:
  "round_state_inv (snd (round_state_run ex_crypto ex_verifier ex_calls (round_state_new ex_interval 0)))"
proof (rule ex_calls_run)
  fix as t
  assume run: "round_state_run ex_crypto ex_verifier ex_calls (round_state_new ex_interval 0) = (as, t)"
    and len: "length as = length ex_calls"
  show ?thesis unfolding run using round_state_one_round [OF run len] by simp
qed


end
