(* ===== verification/Proposer_Election.thy ===== *)
theory Proposer_Election
  imports Consensus_Types
begin

text \<open>
  \<open>consensus/src/liveness\<close>: who may propose in a round. \<open>proposer_election.rs\<close> is the trait with its
  default methods, \<open>rotating_proposer_election.rs\<close> and \<open>round_proposer_election.rs\<close> are fixed schedules,
  \<open>leader_reputation.rs\<close> draws the leader of a round with weights from the committed history. SHA-3 and
  the event store are parameters.
\<close>

section \<open>The trait\<close>

text \<open>Indexing a vector, which panics out of bounds.\<close>

definition vec_index :: "'a list \<Rightarrow> nat \<Rightarrow> ('a, anyhow) result" where
  "vec_index xs i = (if i < length xs then Ok (xs ! i) else Panic)"

definition is_valid_proposer :: "(round \<Rightarrow> (author, anyhow) result) \<Rightarrow> author \<Rightarrow> round \<Rightarrow> (bool, anyhow) result" where
  "is_valid_proposer get_valid_proposer a r = bind_result (get_valid_proposer r) (\<lambda>p. Ok (p = a))"

definition is_valid_proposal :: "(round \<Rightarrow> (author, anyhow) result) \<Rightarrow> block \<Rightarrow> (bool, anyhow) result" where
  "is_valid_proposal get_valid_proposer b =
     (case b_author b of None \<Rightarrow> Ok False | Some a \<Rightarrow> is_valid_proposer get_valid_proposer a (b_round b))"

section \<open>Fixed schedules\<close>

record rotating_proposer =
  rp_proposers :: "author list"
  rp_contiguous_rounds :: "32 word"

definition rotating_proposer_new :: "author list \<Rightarrow> 32 word \<Rightarrow> rotating_proposer" where
  "rotating_proposer_new ps c = \<lparr>rp_proposers = ps, rp_contiguous_rounds = c\<rparr>"

definition rotating_get_valid_proposer :: "rotating_proposer \<Rightarrow> round \<Rightarrow> (author, anyhow) result" where
  "rotating_get_valid_proposer rp r =
     (let c = ucast (rp_contiguous_rounds rp) :: u64; n = of_nat (length (rp_proposers rp)) :: u64
      in if c = 0 \<or> n = 0 then Panic else vec_index (rp_proposers rp) (unat (r div c mod n)))"

definition choose_leader :: "author list \<Rightarrow> (author, anyhow) result" where
  "choose_leader peers = (case peers of [] \<Rightarrow> Panic | p # ps \<Rightarrow> Ok (fold min ps p))"

record round_proposer =
  rop_proposers :: "round \<Rightarrow> author option"
  rop_default_proposer :: author

definition round_get_valid_proposer :: "round_proposer \<Rightarrow> round \<Rightarrow> (author, anyhow) result" where
  "round_get_valid_proposer p r =
     (case rop_proposers p r of None \<Rightarrow> Ok (rop_default_proposer p) | Some a \<Rightarrow> Ok a)"

section \<open>Leader reputation\<close>

record new_block_event =
  nbe_round :: round
  nbe_proposer :: author
  nbe_votes :: "author list"
  nbe_timestamp :: u64

text \<open>What the backend asks of the database: the latest events with their versions, newest first, each with the
  result of decoding it, and the latest version.\<close>

record db_reader =
  db_get_events :: "u64 \<Rightarrow> ((version \<times> (new_block_event, anyhow) result) list, anyhow) result"
  db_get_latest_version :: "(version, anyhow) result"

record diem_db_backend =
  dbb_window_size :: u64
  dbb_window :: "(version \<times> new_block_event) list"

fun refresh_loop ::
    "round \<Rightarrow> u64 \<Rightarrow> (version \<times> new_block_event) list \<Rightarrow> (version \<times> (new_block_event, anyhow) result) list
     \<Rightarrow> ((version \<times> new_block_event) list, anyhow) result" where
  "refresh_loop target n acc [] = Ok acc"
| "refresh_loop target n acc ((v, decoded) # es) =
     bind_result decoded (\<lambda>e.
       refresh_loop target n (if nbe_round e \<le> target \<and> length acc < unat n then acc @ [(v, e)] else acc) es)"

definition refresh_window :: "db_reader \<Rightarrow> round \<Rightarrow> (diem_db_backend, unit, anyhow) stateful" where
  "refresh_window db target s =
     sbind (slift (db_get_events db (dbb_window_size s + 10))) (\<lambda>events.
     sbind (slift (refresh_loop target (dbb_window_size s) [] events)) (\<lambda>window s.
       (Ok (), s\<lparr>dbb_window := window\<rparr>))) s"

definition get_block_metadata :: "db_reader \<Rightarrow> round \<Rightarrow> diem_db_backend \<Rightarrow> (new_block_event list, anyhow) result \<times> diem_db_backend" where
  "get_block_metadata db target s =
     (let (known_version, known_round) = (case dbb_window s of [] \<Rightarrow> (0, 0) | (v, e) # _ \<Rightarrow> (v, nbe_round e));
          latest = (case db_get_latest_version db of Ok v \<Rightarrow> v | _ \<Rightarrow> 0)
      in if known_round = target \<or> known_version = latest then (Ok (map snd (dbb_window s)), s)
         else (case refresh_window db target s of
                 (Ok _, t) \<Rightarrow> (Ok (map snd (dbb_window t)), t)
               | (Err _, t) \<Rightarrow> (Ok [], t)
               | (Panic, t) \<Rightarrow> (Panic, t)))"

record active_inactive_heuristic =
  aih_author :: author
  aih_active_weight :: u64
  aih_inactive_weight :: u64

definition get_weights :: "active_inactive_heuristic \<Rightarrow> author list \<Rightarrow> new_block_event list \<Rightarrow> u64 list" where
  "get_weights h candidates history =
     (let active = fold (\<lambda>meta s. fold insert (nbe_votes meta) (insert (nbe_proposer meta) s)) history {}
      in map (\<lambda>a. if a \<in> active then aih_active_weight h else aih_inactive_weight h) candidates)"

record leader_reputation =
  lr_proposers :: "author list"
  lr_backend :: diem_db_backend
  lr_heuristic :: active_inactive_heuristic
  lr_already_proposed :: "round \<times> (author \<Rightarrow> hash_value option)"
  lr_exclude_round :: u64

definition leader_reputation_new ::
    "author list \<Rightarrow> diem_db_backend \<Rightarrow> active_inactive_heuristic \<Rightarrow> u64 \<Rightarrow> leader_reputation" where
  "leader_reputation_new ps backend heuristic ex =
     \<lparr>lr_proposers = ps, lr_backend = backend, lr_heuristic = heuristic, lr_already_proposed = (0, Map.empty),
      lr_exclude_round = ex\<rparr>"

text \<open>The bytes of a 64-bit word in little-endian order, and back.\<close>

definition to_le_bytes :: "u64 \<Rightarrow> 8 word list" where
  "to_le_bytes w = map (\<lambda>i. ucast (drop_bit (8 * i) w)) [0..<8]"

definition from_le_bytes :: "8 word list \<Rightarrow> u64" where
  "from_le_bytes bs = foldr (\<lambda>b acc. push_bit 8 acc + ucast b) bs 0"

definition next_state :: "(8 word list \<Rightarrow> 8 word list) \<Rightarrow> 8 word list \<Rightarrow> (u64, anyhow) result \<times> 8 word list" where
  "next_state sha3_256 s =
     (let t = sha3_256 s in (if length t < 8 then Panic else Ok (from_le_bytes (take 8 t)), t))"

text \<open>Each weight is replaced by the sum of the weights up to it; the sums wrap.\<close>

fun running_weights :: "u64 \<Rightarrow> u64 list \<Rightarrow> u64 list \<times> u64" where
  "running_weights acc [] = ([], acc)"
| "running_weights acc (w # ws) = (let (xs, t) = running_weights (acc + w) ws in ((acc + w) # xs, t))"

text \<open>\<open>slice::binary_search_by\<close> of the standard library; \<open>Err\<close> holds the insertion index.\<close>

datatype ordering = Less | Equal | Greater

function binary_search_by :: "('a \<Rightarrow> ordering) \<Rightarrow> 'a list \<Rightarrow> nat \<Rightarrow> nat \<Rightarrow> (nat, nat) result" where
  "binary_search_by f xs left right =
     (if left < right
      then (let mid = left + (right - left) div 2 in
            case f (xs ! mid) of
              Less \<Rightarrow> binary_search_by f xs (mid + 1) right
            | Greater \<Rightarrow> binary_search_by f xs left mid
            | Equal \<Rightarrow> Ok mid)
      else Err left)"
  by pat_completeness auto
termination
  by (relation "measure (\<lambda>(f, xs, left, right). right - left)") auto

declare binary_search_by.simps [simp del]

definition chosen_index :: "u64 list \<Rightarrow> u64 \<Rightarrow> (nat, anyhow) result" where
  "chosen_index weights chosen_weight =
     (case binary_search_by (\<lambda>w. if w \<le> chosen_weight then Less else Greater) weights 0 (length weights) of
        Err i \<Rightarrow> Ok i
      | _ \<Rightarrow> Panic)"

definition draw_leader :: "(8 word list \<Rightarrow> 8 word list) \<Rightarrow> round \<Rightarrow> author list \<Rightarrow> u64 list \<Rightarrow> (author, anyhow) result" where
  "draw_leader sha3_256 r proposers ws =
     (if length ws \<noteq> length proposers then Panic
      else (let (weights, total_weight) = running_weights 0 ws in
        bind_result (fst (next_state sha3_256 (to_le_bytes r))) (\<lambda>n.
          if total_weight = 0 then Panic
          else bind_result (chosen_index weights (n mod total_weight)) (vec_index proposers))))"

definition leader_get_valid_proposer ::
    "(8 word list \<Rightarrow> 8 word list) \<Rightarrow> db_reader \<Rightarrow> round \<Rightarrow> (leader_reputation, author, anyhow) stateful" where
  "leader_get_valid_proposer sha3_256 db r s =
     (let target_round = (if lr_exclude_round s \<le> r then r - lr_exclude_round s else 0);
          (window, backend) = get_block_metadata db target_round (lr_backend s);
          t = s\<lparr>lr_backend := backend\<rparr>
      in (bind_result window (\<lambda>sliding_window.
            draw_leader sha3_256 r (lr_proposers s) (get_weights (lr_heuristic s) (lr_proposers s) sliding_window)), t))"

definition leader_is_valid_proposal ::
    "(8 word list \<Rightarrow> 8 word list) \<Rightarrow> db_reader \<Rightarrow> block \<Rightarrow> (leader_reputation, bool, anyhow) stateful" where
  "leader_is_valid_proposal sha3_256 db b s =
     (case b_author b of
        None \<Rightarrow> (Ok False, s)
      | Some a \<Rightarrow>
          sbind (leader_get_valid_proposer sha3_256 db (b_round b)) (\<lambda>p s.
            if p \<noteq> a then (Ok False, s)
            else (let (r, ids) = lr_already_proposed s in
                  if r < b_round b
                  then (Ok True, s\<lparr>lr_already_proposed := (b_round b, Map.empty(a \<mapsto> b_id b))\<rparr>)
                  else if b_round b = r
                  then (case ids a of
                          Some i \<Rightarrow> if i \<noteq> b_id b then (Ok False, s)
                                    else (Ok True, s\<lparr>lr_already_proposed := (r, ids(a \<mapsto> b_id b))\<rparr>)
                        | None \<Rightarrow> (Ok True, s\<lparr>lr_already_proposed := (r, ids(a \<mapsto> b_id b))\<rparr>))
                  else (Ok False, s))) s)"

section \<open>What a schedule promises\<close>

locale proposer_schedule =
  fixes candidates :: "'p \<Rightarrow> author set"
    and get :: "'p \<Rightarrow> round \<Rightarrow> (author, anyhow) result"
  assumes leader_candidate: "get p r = Ok a \<Longrightarrow> a \<in> candidates p"
begin

lemma valid_proposal_leader:
  assumes "is_valid_proposal (get p) b = Ok True"
  obtains a where "b_author b = Some a" and "get p (b_round b) = Ok a" and "a \<in> candidates p"
  using assms leader_candidate
  by (auto simp: is_valid_proposal_def is_valid_proposer_def bind_result_Ok_iff split: option.splits)

lemma one_leader:
  assumes "is_valid_proposal (get p) b = Ok True" and "is_valid_proposal (get p) b' = Ok True" and "b_round b = b_round b'"
  shows "b_author b = b_author b'"
  using assms by (metis result.inject(1) valid_proposal_leader)

end

lemma vec_index_Ok_iff [ok_simps]: "vec_index xs i = Ok x \<longleftrightarrow> i < length xs \<and> x = xs ! i"
  by (auto simp: vec_index_def)

interpretation rotating: proposer_schedule "\<lambda>rp. set (rp_proposers rp)" rotating_get_valid_proposer
  by unfold_locales (auto simp: rotating_get_valid_proposer_def Let_def vec_index_Ok_iff split: if_splits)

interpretation fixed_round: proposer_schedule "\<lambda>p. insert (rop_default_proposer p) (ran (rop_proposers p))" round_get_valid_proposer
  by unfold_locales (auto simp: round_get_valid_proposer_def ran_def split: option.splits)

lemma draw_leader_candidate: "draw_leader sha3 r ps ws = Ok a \<Longrightarrow> a \<in> set ps"
  by (auto simp: draw_leader_def ok_simps split: if_splits prod.splits)

interpretation reputation: proposer_schedule "\<lambda>s. set (lr_proposers s)" "\<lambda>s r. fst (leader_get_valid_proposer sha3 db r s)"
  by unfold_locales
    (auto simp: leader_get_valid_proposer_def Let_def bind_result_Ok_iff split: prod.splits dest: draw_leader_candidate)

section \<open>The binary search\<close>

lemma binary_search_by_partition:
  assumes "left \<le> right" and "right \<le> length xs"
    and "\<forall>i < left. f (xs ! i) = Less" and "\<forall>i. right \<le> i \<longrightarrow> i < length xs \<longrightarrow> f (xs ! i) = Greater"
    and "\<forall>i j. i \<le> j \<longrightarrow> j < length xs \<longrightarrow> f (xs ! j) = Less \<longrightarrow> f (xs ! i) = Less"
    and "\<forall>i < length xs. f (xs ! i) \<noteq> Equal"
  shows "\<exists>k. binary_search_by f xs left right = Err k \<and> k \<le> length xs \<and> (\<forall>i < k. f (xs ! i) = Less) \<and>
    (\<forall>i. k \<le> i \<longrightarrow> i < length xs \<longrightarrow> f (xs ! i) = Greater)"
  using assms
proof (induction f xs left right rule: binary_search_by.induct)
  case (1 f xs left right)
  show ?case
  proof (cases "left < right")
    case False
    then have "binary_search_by f xs left right = Err left" by (subst binary_search_by.simps) simp
    with False "1.prems" show ?thesis by (intro exI [of _ left]) auto
  next
    case True
    define mid where "mid = left + (right - left) div 2"
    have mid: "left \<le> mid" "mid < right" using True by (auto simp: mid_def)
    show ?thesis
    proof (cases "f (xs ! mid)")
      case Less
      have step: "binary_search_by f xs left right = binary_search_by f xs (mid + 1) right"
        using True Less by (subst binary_search_by.simps) (simp add: Let_def mid_def)
      have below: "\<forall>i < mid + 1. f (xs ! i) = Less"
      proof (intro allI impI)
        fix i assume "i < mid + 1"
        then have "i \<le> mid" by simp
        with "1.prems"(2,5) mid Less show "f (xs ! i) = Less" by auto
      qed
      show ?thesis unfolding step
        by (rule "1.IH"(1) [OF True mid_def Less _ "1.prems"(2) below "1.prems"(4-6)]) (use mid in simp)
    next
      case Greater
      have step: "binary_search_by f xs left right = binary_search_by f xs left mid"
        using True Greater by (subst binary_search_by.simps) (simp add: Let_def mid_def)
      have above: "\<forall>i. mid \<le> i \<longrightarrow> i < length xs \<longrightarrow> f (xs ! i) = Greater"
      proof (intro allI impI)
        fix i assume i: "mid \<le> i" "i < length xs"
        have "f (xs ! i) \<noteq> Less"
        proof
          assume "f (xs ! i) = Less"
          with "1.prems"(5) i have "f (xs ! mid) = Less" by blast
          with Greater show False by simp
        qed
        with "1.prems"(6) i show "f (xs ! i) = Greater" by (cases "f (xs ! i)") auto
      qed
      show ?thesis unfolding step
        by (rule "1.IH"(2) [OF True mid_def Greater mid(1) _ "1.prems"(3) above "1.prems"(5,6)]) (use mid "1.prems"(2) in simp)
    next
      case Equal
      with "1.prems"(2,6) mid show ?thesis by auto
    qed
  qed
qed

section \<open>Drawing by weight\<close>

definition weight_upto :: "u64 list \<Rightarrow> nat \<Rightarrow> nat" where
  "weight_upto ws i = sum_list (map unat (take i ws))"

lemma weight_upto_Suc: "i < length ws \<Longrightarrow> weight_upto ws (Suc i) = weight_upto ws i + unat (ws ! i)"
  by (simp add: weight_upto_def take_Suc_conv_app_nth)

lemma weight_upto_mono: "i \<le> j \<Longrightarrow> weight_upto ws i \<le> weight_upto ws j"
  unfolding weight_upto_def by (metis le_add1 le_add_diff_inverse map_append sum_list_append take_add)

lemma running_weights_exact:
  assumes "unat acc + sum_list (map unat ws) < 2 ^ 64" and "running_weights acc ws = (xs, t)"
  shows "unat t = unat acc + sum_list (map unat ws) \<and> length xs = length ws \<and>
    (\<forall>i < length ws. unat (xs ! i) = unat acc + weight_upto ws (Suc i))"
  using assms
proof (induction acc ws arbitrary: xs t rule: running_weights.induct)
  case (2 acc w ws)
  from "2.prems"(2) obtain ys where ys: "running_weights (acc + w) ws = (ys, t)" "xs = (acc + w) # ys"
    by (auto split: prod.splits)
  have w: "unat (acc + w) = unat acc + unat w" using "2.prems"(1) by (simp add: unat_word_ariths)
  have "unat t = unat (acc + w) + sum_list (map unat ws) \<and> length ys = length ws \<and>
      (\<forall>i < length ws. unat (ys ! i) = unat (acc + w) + weight_upto ws (Suc i))"
    by (rule "2.IH" [OF _ ys(1)]) (use "2.prems"(1) w in simp)
  then show ?case using w ys(2) by (auto simp: weight_upto_def nth_Cons split: nat.splits)
qed simp

lemma running_weights_total:
  assumes "sum_list (map unat ws) < 2 ^ 64" and "running_weights 0 ws = (xs, t)"
  shows "unat t = weight_upto ws (length ws)"
  using running_weights_exact [OF _ assms(2)] assms(1) by (simp add: weight_upto_def)

lemma running_weights_search:
  fixes c :: u64
  defines "f \<equiv> \<lambda>w. if w \<le> c then Less else Greater"
  assumes small: "sum_list (map unat ws) < 2 ^ 64" and run: "running_weights 0 ws = (xs, t)"
  obtains k where "binary_search_by f xs 0 (length xs) = Err k" and "k \<le> length ws"
    and "\<And>i. i < k \<Longrightarrow> weight_upto ws (Suc i) \<le> unat c"
    and "\<And>i. k \<le> i \<Longrightarrow> i < length ws \<Longrightarrow> unat c < weight_upto ws (Suc i)"
proof -
  from running_weights_exact [OF _ run] small have len: "length xs = length ws"
    and nth: "\<And>i. i < length ws \<Longrightarrow> unat (xs ! i) = weight_upto ws (Suc i)" by auto
  have less: "f (xs ! i) = Less \<longleftrightarrow> weight_upto ws (Suc i) \<le> unat c" if "i < length ws" for i
    using nth [OF that] by (simp add: f_def word_le_nat_alt)
  have neq: "f w \<noteq> Equal" for w by (simp add: f_def)
  have "\<exists>k. binary_search_by f xs 0 (length xs) = Err k \<and> k \<le> length xs \<and> (\<forall>i < k. f (xs ! i) = Less) \<and>
      (\<forall>i. k \<le> i \<longrightarrow> i < length xs \<longrightarrow> f (xs ! i) = Greater)"
  proof (rule binary_search_by_partition)
    show "\<forall>i j. i \<le> j \<longrightarrow> j < length xs \<longrightarrow> f (xs ! j) = Less \<longrightarrow> f (xs ! i) = Less"
    proof (intro allI impI)
      fix i j assume h: "i \<le> j" "j < length xs" "f (xs ! j) = Less"
      then have "weight_upto ws (Suc i) \<le> weight_upto ws (Suc j)" by (intro weight_upto_mono) simp
      with h len less [of i] less [of j] show "f (xs ! i) = Less" by simp
    qed
  qed (use neq in auto)
  then obtain k where k: "binary_search_by f xs 0 (length xs) = Err k" "k \<le> length xs"
    and l: "\<forall>i < k. f (xs ! i) = Less" and g: "\<forall>i. k \<le> i \<longrightarrow> i < length xs \<longrightarrow> f (xs ! i) = Greater" by blast
  show thesis
  proof (rule that [OF k(1)])
    show "weight_upto ws (Suc i) \<le> unat c" if "i < k" for i using l that k(2) len less [of i] by simp
    show "unat c < weight_upto ws (Suc i)" if "k \<le> i" "i < length ws" for i using g that len less [of i] by (simp add: not_le [symmetric])
  qed (use k(2) len in simp)
qed

lemma chosen_index_iff:
  assumes small: "sum_list (map unat ws) < 2 ^ 64" and run: "running_weights 0 ws = (xs, t)" and c: "c < t"
  shows "chosen_index xs c = Ok i \<longleftrightarrow> i < length ws \<and> weight_upto ws i \<le> unat c \<and> unat c < weight_upto ws (Suc i)"
proof -
  obtain k where k: "binary_search_by (\<lambda>w. if w \<le> c then Less else Greater) xs 0 (length xs) = Err k" "k \<le> length ws"
    and low: "\<And>i. i < k \<Longrightarrow> weight_upto ws (Suc i) \<le> unat c"
    and high: "\<And>i. k \<le> i \<Longrightarrow> i < length ws \<Longrightarrow> unat c < weight_upto ws (Suc i)"
    by (rule running_weights_search [OF small run, of c]) (rule that; blast)
  have r: "chosen_index xs c = Ok i \<longleftrightarrow> i = k" by (auto simp: chosen_index_def k(1))
  have lo: "weight_upto ws k \<le> unat c" using low [of "k - 1"] by (cases k) (auto simp: weight_upto_def)
  have "unat c < weight_upto ws (length ws)"
    using c running_weights_total [OF small run] by (simp add: word_less_nat_alt)
  with lo k(2) have kl: "k < length ws" by (cases "k = length ws") auto
  have "i = k" if "weight_upto ws i \<le> unat c" "unat c < weight_upto ws (Suc i)"
  proof (rule ccontr)
    assume "i \<noteq> k"
    then consider "i < k" | "k < i" by linarith
    then show False
    proof cases
      case 1
      from low [OF 1] that(2) show False by simp
    next
      case 2
      then have "weight_upto ws (Suc k) \<le> weight_upto ws i" by (intro weight_upto_mono) simp
      with high [of k] kl that(1) show False by simp
    qed
  qed
  with kl lo high [of k] show ?thesis unfolding r by blast
qed

lemma unat_of_nat_u64: "x < 2 ^ 64 \<Longrightarrow> unat (of_nat x :: u64) = x"
  by (simp add: unat_of_nat)

lemma inj_on_unat: "inj_on unat (S :: u64 set)"
  by (rule inj_onI) (simp add: word_unat_eq_iff)

lemma card_word_range:
  assumes "b \<le> 2 ^ 64"
  shows "card {c :: u64. a \<le> unat c \<and> unat c < b} = b - a"
proof -
  let ?S = "{c :: u64. a \<le> unat c \<and> unat c < b}"
  have "unat ` ?S = {a..<b}"
  proof (intro equalityI subsetI)
    fix x assume x: "x \<in> {a..<b}"
    then have "x < 2 ^ 64" using assms by simp
    then have "unat (of_nat x :: u64) = x" by (rule unat_of_nat_u64)
    with x show "x \<in> unat ` ?S" by (intro image_eqI [of _ _ "of_nat x"]) simp_all
  qed auto
  with card_image [OF inj_on_unat, of ?S] show ?thesis by simp
qed

section \<open>Proposals per round\<close>

text \<open>The blocks accepted in a sequence of calls, each with the database as it is then.\<close>

fun leader_accepted ::
    "(8 word list \<Rightarrow> 8 word list) \<Rightarrow> (db_reader \<times> block) list \<Rightarrow> leader_reputation \<Rightarrow> block list" where
  "leader_accepted sha3 [] s = []"
| "leader_accepted sha3 ((db, b) # cs) s =
     (case leader_is_valid_proposal sha3 db b s of
        (Ok True, t) \<Rightarrow> b # leader_accepted sha3 cs t
      | (_, t) \<Rightarrow> leader_accepted sha3 cs t)"

text \<open>A block that can still be accepted after those of \<open>already_proposed\<close>.\<close>

definition proposal_after :: "round \<Rightarrow> (author \<Rightarrow> hash_value option) \<Rightarrow> block \<Rightarrow> bool" where
  "proposal_after r ids b \<longleftrightarrow> r < b_round b \<or>
     r = b_round b \<and> (\<forall>a. b_author b = Some a \<longrightarrow> ids a = None \<or> ids a = Some (b_id b))"

definition one_per_round :: "block \<Rightarrow> block \<Rightarrow> bool" where
  "one_per_round b b' \<longleftrightarrow> b_round b < b_round b' \<or>
     b_round b = b_round b' \<and> (b_author b = b_author b' \<longrightarrow> b_id b = b_id b')"

lemma proposal_after_upd:
  assumes "proposal_after r (ids(a \<mapsto> i)) b" and "ids a = None \<or> ids a = Some i"
  shows "proposal_after r ids b" and "r = b_round b \<Longrightarrow> b_author b = Some a \<Longrightarrow> b_id b = i"
  using assms by (auto simp: proposal_after_def split: if_splits)

lemma proposal_after_round: "proposal_after r ids b \<Longrightarrow> r \<le> b_round b"
  by (auto simp: proposal_after_def)

lemma leader_get_frame:
  "leader_get_valid_proposer sha3 db r s = (p, t) \<Longrightarrow> lr_already_proposed t = lr_already_proposed s"
  by (auto simp: leader_get_valid_proposer_def Let_def split: prod.splits)

lemma leader_is_valid_proposal_cases:
  assumes "leader_is_valid_proposal sha3 db b s = (res, t)" and "lr_already_proposed s = (r, ids)"
  obtains (rejected) "res \<noteq> Ok True" "lr_already_proposed t = (r, ids)"
  | (later) a where "res = Ok True" "b_author b = Some a" "r < b_round b" "lr_already_proposed t = (b_round b, [a \<mapsto> b_id b])"
  | (same) a where "res = Ok True" "b_author b = Some a" "r = b_round b" "ids a = None \<or> ids a = Some (b_id b)"
      "lr_already_proposed t = (r, ids(a \<mapsto> b_id b))"
proof (cases "b_author b")
  case None
  with assms show thesis by (intro rejected) (auto simp: leader_is_valid_proposal_def)
next
  case (Some a)
  obtain p s1 where g: "leader_get_valid_proposer sha3 db (b_round b) s = (p, s1)" by fastforce
  from leader_get_frame [OF g] assms(2) have ap: "lr_already_proposed s1 = (r, ids)" by simp
  show thesis
  proof (cases "p = Ok a")
    case False
    with assms(1) g ap show thesis
      by (intro rejected; cases p) (simp_all add: leader_is_valid_proposal_def Some sbind_def, auto)
  next
    case True
    with assms(1) g ap have body: "(if r < b_round b then (Ok True, s1\<lparr>lr_already_proposed := (b_round b, [a \<mapsto> b_id b])\<rparr>)
        else if b_round b = r
        then (case ids a of
                Some i \<Rightarrow> if i \<noteq> b_id b then (Ok False, s1) else (Ok True, s1\<lparr>lr_already_proposed := (r, ids(a \<mapsto> b_id b))\<rparr>)
              | None \<Rightarrow> (Ok True, s1\<lparr>lr_already_proposed := (r, ids(a \<mapsto> b_id b))\<rparr>))
        else (Ok False, s1)) = (res, t)"
      by (simp add: leader_is_valid_proposal_def Some sbind_def)
    consider "r < b_round b" | "r = b_round b" "ids a = None \<or> ids a = Some (b_id b)"
      | "r = b_round b" "ids a \<noteq> None" "ids a \<noteq> Some (b_id b)" | "b_round b < r"
      using linorder_less_linear [of r "b_round b"] by blast
    then show thesis
    proof cases
      case 1
      with body Some show thesis by (intro later [of a]) auto
    next
      case 2
      with body Some show thesis by (intro same [of a]) auto
    next
      case 3
      with body ap show thesis by (intro rejected) (auto split: option.splits)
    next
      case 4
      then have "\<not> r < b_round b" "b_round b \<noteq> r" by auto
      with body ap show thesis by (intro rejected) auto
    qed
  qed
qed

lemma leader_accepted_one_per_round:
  assumes "lr_already_proposed s = (r, ids)"
  shows "list_all (proposal_after r ids) (leader_accepted sha3 cs s) \<and> sorted_wrt one_per_round (leader_accepted sha3 cs s)"
  using assms
proof (induction cs arbitrary: s r ids)
  case (Cons c cs)
  obtain db b where c: "c = (db, b)" by (cases c)
  obtain res t where run: "leader_is_valid_proposal sha3 db b s = (res, t)" by fastforce
  have accept: "leader_accepted sha3 (c # cs) s = b # leader_accepted sha3 cs t" if "res = Ok True"
    using that by (simp add: c run)
  show ?case
  proof (rule leader_is_valid_proposal_cases [OF run Cons.prems])
    assume h: "res \<noteq> Ok True" "lr_already_proposed t = (r, ids)"
    then have "leader_accepted sha3 (c # cs) s = leader_accepted sha3 cs t" by (auto simp: c run split: result.splits bool.splits)
    with Cons.IH [OF h(2)] show ?thesis by simp
  next
    fix a assume h: "res = Ok True" "b_author b = Some a" "r < b_round b" "lr_already_proposed t = (b_round b, [a \<mapsto> b_id b])"
    have step: "proposal_after r ids b' \<and> one_per_round b b'" if "proposal_after (b_round b) [a \<mapsto> b_id b] b'" for b'
      using proposal_after_upd [OF that] proposal_after_round [OF that] h(2,3)
      by (auto simp: proposal_after_def [of r] one_per_round_def)
    have "proposal_after r ids b" using h by (simp add: proposal_after_def)
    with accept [OF h(1)] Cons.IH [OF h(4)] step show ?thesis
      by (simp add: list_all_iff del: fun_upd_apply)
  next
    fix a assume h: "res = Ok True" "b_author b = Some a" "r = b_round b" "ids a = None \<or> ids a = Some (b_id b)"
      "lr_already_proposed t = (r, ids(a \<mapsto> b_id b))"
    have step: "proposal_after r ids b' \<and> one_per_round b b'" if "proposal_after r (ids(a \<mapsto> b_id b)) b'" for b'
      using proposal_after_upd [OF that h(4)] proposal_after_round [OF that] h(2,3)
      by (auto simp: one_per_round_def)
    have "proposal_after r ids b" using h by (simp add: proposal_after_def)
    with accept [OF h(1)] Cons.IH [OF h(5)] step show ?thesis
      by (simp add: list_all_iff del: fun_upd_apply)
  qed
qed simp

section \<open>Rotation\<close>

lemma rotating_index:
  assumes "0 < length ps" and "length ps < 2 ^ 64" and "c \<noteq> 0"
  shows "rotating_get_valid_proposer (rotating_proposer_new ps c) r = Ok (ps ! (unat r div unat c mod length ps))"
proof -
  have "unat c < 2 ^ LENGTH(32)" by (rule unsigned_less)
  then have "unat c < 2 ^ 32" by simp
  then have "unat c < 2 ^ 64" by (rule less_trans) simp
  then have c: "unat (ucast c :: u64) = unat c" by (simp add: unsigned_ucast_eq take_bit_nat_eq_self)
  have n: "unat (of_nat (length ps) :: u64) = length ps" using assms(2) by (rule unat_of_nat_u64)
  have "(ucast c :: u64) \<noteq> 0" "(of_nat (length ps) :: u64) \<noteq> 0"
    using c n assms(1,3) by (metis unat_0 unat_eq_zero less_numeral_extra(3))+
  moreover have "unat (r div ucast c mod of_nat (length ps)) = unat r div unat c mod length ps"
    using c n by (simp add: unat_mod unat_div)
  ultimately show ?thesis using assms(1) by (simp add: rotating_get_valid_proposer_def rotating_proposer_new_def Let_def vec_index_def)
qed

text \<open>The rounds of a period in which position \<open>i\<close> leads are consecutive.\<close>

lemma period_position:
  fixes x c n k i :: nat
  assumes "0 < c" and "i < n"
  shows "k * (n * c) \<le> x \<and> x < Suc k * (n * c) \<and> x div c mod n = i \<longleftrightarrow> (k * n + i) * c \<le> x \<and> x < (k * n + i) * c + c"
proof -
  have q: "m * c \<le> x \<longleftrightarrow> m \<le> x div c" and l: "x < m * c \<longleftrightarrow> x div c < m" for m
    using assms(1) by (simp_all add: less_eq_div_iff_mult_less_eq div_less_iff_less_mult)
  have "k * n \<le> x div c \<and> x div c < Suc k * n \<and> x div c mod n = i \<longleftrightarrow> x div c = k * n + i"
  proof
    assume h: "k * n \<le> x div c \<and> x div c < Suc k * n \<and> x div c mod n = i"
    then have "x div c div n = k" by (intro div_nat_eqI) (auto simp: mult.commute)
    with h div_mult_mod_eq [of "x div c" n] show "x div c = k * n + i" by simp
  qed (use assms(2) in simp)
  moreover have "x < (k * n + i) * c + c \<longleftrightarrow> x div c < Suc (k * n + i)"
    using l [of "Suc (k * n + i)"] by (simp add: algebra_simps)
  moreover have "k * (n * c) \<le> x \<longleftrightarrow> k * n \<le> x div c" using q [of "k * n"] by (simp add: mult.assoc)
  moreover have "x < Suc k * (n * c) \<longleftrightarrow> x div c < Suc k * n" using l [of "Suc k * n"] by (simp add: mult.assoc algebra_simps)
  moreover have "(k * n + i) * c \<le> x \<longleftrightarrow> k * n + i \<le> x div c" by (rule q)
  ultimately show ?thesis by auto
qed

section \<open>Properties\<close>

text \<open>
  C22. Leaders are drawn in proportion to their weights. Of the numbers below the total weight, the code
  picks candidate \<open>i\<close> for exactly as many as its weight says: the running sums, the binary search over
  them and the final index amount to a draw by weight, as long as the weights add up without wrapping.
\<close>

theorem leader_reputation_proportional:
  assumes "sum_list (map unat ws) < 2 ^ 64" and "running_weights 0 ws = (weights, total_weight)" and "i < length ws"
  shows "card {c. c < total_weight \<and> chosen_index weights c = Ok i} = unat (ws ! i)"
proof -
  have t: "unat total_weight = weight_upto ws (length ws)" by (rule running_weights_total [OF assms(1,2)])
  have bound: "weight_upto ws (Suc i) \<le> weight_upto ws (length ws)" using assms(3) by (intro weight_upto_mono) simp
  have "{c. c < total_weight \<and> chosen_index weights c = Ok i} = {c. weight_upto ws i \<le> unat c \<and> unat c < weight_upto ws (Suc i)}"
    using chosen_index_iff [OF assms(1,2)] assms(3) t bound by (auto simp: word_less_nat_alt)
  moreover have "weight_upto ws (Suc i) \<le> 2 ^ 64" using bound t unat_u64_bound [of total_weight] by simp
  ultimately show ?thesis using card_word_range [of "weight_upto ws (Suc i)" "weight_upto ws i"] weight_upto_Suc [OF assms(3)] by simp
qed

text \<open>
  C23. The draw always ends in a leader: with one weight per candidate, not all of them zero and no
  wrap-around in their sum, no index is out of bounds and nothing else panics, and the leader is a
  candidate of positive weight.
\<close>

theorem leader_always_drawn:
  assumes "length ws = length ps" and "sum_list (map unat ws) < 2 ^ 64" and "0 < sum_list (map unat ws)"
    and "8 \<le> length (sha3_256 (to_le_bytes r))"
  shows "\<exists>i. i < length ps \<and> 0 < ws ! i \<and> draw_leader sha3_256 r ps ws = Ok (ps ! i)"
proof -
  obtain xs t where run: "running_weights 0 ws = (xs, t)" by fastforce
  have t: "unat t = weight_upto ws (length ws)" by (rule running_weights_total [OF assms(2) run])
  with assms(3) have pos: "0 < unat t" by (simp only: weight_upto_def take_all order_refl)
  then have t0: "t \<noteq> 0" by auto
  obtain n where n: "fst (next_state sha3_256 (to_le_bytes r)) = Ok n" using assms(4) by (simp add: next_state_def Let_def)
  let ?c = "n mod t"
  have "unat ?c < unat t" using pos by (simp add: unat_mod)
  then have c: "?c < t" by (simp only: word_less_nat_alt)
  obtain k where k: "chosen_index xs ?c = Ok k"
    by (rule running_weights_search [OF assms(2) run, of ?c]) (simp add: chosen_index_def)
  then have kl: "k < length ws" and lo: "weight_upto ws k \<le> unat ?c" and hi: "unat ?c < weight_upto ws (Suc k)"
    by (simp_all only: chosen_index_iff [OF assms(2) run c])
  have w: "0 < unat (ws ! k)" using lo hi weight_upto_Suc [OF kl] by linarith
  have "draw_leader sha3_256 r ps ws = Ok (ps ! k)"
    using assms(1) n t0 k kl by (simp add: draw_leader_def run vec_index_def)
  with kl w assms(1) show ?thesis by (intro exI [of _ k]) (simp add: word_less_nat_alt)
qed

text \<open>
  C24. \<open>LeaderReputation::is_valid_proposal\<close> accepts at most one proposal per proposer and round, and never
  one of an earlier round than it accepted before, whatever blocks are offered and however the
  database changes in between.
\<close>

theorem leader_one_proposal_per_round:
  "sorted_wrt one_per_round (leader_accepted sha3_256 cs (leader_reputation_new ps backend heuristic ex))"
  using leader_accepted_one_per_round [of "leader_reputation_new ps backend heuristic ex" 0 Map.empty sha3_256 cs]
  by (simp add: leader_reputation_new_def)

text \<open>
  C25. The rotation is fair: in every period of as many turns as there are proposers, each of them leads
  exactly \<open>contiguous_rounds\<close> rounds.
\<close>

theorem rotating_proposer_fair:
  assumes "distinct ps" and "i < length ps" and "length ps < 2 ^ 64" and "c \<noteq> 0"
    and "Suc k * (length ps * unat c) \<le> 2 ^ 64"
  shows "card {r :: round. k * (length ps * unat c) \<le> unat r \<and> unat r < Suc k * (length ps * unat c) \<and>
    rotating_get_valid_proposer (rotating_proposer_new ps c) r = Ok (ps ! i)} = unat c"
proof -
  from assms(2) have n: "0 < length ps" by linarith
  from assms(4) have c: "0 < unat c" by (simp add: unat_gt_0)
  have lead: "rotating_get_valid_proposer (rotating_proposer_new ps c) r = Ok (ps ! i) \<longleftrightarrow> unat r div unat c mod length ps = i"
    for r :: round
    unfolding rotating_index [OF n assms(3,4)] using assms(1,2) n by (simp add: nth_eq_iff_index_eq)
  have "{r :: round. k * (length ps * unat c) \<le> unat r \<and> unat r < Suc k * (length ps * unat c) \<and>
      rotating_get_valid_proposer (rotating_proposer_new ps c) r = Ok (ps ! i)} =
    {r. (k * length ps + i) * unat c \<le> unat r \<and> unat r < (k * length ps + i) * unat c + unat c}"
    unfolding lead by (rule Collect_cong) (rule period_position [OF c assms(2)])
  moreover have "(k * length ps + i) * unat c + unat c \<le> Suc k * (length ps * unat c)"
  proof -
    have "Suc (k * length ps + i) * unat c \<le> Suc k * length ps * unat c" using assms(2) by (intro mult_le_mono1) simp
    moreover have "Suc k * length ps * unat c = Suc k * (length ps * unat c)" by (rule mult.assoc)
    ultimately show ?thesis by simp
  qed
  then have "(k * length ps + i) * unat c + unat c \<le> 2 ^ 64" using assms(5) by (rule le_trans)
  ultimately show ?thesis by (simp only: card_word_range diff_add_inverse)
qed

section \<open>Instances\<close>

definition ex_weights :: "u64 list" where
  "ex_weights = [10, 1, 0, 10]"

theorem leader_reputation_proportional_witness:
  "card {c :: u64. c < 21 \<and> chosen_index [10, 11, 11, 21] c = Ok 3} = 10"
proof -
  have "running_weights 0 ex_weights = ([10, 11, 11, 21], 21)" by (simp add: ex_weights_def)
  from leader_reputation_proportional [OF _ this, of 3] show ?thesis by (simp add: ex_weights_def)
qed

theorem leader_always_drawn_witness:
  "\<exists>i. i < length [1, 2, 3, 4 :: author] \<and> 0 < ex_weights ! i \<and>
     draw_leader (\<lambda>bs. bs) 5 [1, 2, 3, 4] ex_weights = Ok ([1, 2, 3, 4] ! i)"
  by (rule leader_always_drawn) (simp_all add: ex_weights_def to_le_bytes_def)

theorem rotating_proposer_fair_witness:
  "card {r :: round. 3 * (length [7, 8, 9 :: author] * unat (2 :: 32 word)) \<le> unat r \<and>
     unat r < Suc 3 * (length [7, 8, 9 :: author] * unat (2 :: 32 word)) \<and>
     rotating_get_valid_proposer (rotating_proposer_new [7, 8, 9] 2) r = Ok ([7, 8, 9] ! 1)} = unat (2 :: 32 word)"
  by (rule rotating_proposer_fair) simp_all

end
