(* ===== verification/Block_Tree.thy ===== *)
theory Block_Tree
  imports Consensus_Types
begin

text \<open>
  \<open>consensus/src/block_storage/block_tree.rs\<close>: the tree of blocks a validator knows, with its ordered
  root, its commit root and its highest certificates. The result of executing a block is a type
  parameter. The order in which a \<open>HashSet\<close> of children is iterated is a function \<open>iter\<close> of the set.
  The two loops follow links and may run forever on a graph that is not a tree, so their result is
  an option; the theorems show that on a tree they end and what they return.
\<close>

section \<open>The model\<close>

record 'r executed_block =
  eb_block :: block
  eb_state_compute_result :: 'r

definition eb_id :: "'r executed_block \<Rightarrow> hash_value" where
  "eb_id b = b_id (eb_block b)"

definition eb_parent_id :: "'r executed_block \<Rightarrow> hash_value" where
  "eb_parent_id b = bi_id (certified_block (b_quorum_cert (eb_block b)))"

definition eb_round :: "'r executed_block \<Rightarrow> round" where
  "eb_round b = b_round (eb_block b)"

record 'r linkable_block =
  lb_executed_block :: "'r executed_block"
  lb_children :: "hash_value set"

definition linkable_block_new :: "'r executed_block \<Rightarrow> 'r linkable_block" where
  "linkable_block_new b = \<lparr>lb_executed_block = b, lb_children = {}\<rparr>"

definition lb_id :: "'r linkable_block \<Rightarrow> hash_value" where
  "lb_id lb = eb_id (lb_executed_block lb)"

definition add_child :: "hash_value \<Rightarrow> 'r linkable_block \<Rightarrow> ('r linkable_block, anyhow) result" where
  "add_child child_id lb =
     (if child_id \<in> lb_children lb then Panic else Ok (lb\<lparr>lb_children := insert child_id (lb_children lb)\<rparr>))"

record 'r block_tree =
  bt_id_to_block :: "hash_value \<Rightarrow> 'r linkable_block option"
  bt_ordered_root_id :: hash_value
  bt_commit_root_id :: hash_value
  bt_highest_certified_block_id :: hash_value
  bt_highest_quorum_cert :: quorum_cert
  bt_highest_timeout_cert :: "timeout_certificate option"
  bt_highest_2chain_timeout_cert :: "two_chain_timeout_certificate option"
  bt_highest_ordered_cert :: quorum_cert
  bt_highest_ledger_info :: ledger_info_with_signatures
  bt_id_to_quorum_cert :: "hash_value \<Rightarrow> quorum_cert option"
  bt_pruned_block_ids :: "hash_value list"
  bt_max_pruned_blocks_in_mem :: nat

definition block_tree_new ::
    "'r executed_block \<Rightarrow> quorum_cert \<Rightarrow> quorum_cert \<Rightarrow> ledger_info_with_signatures \<Rightarrow> nat
     \<Rightarrow> timeout_certificate option \<Rightarrow> two_chain_timeout_certificate option \<Rightarrow> ('r block_tree, anyhow) result" where
  "block_tree_new root root_quorum_cert root_ordered_cert root_commit_ledger_info max_pruned htc h2tc =
     (if eb_id root \<noteq> bi_id (qc_commit_info root_ordered_cert) then Panic
      else Ok \<lparr>bt_id_to_block = [eb_id root \<mapsto> linkable_block_new root],
        bt_ordered_root_id = eb_id root, bt_commit_root_id = eb_id root,
        bt_highest_certified_block_id = eb_id root, bt_highest_quorum_cert = root_quorum_cert,
        bt_highest_timeout_cert = htc, bt_highest_2chain_timeout_cert = h2tc,
        bt_highest_ordered_cert = root_ordered_cert, bt_highest_ledger_info = root_commit_ledger_info,
        bt_id_to_quorum_cert = [bi_id (certified_block root_quorum_cert) \<mapsto> root_quorum_cert],
        bt_pruned_block_ids = [], bt_max_pruned_blocks_in_mem = max_pruned\<rparr>)"

definition linkable_root :: "'r block_tree \<Rightarrow> ('r linkable_block, anyhow) result" where
  "linkable_root t = expect (bt_id_to_block t (bt_commit_root_id t))"

definition remove_block :: "hash_value \<Rightarrow> 'r block_tree \<Rightarrow> 'r block_tree" where
  "remove_block i t = t\<lparr>bt_id_to_block := (bt_id_to_block t)(i := None),
     bt_id_to_quorum_cert := (bt_id_to_quorum_cert t)(i := None)\<rparr>"

definition block_exists :: "hash_value \<Rightarrow> 'r block_tree \<Rightarrow> bool" where
  "block_exists i t \<longleftrightarrow> bt_id_to_block t i \<noteq> None"

definition get_block :: "'r block_tree \<Rightarrow> hash_value \<Rightarrow> 'r executed_block option" where
  "get_block t i = map_option lb_executed_block (bt_id_to_block t i)"

definition ordered_root :: "'r block_tree \<Rightarrow> ('r executed_block, anyhow) result" where
  "ordered_root t = expect (get_block t (bt_ordered_root_id t))"

definition commit_root :: "'r block_tree \<Rightarrow> ('r executed_block, anyhow) result" where
  "commit_root t = expect (get_block t (bt_commit_root_id t))"

definition highest_certified_block :: "'r block_tree \<Rightarrow> ('r executed_block, anyhow) result" where
  "highest_certified_block t = expect (get_block t (bt_highest_certified_block_id t))"

definition replace_2chain_timeout_cert :: "two_chain_timeout_certificate \<Rightarrow> 'r block_tree \<Rightarrow> 'r block_tree" where
  "replace_2chain_timeout_cert tc t = t\<lparr>bt_highest_2chain_timeout_cert := Some tc\<rparr>"

definition replace_timeout_cert :: "timeout_certificate \<Rightarrow> 'r block_tree \<Rightarrow> 'r block_tree" where
  "replace_timeout_cert tc t = t\<lparr>bt_highest_timeout_cert := Some tc\<rparr>"

definition get_quorum_cert_for_block :: "'r block_tree \<Rightarrow> hash_value \<Rightarrow> quorum_cert option" where
  "get_quorum_cert_for_block t i = bt_id_to_quorum_cert t i"

definition insert_block :: "'r executed_block \<Rightarrow> ('r block_tree, 'r executed_block, anyhow) stateful" where
  "insert_block b t =
     (case get_block t (eb_id b) of
        Some existing \<Rightarrow>
          if eb_state_compute_result existing = eb_state_compute_result b then (Ok existing, t) else (Panic, t)
      | None \<Rightarrow>
          (case bt_id_to_block t (eb_parent_id b) of
             None \<Rightarrow> (Err (Msg ''Parent block not found''), t)
           | Some parent \<Rightarrow>
               (case add_child (eb_id b) parent of
                  Ok parent' \<Rightarrow>
                    (Ok b, t\<lparr>bt_id_to_block :=
                       (bt_id_to_block t)(eb_parent_id b \<mapsto> parent', eb_id b \<mapsto> linkable_block_new b)\<rparr>)
                | Err e \<Rightarrow> (Err e, t)
                | Panic \<Rightarrow> (Panic, t))))"

definition update_ordered_root :: "hash_value \<Rightarrow> ('r block_tree, unit, anyhow) stateful" where
  "update_ordered_root i t = (if block_exists i t then (Ok (), t\<lparr>bt_ordered_root_id := i\<rparr>) else (Panic, t))"

definition update_commit_root :: "hash_value \<Rightarrow> ('r block_tree, unit, anyhow) stateful" where
  "update_commit_root i t = (if block_exists i t then (Ok (), t\<lparr>bt_commit_root_id := i\<rparr>) else (Panic, t))"

definition update_highest_ledger_info :: "ledger_info_with_signatures \<Rightarrow> ('r block_tree, unit, anyhow) stateful" where
  "update_highest_ledger_info l t =
     (if bi_round (lis_commit_info (bt_highest_ledger_info t)) < bi_round (lis_commit_info l)
      then update_commit_root (bi_id (lis_commit_info l)) (t\<lparr>bt_highest_ledger_info := l\<rparr>)
      else (Ok (), t))"

definition insert_quorum_cert :: "quorum_cert \<Rightarrow> ('r block_tree, unit, anyhow) stateful" where
  "insert_quorum_cert qc t =
     (let block_id = bi_id (certified_block qc) in
      case get_block t block_id of
        None \<Rightarrow> (Err (Msg ''Block not found''), t)
      | Some b \<Rightarrow>
          sbind (sget highest_certified_block) (\<lambda>hcb t.
            let t1 = (if eb_round hcb < eb_round b
                      then t\<lparr>bt_highest_certified_block_id := eb_id b, bt_highest_quorum_cert := qc\<rparr> else t);
                t2 = (case bt_id_to_quorum_cert t1 block_id of
                        None \<Rightarrow> t1\<lparr>bt_id_to_quorum_cert := (bt_id_to_quorum_cert t1)(block_id \<mapsto> qc)\<rparr>
                      | Some _ \<Rightarrow> t1);
                t3 = (if bi_round (qc_commit_info (bt_highest_ordered_cert t2)) < bi_round (qc_commit_info qc)
                      then t2\<lparr>bt_highest_ordered_cert := qc\<rparr> else t2)
            in (Ok (), t3)) t)"

text \<open>The children pushed on the stack, in the order of the iteration.\<close>

fun push_children ::
    "(hash_value \<Rightarrow> 'r linkable_block option) \<Rightarrow> hash_value \<Rightarrow> hash_value list \<Rightarrow> ('r linkable_block list, anyhow) result" where
  "push_children blocks next_root_id [] = Ok []"
| "push_children blocks next_root_id (c # cs) =
     (if next_root_id = c then push_children blocks next_root_id cs
      else bind_result (expect (blocks c)) (\<lambda>b.
           bind_result (push_children blocks next_root_id cs) (\<lambda>bs. Ok (b # bs))))"

text \<open>The stack has its top first.\<close>

partial_function (option) prune_loop ::
    "(hash_value set \<Rightarrow> hash_value list) \<Rightarrow> (hash_value \<Rightarrow> 'r linkable_block option) \<Rightarrow> hash_value
     \<Rightarrow> 'r linkable_block list \<Rightarrow> hash_value list \<Rightarrow> (hash_value list, anyhow) result option" where
  "prune_loop iter blocks next_root_id to_be_pruned pruned =
     (case to_be_pruned of
        [] \<Rightarrow> Some (Ok pruned)
      | b # rest \<Rightarrow>
          (case push_children blocks next_root_id (iter (lb_children b)) of
             Ok bs \<Rightarrow> prune_loop iter blocks next_root_id (rev bs @ rest) (pruned @ [lb_id b])
           | Err e \<Rightarrow> Some (Err e)
           | Panic \<Rightarrow> Some Panic))"

definition find_blocks_to_prune ::
    "(hash_value set \<Rightarrow> hash_value list) \<Rightarrow> 'r block_tree \<Rightarrow> hash_value \<Rightarrow> (hash_value list, anyhow) result option" where
  "find_blocks_to_prune iter t next_root_id =
     (if next_root_id = bt_commit_root_id t then Some (Ok [])
      else (case linkable_root t of
              Ok root \<Rightarrow> prune_loop iter (bt_id_to_block t) next_root_id [root] []
            | Err e \<Rightarrow> Some (Err e)
            | Panic \<Rightarrow> Some Panic))"

definition process_pruned_blocks :: "hash_value list \<Rightarrow> 'r block_tree \<Rightarrow> 'r block_tree" where
  "process_pruned_blocks newly_pruned_blocks t =
     (let ids = bt_pruned_block_ids t @ newly_pruned_blocks;
          n = length ids - bt_max_pruned_blocks_in_mem t
      in fold remove_block (take n ids) (t\<lparr>bt_pruned_block_ids := drop n ids\<rparr>))"

partial_function (option) path_loop ::
    "'r block_tree \<Rightarrow> round \<Rightarrow> hash_value \<Rightarrow> 'r executed_block list \<Rightarrow> (hash_value \<times> 'r executed_block list) option option" where
  "path_loop t root_round cur_block_id res =
     (case get_block t cur_block_id of
        None \<Rightarrow> Some None
      | Some b \<Rightarrow>
          if eb_round b \<le> root_round then Some (Some (cur_block_id, res))
          else path_loop t root_round (eb_parent_id b) (res @ [b]))"

definition path_from_root_to_block ::
    "'r block_tree \<Rightarrow> hash_value \<Rightarrow> hash_value \<Rightarrow> round \<Rightarrow> 'r executed_block list option option" where
  "path_from_root_to_block t block_id root_id root_round =
     map_option (\<lambda>r. case r of
        None \<Rightarrow> None
      | Some (cur_block_id, res) \<Rightarrow> if cur_block_id \<noteq> root_id then None else Some (rev res))
       (path_loop t root_round block_id [])"

definition path_from_ordered_root :: "'r block_tree \<Rightarrow> hash_value \<Rightarrow> ('r executed_block list option, anyhow) result option" where
  "path_from_ordered_root t block_id =
     (case ordered_root t of
        Ok root \<Rightarrow> map_option Ok (path_from_root_to_block t block_id (bt_ordered_root_id t) (eb_round root))
      | Err e \<Rightarrow> Some (Err e)
      | Panic \<Rightarrow> Some Panic)"

definition path_from_commit_root :: "'r block_tree \<Rightarrow> hash_value \<Rightarrow> ('r executed_block list option, anyhow) result option" where
  "path_from_commit_root t block_id =
     (case commit_root t of
        Ok root \<Rightarrow> map_option Ok (path_from_root_to_block t block_id (bt_commit_root_id t) (eb_round root))
      | Err e \<Rightarrow> Some (Err e)
      | Panic \<Rightarrow> Some Panic)"

text \<open>The identifiers handed to the persistent storage are the answer; its failure is only logged.\<close>

definition commit_callback ::
    "(hash_value set \<Rightarrow> hash_value list) \<Rightarrow> 'r executed_block list \<Rightarrow> ledger_info_with_signatures \<Rightarrow> 'r block_tree
     \<Rightarrow> ((hash_value list, anyhow) result \<times> 'r block_tree) option" where
  "commit_callback iter blocks_to_commit commit_proof t =
     (if blocks_to_commit = [] then Some (Panic, t)
      else (case commit_root t of
              Ok _ \<Rightarrow>
                (case find_blocks_to_prune iter t (eb_id (last blocks_to_commit)) of
                   None \<Rightarrow> None
                 | Some (Ok id_to_remove) \<Rightarrow>
                     Some (sbind (update_highest_ledger_info commit_proof) (\<lambda>_. slift (Ok id_to_remove))
                       (process_pruned_blocks id_to_remove t))
                 | Some (Err e) \<Rightarrow> Some (Err e, t)
                 | Some Panic \<Rightarrow> Some (Panic, t))
            | Err e \<Rightarrow> Some (Err e, t)
            | Panic \<Rightarrow> Some (Panic, t)))"

section \<open>Trees\<close>

definition links :: "(hash_value \<Rightarrow> 'r linkable_block option) \<Rightarrow> (hash_value \<times> hash_value) set" where
  "links B = {(p, c). \<exists>lb. B p = Some lb \<and> c \<in> lb_children lb}"

text \<open>
  What makes the map of blocks a forest: blocks are stored under their identifier, a child link leads
  to a block that names the parent, and the rounds grow from parent to child.
\<close>

definition linked_tree :: "(hash_value \<Rightarrow> 'r linkable_block option) \<Rightarrow> bool" where
  "linked_tree B \<longleftrightarrow>
     (\<forall>i lb. B i = Some lb \<longrightarrow> lb_id lb = i) \<and>
     (\<forall>p c. (p, c) \<in> links B \<longrightarrow> (\<exists>cb. B c = Some cb \<and> eb_parent_id (lb_executed_block cb) = p)) \<and>
     (\<forall>i lb pb. B i = Some lb \<longrightarrow> B (eb_parent_id (lb_executed_block lb)) = Some pb \<longrightarrow>
        eb_round (lb_executed_block pb) < eb_round (lb_executed_block lb))"

definition stored_round :: "(hash_value \<Rightarrow> 'r linkable_block option) \<Rightarrow> hash_value \<Rightarrow> nat" where
  "stored_round B i = (case B i of None \<Rightarrow> 0 | Some lb \<Rightarrow> unat (eb_round (lb_executed_block lb)))"

lemma linked_treeD:
  assumes "linked_tree B" and "(p, c) \<in> links B"
  obtains pb cb where "B p = Some pb" and "B c = Some cb" and "eb_parent_id (lb_executed_block cb) = p"
    and "stored_round B p < stored_round B c"
proof -
  from assms(2) obtain pb where pb: "B p = Some pb" by (auto simp: links_def)
  from assms obtain cb where cb: "B c = Some cb" "eb_parent_id (lb_executed_block cb) = p"
    unfolding linked_tree_def by blast
  with assms(1) pb have "eb_round (lb_executed_block pb) < eb_round (lb_executed_block cb)" by (auto simp: linked_tree_def)
  with pb cb show thesis by (intro that) (auto simp: stored_round_def word_less_nat_alt)
qed

lemma link_parent_unique: "linked_tree B \<Longrightarrow> (p, c) \<in> links B \<Longrightarrow> (q, c) \<in> links B \<Longrightarrow> p = q"
  by (metis linked_treeD option.inject)

lemma link_rounds: "linked_tree B \<Longrightarrow> (p, c) \<in> links B \<Longrightarrow> stored_round B p < stored_round B c"
  by (metis linked_treeD)

lemma desc_rounds: "(a, x) \<in> (links B)\<^sup>* \<Longrightarrow> linked_tree B \<Longrightarrow> stored_round B a \<le> stored_round B x"
  by (induction rule: rtrancl_induct) (auto dest: link_rounds)

lemma desc_present: "(a, x) \<in> (links B)\<^sup>* \<Longrightarrow> linked_tree B \<Longrightarrow> B a \<noteq> None \<Longrightarrow> B x \<noteq> None"
  by (induction rule: rtrancl_induct) (auto elim: linked_treeD)

lemma no_cycle: "linked_tree B \<Longrightarrow> (p, c) \<in> links B \<Longrightarrow> (c, p) \<notin> (links B)\<^sup>*"
  using link_rounds desc_rounds by (metis leD)

text \<open>The step into a block comes from its parent.\<close>

lemma desc_step:
  assumes "linked_tree B" and "(a, x) \<in> (links B)\<^sup>*" and "(p, x) \<in> links B" and "a \<noteq> x"
  shows "(a, p) \<in> (links B)\<^sup>*"
  using assms by (metis link_parent_unique rtranclE)

lemma ancestors_linear:
  assumes "linked_tree B" and "(b, x) \<in> (links B)\<^sup>*" and "(a, x) \<in> (links B)\<^sup>*"
  shows "(a, b) \<in> (links B)\<^sup>* \<or> (b, a) \<in> (links B)\<^sup>*"
  using assms(2,3)
proof (induction rule: rtrancl_induct)
  case (step y z)
  show ?case
  proof (cases "a = z")
    case True
    with rtrancl_into_rtrancl [OF step.hyps] show ?thesis by simp
  next
    case False
    with desc_step [OF assms(1) step.prems step.hyps(2)] step.IH show ?thesis by simp
  qed
qed simp

lemma siblings_disjoint:
  assumes t: "linked_tree B" and c: "(i, c) \<in> links B" and d: "(i, d) \<in> links B" "c \<noteq> d"
    and x: "(c, x) \<in> (links B)\<^sup>*" "(d, x) \<in> (links B)\<^sup>*"
  shows False
proof -
  have apart: "(c, d) \<notin> (links B)\<^sup>*" if "(i, c) \<in> links B" "(i, d) \<in> links B" "c \<noteq> d" for c d
    using desc_step [OF t _ that(2) that(3)] no_cycle [OF t that(1)] by blast
  from ancestors_linear [OF t x(2,1)] apart [OF c d] apart [OF d(1) c] d(2) show False by auto
qed

section \<open>Pruning\<close>

text \<open>What is reached without entering the new root.\<close>

definition links_avoiding :: "hash_value \<Rightarrow> (hash_value \<Rightarrow> 'r linkable_block option) \<Rightarrow> (hash_value \<times> hash_value) set" where
  "links_avoiding n B = {(p, c) \<in> links B. c \<noteq> n}"

lemma links_avoiding_desc: "(a, x) \<in> (links_avoiding n B)\<^sup>* \<Longrightarrow> (a, x) \<in> (links B)\<^sup>*"
  by (erule rtrancl_mono [THEN subsetD, rotated]) (auto simp: links_avoiding_def)

text \<open>A list of blocks in which each comes after its parent, if the parent is stored and not among those before.\<close>

primrec parents_first :: "('i \<times> 'i) set \<Rightarrow> 'i set \<Rightarrow> 'i list \<Rightarrow> bool" where
  "parents_first L S [] \<longleftrightarrow> True"
| "parents_first L S (x # xs) \<longleftrightarrow> (\<forall>p. (p, x) \<in> L \<longrightarrow> p \<in> S) \<and> parents_first L (insert x S) xs"

lemma parents_first_append: "parents_first L S (xs @ ys) \<longleftrightarrow> parents_first L S xs \<and> parents_first L (S \<union> set xs) ys"
proof (induction xs arbitrary: S)
  case (Cons x xs)
  have "insert x S \<union> set xs = S \<union> set (x # xs)" by simp
  then show ?case using Cons.IH [of "insert x S"] by (simp del: set_simps)
qed simp

lemma parents_first_mono: "parents_first L S xs \<Longrightarrow> S \<subseteq> T \<Longrightarrow> parents_first L T xs"
proof (induction xs arbitrary: S T)
  case (Cons x xs)
  from Cons.prems have "parents_first L (insert x S) xs" "insert x S \<subseteq> insert x T" by auto
  then have "parents_first L (insert x T) xs" by (rule Cons.IH)
  moreover have "\<forall>p. (p, x) \<in> L \<longrightarrow> p \<in> T" using Cons.prems by (simp add: subset_iff)
  ultimately show ?case by simp
qed simp

lemma push_children_ok:
  "(\<And>c. c \<in> set cs \<Longrightarrow> B c \<noteq> None) \<Longrightarrow>
     push_children B n cs = Ok (map (\<lambda>c. the (B c)) (filter (\<lambda>c. c \<noteq> n) cs))"
  by (induction B n cs rule: push_children.induct) fastforce+

text \<open>
  The blocks below one block: popping it runs through all of them, and then goes on with the rest of
  the stack.
\<close>

definition prunes :: "(hash_value set \<Rightarrow> hash_value list) \<Rightarrow> (hash_value \<Rightarrow> 'r linkable_block option) \<Rightarrow> hash_value
    \<Rightarrow> hash_value list \<Rightarrow> hash_value list \<Rightarrow> bool" where
  "prunes iter B n is ids \<longleftrightarrow>
     (\<forall>rest pruned. prune_loop iter B n (map (\<lambda>i. the (B i)) is @ rest) pruned = prune_loop iter B n rest (pruned @ ids)) \<and>
     set ids = {x. \<exists>i. i \<in> set is \<and> (i, x) \<in> (links_avoiding n B)\<^sup>*} \<and> distinct ids \<and>
     (\<forall>S. (\<forall>i p. i \<in> set is \<longrightarrow> (p, i) \<in> links B \<longrightarrow> p \<in> S) \<longrightarrow> parents_first (links B) S ids)"

lemma prunes_set: "prunes iter B n is ids \<Longrightarrow> set ids = {x. \<exists>i. i \<in> set is \<and> (i, x) \<in> (links_avoiding n B)\<^sup>*}"
  by (simp only: prunes_def)

lemma prunes_Nil: "prunes iter B n [] []"
  by (simp add: prunes_def)

lemma prunes_append:
  assumes "prunes iter B n [i] ids" and "prunes iter B n is jds" and "set ids \<inter> set jds = {}"
  shows "prunes iter B n (i # is) (ids @ jds)"
  unfolding prunes_def
proof (intro conjI allI impI)
  fix rest pruned
  have "prune_loop iter B n (the (B i) # (map (\<lambda>i. the (B i)) is @ rest)) pruned
      = prune_loop iter B n (map (\<lambda>i. the (B i)) is @ rest) (pruned @ ids)"
    using assms(1) by (simp add: prunes_def)
  also have "\<dots> = prune_loop iter B n rest ((pruned @ ids) @ jds)" using assms(2) by (simp add: prunes_def)
  finally show "prune_loop iter B n (map (\<lambda>i. the (B i)) (i # is) @ rest) pruned = prune_loop iter B n rest (pruned @ ids @ jds)"
    by simp
next
  show "set (ids @ jds) = {x. \<exists>j. j \<in> set (i # is) \<and> (j, x) \<in> (links_avoiding n B)\<^sup>*}"
    using assms(1,2) by (auto simp: prunes_def)
  show "distinct (ids @ jds)" using assms by (simp add: prunes_def)
  fix S assume S: "\<forall>j p. j \<in> set (i # is) \<longrightarrow> (p, j) \<in> links B \<longrightarrow> p \<in> S"
  then have "parents_first (links B) S ids" "parents_first (links B) S jds" using assms(1,2) by (auto simp: prunes_def)
  then show "parents_first (links B) S (ids @ jds)" by (auto simp: parents_first_append intro: parents_first_mono)
qed

lemma prunes_children:
  assumes t: "linked_tree B" and sub: "\<And>c. c \<in> set cs \<Longrightarrow> (i, c) \<in> links B \<and> (\<exists>ids. prunes iter B n [c] ids)" and d: "distinct cs"
  shows "\<exists>ids. prunes iter B n cs ids"
  using sub d
proof (induction cs)
  case Nil
  then show ?case using prunes_Nil by blast
next
  case (Cons c cs)
  from Cons.prems(1) [of c] obtain ids where c: "(i, c) \<in> links B" and ids: "prunes iter B n [c] ids" by auto
  from Cons obtain jds where jds: "prunes iter B n cs jds" by auto
  have "set ids \<inter> set jds = {}"
  proof (rule ccontr)
    assume "set ids \<inter> set jds \<noteq> {}"
    then obtain x where "x \<in> set ids" "x \<in> set jds" by blast
    then obtain e where e: "e \<in> set cs" "(c, x) \<in> (links B)\<^sup>*" "(e, x) \<in> (links B)\<^sup>*"
      unfolding prunes_set [OF ids] prunes_set [OF jds] by (auto dest: links_avoiding_desc)
    from e(1) Cons.prems have "(i, e) \<in> links B" "c \<noteq> e" by auto
    from siblings_disjoint [OF t c this e(2,3)] show False .
  qed
  from prunes_append [OF ids jds this] show ?case by blast
qed

lemma reach_avoiding_children:
  "{x. (i, x) \<in> (links_avoiding n B)\<^sup>*} = insert i {x. \<exists>c. (i, c) \<in> links B \<and> c \<noteq> n \<and> (c, x) \<in> (links_avoiding n B)\<^sup>*}"
proof (intro equalityI subsetI)
  fix x assume "x \<in> {x. (i, x) \<in> (links_avoiding n B)\<^sup>*}"
  then have "(i, x) \<in> (links_avoiding n B)\<^sup>*" by simp
  then show "x \<in> insert i {x. \<exists>c. (i, c) \<in> links B \<and> c \<noteq> n \<and> (c, x) \<in> (links_avoiding n B)\<^sup>*}"
    by (cases rule: converse_rtranclE) (auto simp: links_avoiding_def)
next
  fix x assume "x \<in> insert i {x. \<exists>c. (i, c) \<in> links B \<and> c \<noteq> n \<and> (c, x) \<in> (links_avoiding n B)\<^sup>*}"
  then show "x \<in> {x. (i, x) \<in> (links_avoiding n B)\<^sup>*}"
    by (auto simp: links_avoiding_def intro: converse_rtrancl_into_rtrancl)
qed

lemma prunes_block:
  assumes t: "linked_tree B" and lb: "B i = Some lb" and push: "push_children B n (iter (lb_children lb)) = Ok (map (\<lambda>c. the (B c)) cs)"
    and cs: "\<And>c. c \<in> set cs \<longleftrightarrow> (i, c) \<in> links B \<and> c \<noteq> n" and ids: "prunes iter B n (rev cs) ids"
  shows "prunes iter B n [i] (i # ids)"
  unfolding prunes_def
proof (intro conjI allI impI)
  have idl: "lb_id lb = i" using t lb by (simp add: linked_tree_def)
  fix rest pruned
  have "prune_loop iter B n (lb # rest) pruned = prune_loop iter B n (map (\<lambda>c. the (B c)) (rev cs) @ rest) (pruned @ [i])"
    by (subst prune_loop.simps) (simp add: push idl rev_map)
  also have "\<dots> = prune_loop iter B n rest ((pruned @ [i]) @ ids)" using ids by (simp only: prunes_def)
  finally show "prune_loop iter B n (map (\<lambda>i. the (B i)) [i] @ rest) pruned = prune_loop iter B n rest (pruned @ i # ids)"
    by (simp add: lb)
next
  have set_ids: "set ids = {x. \<exists>c. (i, c) \<in> links B \<and> c \<noteq> n \<and> (c, x) \<in> (links_avoiding n B)\<^sup>*}"
    using ids by (simp add: prunes_def cs)
  then show "set (i # ids) = {x. \<exists>j. j \<in> set [i] \<and> (j, x) \<in> (links_avoiding n B)\<^sup>*}"
    using reach_avoiding_children [of i n B] by simp
  have "i \<notin> set ids"
  proof
    assume "i \<in> set ids"
    then obtain c where "(i, c) \<in> links B" "(c, i) \<in> (links_avoiding n B)\<^sup>*" by (auto simp: set_ids)
    with no_cycle [OF t] links_avoiding_desc show False by blast
  qed
  then show "distinct (i # ids)" using ids by (simp add: prunes_def)
  fix S assume S: "\<forall>j p. j \<in> set [i] \<longrightarrow> (p, j) \<in> links B \<longrightarrow> p \<in> S"
  have "\<forall>c p. c \<in> set (rev cs) \<longrightarrow> (p, c) \<in> links B \<longrightarrow> p \<in> insert i S"
    using cs link_parent_unique [OF t] by (metis insertI1 set_rev)
  then have "parents_first (links B) (insert i S) ids" using ids by (simp only: prunes_def)
  with S show "parents_first (links B) S (i # ids)" by simp
qed

lemma prunes_subtree:
  assumes t: "linked_tree B" and iter: "\<And>A. set (iter A) = A \<and> distinct (iter A)"
  shows "B i \<noteq> None \<Longrightarrow> \<exists>ids. prunes iter B n [i] ids"
proof (induction "2 ^ 64 - stored_round B i" arbitrary: i rule: less_induct)
  case less
  then obtain lb where lb: "B i = Some lb" by blast
  let ?cs = "filter (\<lambda>c. c \<noteq> n) (iter (lb_children lb))"
  have cs: "c \<in> set ?cs \<longleftrightarrow> (i, c) \<in> links B \<and> c \<noteq> n" for c using iter lb by (auto simp: links_def)
  have child: "B c \<noteq> None" if "(i, c) \<in> links B" for c using linked_treeD [OF t that] by auto
  have push: "push_children B n (iter (lb_children lb)) = Ok (map (\<lambda>c. the (B c)) ?cs)"
    by (rule push_children_ok) (use child iter lb in \<open>auto simp: links_def\<close>)
  have bound: "stored_round B c < 2 ^ 64" for c by (auto simp: stored_round_def split: option.splits)
  have "\<exists>ids. prunes iter B n (rev ?cs) ids"
  proof (rule prunes_children [OF t, of _ i])
    fix c assume "c \<in> set (rev ?cs)"
    with cs have c: "(i, c) \<in> links B" by simp
    have "2 ^ 64 - stored_round B c < 2 ^ 64 - stored_round B i"
      using link_rounds [OF t c] bound [of c] by linarith
    from less.hyps [OF this child [OF c]] c show "(i, c) \<in> links B \<and> (\<exists>ids. prunes iter B n [c] ids)" by simp
  qed (use iter in simp)
  then obtain ids where "prunes iter B n (rev ?cs) ids" ..
  from prunes_block [where cs = ?cs and iter = iter and n = n, OF t lb push cs this] show ?case by blast
qed

lemma avoiding_iff:
  assumes t: "linked_tree B" and n: "(r, n) \<in> (links B)\<^sup>*" "n \<noteq> r"
  shows "(r, x) \<in> (links_avoiding n B)\<^sup>* \<longleftrightarrow> (r, x) \<in> (links B)\<^sup>* \<and> (n, x) \<notin> (links B)\<^sup>*"
proof
  have above: "(n, r) \<notin> (links B)\<^sup>*"
  proof
    assume "(n, r) \<in> (links B)\<^sup>*"
    moreover from n obtain q where "(r, q) \<in> (links B)\<^sup>*" "(q, n) \<in> links B" by (metis rtranclE)
    ultimately show False using no_cycle [OF t] by (meson rtrancl_trans)
  qed
  assume rx: "(r, x) \<in> (links_avoiding n B)\<^sup>*"
  from rx above have "(n, x) \<notin> (links B)\<^sup>*"
  proof (induction rule: rtrancl_induct)
    case (step y z)
    then have "(y, z) \<in> links B" "z \<noteq> n" by (auto simp: links_avoiding_def)
    with desc_step [OF t _ this(1)] step.IH step.prems show ?case by blast
  qed
  with links_avoiding_desc [OF rx] show "(r, x) \<in> (links B)\<^sup>* \<and> (n, x) \<notin> (links B)\<^sup>*" by blast
next
  assume h: "(r, x) \<in> (links B)\<^sup>* \<and> (n, x) \<notin> (links B)\<^sup>*"
  then have "(r, x) \<in> (links B)\<^sup>*" by simp
  then show "(r, x) \<in> (links_avoiding n B)\<^sup>*" using conjunct2 [OF h]
  proof (induction rule: rtrancl_induct)
    case (step y z)
    have "(n, y) \<notin> (links B)\<^sup>*" using step.prems rtrancl_into_rtrancl step.hyps(2) by metis
    moreover have "z \<noteq> n" using step.prems by auto
    ultimately show ?case using step.IH step.hyps(2) by (auto simp: links_avoiding_def intro: rtrancl_into_rtrancl)
  qed simp
qed

lemma find_blocks_to_prune_result:
  assumes t: "linked_tree (bt_id_to_block t)" and root: "block_exists (bt_commit_root_id t) t"
    and n: "(bt_commit_root_id t, n) \<in> (links (bt_id_to_block t))\<^sup>*"
    and iter: "\<And>A. set (iter A) = A \<and> distinct (iter A)"
  obtains ids where "find_blocks_to_prune iter t n = Some (Ok ids)"
    and "set ids = {x. (bt_commit_root_id t, x) \<in> (links (bt_id_to_block t))\<^sup>* \<and> (n, x) \<notin> (links (bt_id_to_block t))\<^sup>*}"
    and "distinct ids"
    and "\<And>S. (\<And>p. (p, bt_commit_root_id t) \<in> links (bt_id_to_block t) \<Longrightarrow> p \<in> S) \<Longrightarrow>
      parents_first (links (bt_id_to_block t)) S ids"
proof (cases "n = bt_commit_root_id t")
  case True
  then show thesis by (intro that [of "[]"]) (auto simp: find_blocks_to_prune_def)
next
  case False
  let ?B = "bt_id_to_block t" and ?r = "bt_commit_root_id t"
  from root obtain lb where lb: "?B ?r = Some lb" by (auto simp: block_exists_def)
  with prunes_subtree [OF t iter, of ?r] obtain ids where ids: "prunes iter ?B n [?r] ids" by auto
  have "prune_loop iter ?B n ([lb] @ []) [] = prune_loop iter ?B n [] ([] @ ids)" using ids lb by (simp add: prunes_def)
  also have "\<dots> = Some (Ok ids)" by (subst prune_loop.simps) simp
  finally have find: "find_blocks_to_prune iter t n = Some (Ok ids)"
    using False by (simp add: find_blocks_to_prune_def linkable_root_def lb)
  show thesis
  proof (rule that [OF find])
    show "set ids = {x. (?r, x) \<in> (links ?B)\<^sup>* \<and> (n, x) \<notin> (links ?B)\<^sup>*}"
      unfolding prunes_set [OF ids] using avoiding_iff [OF t n False] by simp
    show "distinct ids" using ids by (simp only: prunes_def)
    show "parents_first (links ?B) S ids" if "\<And>p. (p, ?r) \<in> links ?B \<Longrightarrow> p \<in> S" for S
      using ids that by (simp add: prunes_def)
  qed
qed

section \<open>The invariant of the tree\<close>

definition block_tree_inv :: "'r block_tree \<Rightarrow> bool" where
  "block_tree_inv t \<longleftrightarrow>
     linked_tree (bt_id_to_block t) \<and> block_exists (bt_commit_root_id t) t \<and>
     distinct (bt_pruned_block_ids t) \<and> list_all (\<lambda>i. block_exists i t) (bt_pruned_block_ids t) \<and>
     length (bt_pruned_block_ids t) \<le> bt_max_pruned_blocks_in_mem t \<and>
     parents_first (links (bt_id_to_block t)) {} (bt_pruned_block_ids t) \<and>
     (\<forall>i. i \<in> set (bt_pruned_block_ids t) \<longrightarrow> (bt_commit_root_id t, i) \<notin> (links (bt_id_to_block t))\<^sup>*) \<and>
     (\<forall>p. (p, bt_commit_root_id t) \<in> links (bt_id_to_block t) \<longrightarrow> p \<in> set (bt_pruned_block_ids t))"

text \<open>Removing blocks, parents first.\<close>

definition without :: "'i set \<Rightarrow> ('i \<Rightarrow> 'b option) \<Rightarrow> 'i \<Rightarrow> 'b option" where
  "without S B = (\<lambda>i. if i \<in> S then None else B i)"

lemma fold_remove_block:
  "bt_id_to_block (fold remove_block ids t) = without (set ids) (bt_id_to_block t)"
  "bt_commit_root_id (fold remove_block ids t) = bt_commit_root_id t"
  "bt_pruned_block_ids (fold remove_block ids t) = bt_pruned_block_ids t"
  "bt_max_pruned_blocks_in_mem (fold remove_block ids t) = bt_max_pruned_blocks_in_mem t"
  "bt_highest_ledger_info (fold remove_block ids t) = bt_highest_ledger_info t"
  "bt_highest_certified_block_id (fold remove_block ids t) = bt_highest_certified_block_id t"
  "bt_ordered_root_id (fold remove_block ids t) = bt_ordered_root_id t"
  by (induction ids arbitrary: t) (auto simp: remove_block_def without_def)

lemma links_without: "links (without S B) = {(p, c) \<in> links B. p \<notin> S}"
  by (auto simp: links_def without_def split: if_splits)

lemma parents_firstD: "parents_first L S xs \<Longrightarrow> (p, c) \<in> L \<Longrightarrow> c \<in> set xs \<Longrightarrow> p \<in> S \<union> set xs"
  by (induction xs arbitrary: S) auto

lemma linked_tree_without:
  assumes "linked_tree B" and "parents_first (links B) {} xs"
  shows "linked_tree (without (set xs) B)"
  unfolding linked_tree_def
proof (intro conjI allI impI)
  fix p c assume "(p, c) \<in> links (without (set xs) B)"
  then have pc: "(p, c) \<in> links B" "p \<notin> set xs" by (auto simp: links_without)
  with parents_firstD [OF assms(2) pc(1)] have "c \<notin> set xs" by auto
  with linked_treeD [OF assms(1) pc(1)] show "\<exists>cb. without (set xs) B c = Some cb \<and> eb_parent_id (lb_executed_block cb) = p"
    by (auto simp: without_def)
qed (use assms(1) in \<open>auto simp: linked_tree_def without_def split: if_splits\<close>)

lemma parents_first_without:
  assumes "parents_first (links B) S ys" and "S \<subseteq> set xs \<union> T"
  shows "parents_first (links (without (set xs) B)) T ys"
  using assms
proof (induction ys arbitrary: S T)
  case (Cons y ys)
  then have "parents_first (links B) (insert y S) ys" "insert y S \<subseteq> set xs \<union> insert y T" by auto
  then have "parents_first (links (without (set xs) B)) (insert y T) ys" by (rule Cons.IH)
  moreover have "p \<in> T" if "(p, y) \<in> links (without (set xs) B)" for p
  proof -
    from that have "(p, y) \<in> links B" "p \<notin> set xs" by (auto simp: links_without)
    with Cons.prems show ?thesis by auto
  qed
  ultimately show ?case by simp
qed simp

lemma process_pruned_blocks_result:
  fixes t :: "'r block_tree"
  defines "t' \<equiv> \<lambda>ids. process_pruned_blocks ids t"
    and "gone \<equiv> \<lambda>ids. set (take (length (bt_pruned_block_ids t @ ids) - bt_max_pruned_blocks_in_mem t) (bt_pruned_block_ids t @ ids))"
  shows "bt_id_to_block (t' ids) = without (gone ids) (bt_id_to_block t)"
    and "bt_commit_root_id (t' ids) = bt_commit_root_id t"
    and "bt_pruned_block_ids (t' ids) = drop (length (bt_pruned_block_ids t @ ids) - bt_max_pruned_blocks_in_mem t) (bt_pruned_block_ids t @ ids)"
    and "bt_max_pruned_blocks_in_mem (t' ids) = bt_max_pruned_blocks_in_mem t"
    and "bt_highest_ledger_info (t' ids) = bt_highest_ledger_info t"
    and "bt_highest_certified_block_id (t' ids) = bt_highest_certified_block_id t"
    and "bt_ordered_root_id (t' ids) = bt_ordered_root_id t"
  by (simp_all add: t'_def gone_def process_pruned_blocks_def Let_def fold_remove_block
      del: take_append drop_append)

text \<open>
  Advancing the commit root to a block below it: what is pruned is not below the new root, and what is
  removed from memory was pruned.
\<close>

lemma commit_inv:
  fixes t :: "'r block_tree" and ids :: "hash_value list" and n :: hash_value and l :: ledger_info_with_signatures
  defines "B \<equiv> bt_id_to_block t" and "r \<equiv> bt_commit_root_id t" and "Q \<equiv> bt_pruned_block_ids t"
  defines "t' \<equiv> (process_pruned_blocks ids t)\<lparr>bt_highest_ledger_info := l, bt_commit_root_id := n\<rparr>"
  assumes inv: "block_tree_inv t" and n: "(r, n) \<in> (links B)\<^sup>*"
    and ids: "set ids = {x. (r, x) \<in> (links B)\<^sup>* \<and> (n, x) \<notin> (links B)\<^sup>*}" "distinct ids" "parents_first (links B) (set Q) ids"
  shows "block_tree_inv t'" and "(n, x) \<in> (links B)\<^sup>* \<Longrightarrow> bt_id_to_block t' x = B x"
proof -
  define W where "W = Q @ ids"
  define k where "k = length W - bt_max_pruned_blocks_in_mem t"
  have t: "linked_tree B" and root: "B r \<noteq> None" and Q: "distinct Q" "\<And>i. i \<in> set Q \<Longrightarrow> B i \<noteq> None" "parents_first (links B) {} Q"
    "\<And>i. i \<in> set Q \<Longrightarrow> (r, i) \<notin> (links B)\<^sup>*" "\<And>p. (p, r) \<in> links B \<Longrightarrow> p \<in> set Q"
    using inv by (auto simp: block_tree_inv_def B_def r_def Q_def block_exists_def list_all_iff)
  have B': "bt_id_to_block t' = without (set (take k W)) B" and Q': "bt_pruned_block_ids t' = drop k W"
    and r': "bt_commit_root_id t' = n" and m': "bt_max_pruned_blocks_in_mem t' = bt_max_pruned_blocks_in_mem t"
    by (simp_all add: t'_def process_pruned_blocks_result k_def B_def Q_def W_def del: take_append drop_append)
  have W: "x \<in> set W \<longleftrightarrow> x \<in> set Q \<or> x \<in> set ids" for x by (simp add: W_def)
  have dW: "distinct W" using Q(1,4) ids(1,2) by (auto simp: W_def)
  have pW: "parents_first (links B) {} W" using Q(3) ids(3) by (simp add: W_def parents_first_append)
  have off: "(n, x) \<notin> (links B)\<^sup>*" if x: "x \<in> set W" for x
  proof
    assume nx: "(n, x) \<in> (links B)\<^sup>*"
    from rtrancl_trans [OF n nx] nx ids(1) Q(4) x show False by (auto simp: W)
  qed
  have present: "B i \<noteq> None" if "i \<in> set W" for i
    using that Q(2) ids(1) desc_present [OF _ t root] by (auto simp: W)
  have split: "i \<in> set (drop k W) \<longleftrightarrow> i \<in> set W \<and> i \<notin> set (take k W)" for i
  proof -
    have "set W = set (take k W) \<union> set (drop k W)" by (metis append_take_drop_id set_append)
    moreover have "set (take k W) \<inter> set (drop k W) = {}" using dW by (rule set_take_disj_set_drop_if_distinct) simp
    ultimately show ?thesis by blast
  qed
  have pf: "parents_first (links B) {} (take k W)" "parents_first (links B) (set (take k W)) (drop k W)"
    using pW parents_first_append [of "links B" "{}" "take k W" "drop k W"]
    unfolding append_take_drop_id Un_empty_left by blast+
  have sub: "(links (bt_id_to_block t'))\<^sup>* \<subseteq> (links B)\<^sup>*" by (rule rtrancl_mono) (auto simp: B' links_without)
  have up: "p \<in> set W" if p: "(p, n) \<in> links B" for p
  proof (cases "n = r")
    case True
    with Q(5) p W show ?thesis by simp
  next
    case False
    then have "(r, p) \<in> (links B)\<^sup>*" using desc_step [OF t n p] by simp
    with no_cycle [OF t p] ids(1) W show ?thesis by simp
  qed
  show keep: "bt_id_to_block t' x = B x" if "(n, x) \<in> (links B)\<^sup>*" for x
    using that off [of x] set_take_subset [of k W] by (auto simp: B' without_def)
  show "block_tree_inv t'"
    unfolding block_tree_inv_def
  proof (intro conjI allI impI)
    show "linked_tree (bt_id_to_block t')" unfolding B' by (rule linked_tree_without [OF t pf(1)])
    show "block_exists (bt_commit_root_id t') t'"
      using keep [of n] desc_present [OF n t root] by (simp add: block_exists_def r')
    show "distinct (bt_pruned_block_ids t')" unfolding Q' using dW by (rule distinct_drop)
    show "list_all (\<lambda>i. block_exists i t') (bt_pruned_block_ids t')"
      using present split by (simp add: Q' list_all_iff block_exists_def B' without_def)
    show "length (bt_pruned_block_ids t') \<le> bt_max_pruned_blocks_in_mem t'" by (simp add: Q' m' k_def)
    show "parents_first (links (bt_id_to_block t')) {} (bt_pruned_block_ids t')"
      unfolding Q' B' by (rule parents_first_without [OF pf(2)]) simp
    show "(bt_commit_root_id t', i) \<notin> (links (bt_id_to_block t'))\<^sup>*" if "i \<in> set (bt_pruned_block_ids t')" for i
      using that off [of i] sub split [of i] unfolding Q' r' by blast
    show "p \<in> set (bt_pruned_block_ids t')" if "(p, bt_commit_root_id t') \<in> links (bt_id_to_block t')" for p
      using that up [of p] split [of p] by (simp add: Q' r' B' links_without)
  qed
qed

text \<open>Inserting a block below a stored one.\<close>

lemma insert_block_cases:
  assumes "insert_block b t = (res, t')"
  obtains (known) existing where "get_block t (eb_id b) = Some existing" "t' = t"
  | (orphan) "get_block t (eb_id b) = None" "bt_id_to_block t (eb_parent_id b) = None" "t' = t"
      "res = Err (Msg ''Parent block not found'')"
  | (linked) parent where "bt_id_to_block t (eb_id b) = None" "bt_id_to_block t (eb_parent_id b) = Some parent"
      "eb_id b \<in> lb_children parent" "res = Panic" "t' = t"
  | (added) parent where "bt_id_to_block t (eb_id b) = None" "bt_id_to_block t (eb_parent_id b) = Some parent" "res = Ok b"
      "t' = t\<lparr>bt_id_to_block := (bt_id_to_block t)(eb_parent_id b \<mapsto> parent\<lparr>lb_children := insert (eb_id b) (lb_children parent)\<rparr>,
        eb_id b \<mapsto> linkable_block_new b)\<rparr>"
  using assms
  by (auto simp: insert_block_def get_block_def add_child_def split: option.splits if_splits)

lemma links_insert_block:
  assumes "B p = Some pb" and "B i = None" and "lb_children nb = {}"
  shows "links (B(p \<mapsto> pb\<lparr>lb_children := insert i (lb_children pb)\<rparr>, i \<mapsto> nb)) = insert (p, i) (links B)"
  using assms by (auto simp: links_def split: if_splits)

lemma desc_insert_leaf:
  assumes "\<And>c. (i, c) \<notin> L" and "(a, x) \<in> (insert (p, i) L)\<^sup>*" and "x \<noteq> i" and "p \<noteq> i"
  shows "(a, x) \<in> L\<^sup>*"
  using assms(2,3)
proof (induction rule: rtrancl_induct)
  case (step y z)
  then have yz: "(y, z) \<in> L" by auto
  with assms(1) have "y \<noteq> i" by auto
  with step.IH yz show ?case by (auto intro: rtrancl_into_rtrancl)
qed simp

lemma parents_first_insert_leaf:
  "parents_first L S xs \<Longrightarrow> i \<notin> set xs \<Longrightarrow> parents_first (insert (p, i) L) S xs"
  by (induction xs arbitrary: S) auto

lemma linked_tree_insert:
  assumes t: "linked_tree B" and p: "B (eb_parent_id b) = Some pb" and new: "B (eb_id b) = None"
    and up: "eb_round (lb_executed_block pb) < eb_round b"
    and down: "\<And>j lb. B j = Some lb \<Longrightarrow> eb_parent_id (lb_executed_block lb) = eb_id b \<Longrightarrow> eb_round b < eb_round (lb_executed_block lb)"
  shows "linked_tree (B(eb_parent_id b \<mapsto> pb\<lparr>lb_children := insert (eb_id b) (lb_children pb)\<rparr>, eb_id b \<mapsto> linkable_block_new b))"
    (is "linked_tree ?B")
proof -
  have ne: "eb_parent_id b \<noteq> eb_id b" using p new by auto
  have L: "links ?B = insert (eb_parent_id b, eb_id b) (links B)"
    by (rule links_insert_block [OF p new]) (simp add: linkable_block_new_def)
  have ex: "lb_executed_block lb = (if j = eb_id b then b else lb_executed_block (the (B j)))" if "?B j = Some lb" for j lb
    using that p by (auto simp: linkable_block_new_def split: if_splits)
  show ?thesis
    unfolding linked_tree_def
  proof (intro conjI allI impI)
    fix j lb assume "?B j = Some lb"
    then show "lb_id lb = j" using t p by (auto simp: linked_tree_def lb_id_def linkable_block_new_def split: if_splits)
  next
    fix q c assume "(q, c) \<in> links ?B"
    then consider "q = eb_parent_id b" "c = eb_id b" | "(q, c) \<in> links B" by (auto simp: L)
    then show "\<exists>cb. ?B c = Some cb \<and> eb_parent_id (lb_executed_block cb) = q"
    proof cases
      case 2
      from linked_treeD [OF t this] obtain cb where cb: "B c = Some cb" "eb_parent_id (lb_executed_block cb) = q" by blast
      with p new show ?thesis by auto
    qed (simp add: linkable_block_new_def)
  next
    fix j lb qb assume j: "?B j = Some lb" and q: "?B (eb_parent_id (lb_executed_block lb)) = Some qb"
    consider "j = eb_id b" | "j \<noteq> eb_id b" "eb_parent_id (lb_executed_block lb) = eb_id b"
      | "j \<noteq> eb_id b" "eb_parent_id (lb_executed_block lb) \<noteq> eb_id b" by blast
    then show "eb_round (lb_executed_block qb) < eb_round (lb_executed_block lb)"
    proof cases
      case 1
      with ex [OF j] ex [OF q] up p ne show ?thesis by simp
    next
      case 2
      with j p obtain lb0 where "B j = Some lb0" by (auto split: if_splits)
      with 2 ex [OF j] ex [OF q] down show ?thesis by simp
    next
      case 3
      with j q p obtain lb0 qb0 where "B j = Some lb0" "B (eb_parent_id (lb_executed_block lb)) = Some qb0"
        by (auto split: if_splits)
      with 3 ex [OF j] ex [OF q] t show ?thesis unfolding linked_tree_def by fastforce
    qed
  qed
qed

section \<open>Reachable trees\<close>

text \<open>
  Blocks whose rounds fit together: a block that names another as its parent has the higher round. This
  is what \<open>Block::verify_well_formed\<close> checks against the certificate, whose block identifier is a hash.
\<close>

definition rounds_fit :: "'r executed_block set \<Rightarrow> bool" where
  "rounds_fit V \<longleftrightarrow> (\<forall>b p. b \<in> V \<longrightarrow> p \<in> V \<longrightarrow> eb_parent_id b = eb_id p \<longrightarrow> eb_round p < eb_round b)"

definition stored_in :: "'r executed_block set \<Rightarrow> 'r block_tree \<Rightarrow> bool" where
  "stored_in V t \<longleftrightarrow> (\<forall>i lb. bt_id_to_block t i = Some lb \<longrightarrow> lb_executed_block lb \<in> V)"

text \<open>
  The calls of the block store. A commit is for a block below the commit root, with a ledger info
  for that block that is newer than the highest known one.
\<close>

inductive tree_reachable :: "(hash_value set \<Rightarrow> hash_value list) \<Rightarrow> 'r executed_block set \<Rightarrow> 'r block_tree \<Rightarrow> bool"
  for iter V where
  start: "block_tree_new root qc oc li m htc h2tc = Ok t \<Longrightarrow> root \<in> V \<Longrightarrow> tree_reachable iter V t"
| insert: "tree_reachable iter V t \<Longrightarrow> b \<in> V \<Longrightarrow> insert_block b t = (res, t') \<Longrightarrow> tree_reachable iter V t'"
| certify: "tree_reachable iter V t \<Longrightarrow> insert_quorum_cert qc t = (res, t') \<Longrightarrow> tree_reachable iter V t'"
| order: "tree_reachable iter V t \<Longrightarrow> update_ordered_root i t = (res, t') \<Longrightarrow> tree_reachable iter V t'"
| timeout: "tree_reachable iter V t \<Longrightarrow> tree_reachable iter V (replace_timeout_cert tc t)"
| timeout_2chain: "tree_reachable iter V t \<Longrightarrow> tree_reachable iter V (replace_2chain_timeout_cert tc2 t)"
| commit: "tree_reachable iter V t \<Longrightarrow> blocks \<noteq> [] \<Longrightarrow>
    (bt_commit_root_id t, eb_id (last blocks)) \<in> (links (bt_id_to_block t))\<^sup>* \<Longrightarrow>
    bi_id (lis_commit_info l) = eb_id (last blocks) \<Longrightarrow>
    bi_round (lis_commit_info (bt_highest_ledger_info t)) < bi_round (lis_commit_info l) \<Longrightarrow>
    commit_callback iter blocks l t = Some (res, t') \<Longrightarrow> tree_reachable iter V t'"

lemma insert_block_inv:
  assumes inv: "block_tree_inv t" and V: "stored_in V t" "rounds_fit V" "b \<in> V" and ins: "insert_block b t = (res, t')"
  shows "block_tree_inv t' \<and> stored_in V t' \<and> (get_block t (eb_id b) = None \<longrightarrow> res \<noteq> Panic)"
proof (rule insert_block_cases [OF ins])
  fix existing assume "get_block t (eb_id b) = Some existing" "t' = t"
  with inv V show ?thesis by simp
next
  assume "t' = t" "res = Err (Msg ''Parent block not found'')"
  with inv V show ?thesis by simp
next
  fix parent
  assume h: "bt_id_to_block t (eb_id b) = None" "bt_id_to_block t (eb_parent_id b) = Some parent" "eb_id b \<in> lb_children parent"
  then have "(eb_parent_id b, eb_id b) \<in> links (bt_id_to_block t)" by (auto simp: links_def)
  with h(1) inv show ?thesis by (auto simp: block_tree_inv_def elim: linked_treeD)
next
  fix parent
  let ?B = "bt_id_to_block t" and ?p = "eb_parent_id b" and ?i = "eb_id b" and ?r = "bt_commit_root_id t"
  assume new: "?B ?i = None" and p: "?B ?p = Some parent" and res: "res = Ok b"
    and t': "t' = t\<lparr>bt_id_to_block := ?B(?p \<mapsto> parent\<lparr>lb_children := insert ?i (lb_children parent)\<rparr>, ?i \<mapsto> linkable_block_new b)\<rparr>"
  from inv have t: "linked_tree ?B" and root: "?B ?r \<noteq> None" by (auto simp: block_tree_inv_def block_exists_def)
  have idp: "eb_id (lb_executed_block parent) = ?p" using t p by (auto simp: linked_tree_def lb_id_def)
  have L: "links (bt_id_to_block t') = insert (?p, ?i) (links ?B)"
    unfolding t' by (simp add: links_insert_block [OF p new] linkable_block_new_def del: fun_upd_apply)
  have up: "eb_round (lb_executed_block parent) < eb_round b" using V p idp by (auto simp: rounds_fit_def stored_in_def)
  have down: "eb_round b < eb_round (lb_executed_block lb)"
    if "?B j = Some lb" "eb_parent_id (lb_executed_block lb) = ?i" for j lb
    using that V by (auto simp: rounds_fit_def stored_in_def)
  have tree: "linked_tree (bt_id_to_block t')" unfolding t' using linked_tree_insert [OF t p new up down] by simp
  have exists: "block_exists j t' \<longleftrightarrow> j = ?i \<or> block_exists j t" for j using p by (auto simp: block_exists_def t')
  have notQ: "?i \<notin> set (bt_pruned_block_ids t)" using inv new by (auto simp: block_tree_inv_def list_all_iff block_exists_def)
  have leaf: "(?i, c) \<notin> links ?B" for c using new by (auto simp: links_def)
  have ne: "?p \<noteq> ?i" using p new by auto
  have desc: "(?r, j) \<in> (links ?B)\<^sup>*" if "(?r, j) \<in> (links (bt_id_to_block t'))\<^sup>*" "j \<noteq> ?i" for j
    using desc_insert_leaf [OF leaf that(1) [unfolded L] that(2) ne] .
  have "block_tree_inv t'"
    unfolding block_tree_inv_def
  proof (intro conjI allI impI)
    show "parents_first (links (bt_id_to_block t')) {} (bt_pruned_block_ids t')"
      unfolding L using inv notQ by (simp add: t' block_tree_inv_def parents_first_insert_leaf)
    show "(bt_commit_root_id t', j) \<notin> (links (bt_id_to_block t'))\<^sup>*" if "j \<in> set (bt_pruned_block_ids t')" for j
      using that inv notQ desc [of j] by (auto simp: t' block_tree_inv_def)
    show "q \<in> set (bt_pruned_block_ids t')" if "(q, bt_commit_root_id t') \<in> links (bt_id_to_block t')" for q
      using that inv root new by (auto simp: L block_tree_inv_def) (auto simp: t')
  qed (use inv tree exists in \<open>auto simp: block_tree_inv_def list_all_iff t'\<close>)
  moreover have "stored_in V t'" using V(1,3) p by (auto simp: stored_in_def t' linkable_block_new_def split: if_splits)
  ultimately show ?thesis by (simp add: res)
qed

lemma commit_callback_result:
  assumes inv: "block_tree_inv t" and iter: "\<And>A. set (iter A) = A \<and> distinct (iter A)" and ne: "blocks \<noteq> []"
    and n: "(bt_commit_root_id t, eb_id (last blocks)) \<in> (links (bt_id_to_block t))\<^sup>*"
    and l: "bi_id (lis_commit_info l) = eb_id (last blocks)"
      "bi_round (lis_commit_info (bt_highest_ledger_info t)) < bi_round (lis_commit_info l)"
  obtains ids where "commit_callback iter blocks l t = Some (Ok ids,
      (process_pruned_blocks ids t)\<lparr>bt_highest_ledger_info := l, bt_commit_root_id := eb_id (last blocks)\<rparr>)"
    and "set ids = {x. (bt_commit_root_id t, x) \<in> (links (bt_id_to_block t))\<^sup>* \<and> (eb_id (last blocks), x) \<notin> (links (bt_id_to_block t))\<^sup>*}"
    and "distinct ids" and "parents_first (links (bt_id_to_block t)) (set (bt_pruned_block_ids t)) ids"
proof -
  let ?n = "eb_id (last blocks)"
  from inv have t: "linked_tree (bt_id_to_block t)" and root: "block_exists (bt_commit_root_id t) t"
    and up: "\<And>p. (p, bt_commit_root_id t) \<in> links (bt_id_to_block t) \<Longrightarrow> p \<in> set (bt_pruned_block_ids t)"
    by (auto simp: block_tree_inv_def)
  obtain ids where find: "find_blocks_to_prune iter t ?n = Some (Ok ids)"
    and ids: "set ids = {x. (bt_commit_root_id t, x) \<in> (links (bt_id_to_block t))\<^sup>* \<and> (?n, x) \<notin> (links (bt_id_to_block t))\<^sup>*}"
      "distinct ids"
    and pf: "\<And>S. (\<And>p. (p, bt_commit_root_id t) \<in> links (bt_id_to_block t) \<Longrightarrow> p \<in> S) \<Longrightarrow> parents_first (links (bt_id_to_block t)) S ids"
    by (rule find_blocks_to_prune_result [OF t root n iter]) (rule that; blast)
  note pf' = pf [OF up]
  from root obtain rb where rb: "commit_root t = Ok rb" by (auto simp: commit_root_def get_block_def block_exists_def)
  let ?t1 = "process_pruned_blocks ids t"
  have "bt_id_to_block ?t1 ?n = bt_id_to_block t ?n"
    using commit_inv(2) [OF inv n ids pf', where x = ?n and l = l] by simp
  then have "block_exists ?n ?t1" using desc_present [OF n t] root by (simp add: block_exists_def)
  then have "commit_callback iter blocks l t = Some (Ok ids, ?t1\<lparr>bt_highest_ledger_info := l, bt_commit_root_id := ?n\<rparr>)"
    using ne rb find l by (simp add: commit_callback_def update_highest_ledger_info_def update_commit_root_def
        process_pruned_blocks_result sbind_def slift_def block_exists_def)
  from that [OF this ids pf'] show thesis .
qed

lemma block_tree_inv_cong:
  assumes "bt_id_to_block t' = bt_id_to_block t" "bt_commit_root_id t' = bt_commit_root_id t"
    "bt_pruned_block_ids t' = bt_pruned_block_ids t" "bt_max_pruned_blocks_in_mem t' = bt_max_pruned_blocks_in_mem t"
  shows "block_tree_inv t' = block_tree_inv t" and "stored_in V t' = stored_in V t"
  using assms by (simp_all add: block_tree_inv_def stored_in_def block_exists_def)

lemma insert_quorum_cert_frame:
  assumes "insert_quorum_cert qc t = (res, t')"
  shows "bt_id_to_block t' = bt_id_to_block t" and "bt_commit_root_id t' = bt_commit_root_id t"
    and "bt_pruned_block_ids t' = bt_pruned_block_ids t" and "bt_max_pruned_blocks_in_mem t' = bt_max_pruned_blocks_in_mem t"
proof -
  have t': "t' = snd (insert_quorum_cert qc t)" using assms by simp
  show "bt_id_to_block t' = bt_id_to_block t" "bt_commit_root_id t' = bt_commit_root_id t"
    "bt_pruned_block_ids t' = bt_pruned_block_ids t" "bt_max_pruned_blocks_in_mem t' = bt_max_pruned_blocks_in_mem t"
    unfolding t' by (simp_all add: insert_quorum_cert_def Let_def sbind_def sget_def split: option.split result.split)
qed

lemma block_tree_new_inv:
  assumes "block_tree_new root qc oc li m htc h2tc = Ok t" and "root \<in> V" and "rounds_fit V"
  shows "block_tree_inv t \<and> stored_in V t"
proof -
  have t: "bt_id_to_block t = [eb_id root \<mapsto> linkable_block_new root]" "bt_commit_root_id t = eb_id root"
    "bt_pruned_block_ids t = []"
    using assms(1) by (auto simp: block_tree_new_def split: if_splits)
  have L: "links (bt_id_to_block t) = {}" by (auto simp: t links_def linkable_block_new_def split: if_splits)
  have "eb_parent_id root \<noteq> eb_id root" using assms(2,3) by (auto simp: rounds_fit_def)
  then have "linked_tree (bt_id_to_block t)"
    by (auto simp: linked_tree_def L) (auto simp: t lb_id_def linkable_block_new_def split: if_splits)
  then show ?thesis using assms(2)
    by (auto simp: block_tree_inv_def L) (auto simp: t block_exists_def stored_in_def linkable_block_new_def split: if_splits)
qed

lemma tree_reachable_inv:
  assumes "tree_reachable iter V t" and "\<And>A. set (iter A) = A \<and> distinct (iter A)" and "rounds_fit V"
  shows "block_tree_inv t \<and> stored_in V t"
  using assms(1)
proof induction
  case (start root qc oc li m htc h2tc t)
  then show ?case using block_tree_new_inv assms(3) by blast
next
  case (insert t b res t')
  then show ?case using insert_block_inv assms(3) by blast
next
  case (certify t qc res t')
  from block_tree_inv_cong [OF insert_quorum_cert_frame [OF certify.hyps(2)]] certify.IH show ?case by simp
next
  case (order t i res t')
  then show ?case using block_tree_inv_cong [of t' t] by (auto simp: update_ordered_root_def split: if_splits)
next
  case (timeout t tc)
  then show ?case using block_tree_inv_cong [of "replace_timeout_cert tc t" t] by (simp add: replace_timeout_cert_def)
next
  case (timeout_2chain t tc2)
  then show ?case using block_tree_inv_cong [of "replace_2chain_timeout_cert tc2 t" t] by (simp add: replace_2chain_timeout_cert_def)
next
  case (commit t blocks l res t')
  from commit.IH have inv: "block_tree_inv t" and sV: "stored_in V t" by auto
  obtain ids where run: "commit_callback iter blocks l t = Some (Ok ids,
      (process_pruned_blocks ids t)\<lparr>bt_highest_ledger_info := l, bt_commit_root_id := eb_id (last blocks)\<rparr>)"
    and ids: "set ids = {x. (bt_commit_root_id t, x) \<in> (links (bt_id_to_block t))\<^sup>* \<and> (eb_id (last blocks), x) \<notin> (links (bt_id_to_block t))\<^sup>*}"
      "distinct ids" "parents_first (links (bt_id_to_block t)) (set (bt_pruned_block_ids t)) ids"
    by (rule commit_callback_result [OF inv assms(2) commit.hyps(2-5)])
  from run commit.hyps(6) have t': "t' = (process_pruned_blocks ids t)\<lparr>bt_highest_ledger_info := l, bt_commit_root_id := eb_id (last blocks)\<rparr>"
    by simp
  have "stored_in V t'" using sV by (auto simp: t' stored_in_def process_pruned_blocks_result without_def split: if_splits)
  with commit_inv(1) [OF inv commit.hyps(3) ids] show ?case by (simp add: t')
qed

section \<open>Paths\<close>

definition parent_links :: "'r block_tree \<Rightarrow> (hash_value \<times> hash_value) set" where
  "parent_links t = {(p, i). \<exists>b. get_block t i = Some b \<and> eb_parent_id b = p}"

text \<open>The path from a block to another, excluding the first and including the last.\<close>

definition chain_between :: "'r block_tree \<Rightarrow> hash_value \<Rightarrow> 'r executed_block list \<Rightarrow> hash_value \<Rightarrow> bool" where
  "chain_between t j path i \<longleftrightarrow>
     list_all (\<lambda>b. get_block t (eb_id b) = Some b) path \<and>
     successively (\<lambda>x y. eb_parent_id y = eb_id x) path \<and>
     (if path = [] then j = i else eb_parent_id (hd path) = j \<and> eb_id (last path) = i)"

lemma get_block_id: "linked_tree (bt_id_to_block t) \<Longrightarrow> get_block t i = Some b \<Longrightarrow> eb_id b = i"
  by (auto simp: linked_tree_def get_block_def lb_id_def)

lemma parent_round:
  assumes "linked_tree (bt_id_to_block t)" and "get_block t i = Some b" and "get_block t (eb_parent_id b) = Some p"
  shows "eb_round p < eb_round b"
proof -
  from assms(2,3) obtain lb pb where "bt_id_to_block t i = Some lb" "b = lb_executed_block lb"
    "bt_id_to_block t (eb_parent_id (lb_executed_block lb)) = Some pb" "p = lb_executed_block pb"
    by (auto simp: get_block_def)
  with assms(1) show ?thesis unfolding linked_tree_def by blast
qed

lemma chain_between_snoc:
  assumes "chain_between t j path (eb_parent_id b)" and "get_block t (eb_id b) = Some b"
  shows "chain_between t j (path @ [b]) (eb_id b)"
  using assms by (cases "path = []") (simp_all add: chain_between_def successively_append_iff)

lemma path_loop_ends:
  assumes t: "linked_tree (bt_id_to_block t)"
  shows "\<exists>r. path_loop t rr i res = Some r \<and>
    (\<forall>j xs. r = Some (j, xs) \<longrightarrow> (\<exists>ys jb. xs = res @ ys \<and> get_block t j = Some jb \<and> eb_round jb \<le> rr \<and> chain_between t j (rev ys) i))"
proof (induction "case get_block t i of None \<Rightarrow> 0 | Some b \<Rightarrow> Suc (unat (eb_round b))" arbitrary: i res rule: less_induct)
  case less
  show ?case
  proof (cases "get_block t i")
    case None
    then have "path_loop t rr i res = Some None" by (subst path_loop.simps) simp
    then show ?thesis by simp
  next
    case (Some b)
    note bid = get_block_id [OF t Some]
    show ?thesis
    proof (cases "eb_round b \<le> rr")
      case True
      then have "path_loop t rr i res = Some (Some (i, res))" by (subst path_loop.simps) (simp add: Some)
      with Some True show ?thesis by (intro exI [of _ "Some (i, res)"]) (simp add: chain_between_def)
    next
      case False
      have step: "path_loop t rr i res = path_loop t rr (eb_parent_id b) (res @ [b])"
        using False by (subst path_loop.simps) (simp add: Some)
      have "(case get_block t (eb_parent_id b) of None \<Rightarrow> 0 | Some b \<Rightarrow> Suc (unat (eb_round b))) <
          (case get_block t i of None \<Rightarrow> 0 | Some b \<Rightarrow> Suc (unat (eb_round b)))"
        using parent_round [OF t Some] by (auto simp: Some word_less_nat_alt split: option.splits)
      from less [OF this, of "res @ [b]"] obtain r where r: "path_loop t rr (eb_parent_id b) (res @ [b]) = Some r"
        and chain: "\<And>j xs. r = Some (j, xs) \<Longrightarrow> \<exists>ys jb. xs = (res @ [b]) @ ys \<and> get_block t j = Some jb \<and> eb_round jb \<le> rr \<and>
          chain_between t j (rev ys) (eb_parent_id b)" by blast
      have "\<exists>ys jb. xs = res @ ys \<and> get_block t j = Some jb \<and> eb_round jb \<le> rr \<and> chain_between t j (rev ys) i"
        if j: "r = Some (j, xs)" for j xs
      proof -
        from chain [OF j] obtain ys jb where ys: "xs = res @ (b # ys)" "get_block t j = Some jb" "eb_round jb \<le> rr"
          "chain_between t j (rev ys) (eb_parent_id b)" by auto
        have "chain_between t j (rev ys @ [b]) i" using chain_between_snoc [OF ys(4)] Some bid by simp
        with ys show ?thesis by (intro exI [of _ "b # ys"] exI [of _ jb]) simp
      qed
      with r step show ?thesis by (intro exI [of _ r]) simp
    qed
  qed
qed

lemma path_loop_complete:
  assumes t: "linked_tree (bt_id_to_block t)" and root: "get_block t j = Some jb" and anc: "(j, i) \<in> (parent_links t)\<^sup>*"
  shows "\<exists>xs ib. path_loop t (eb_round jb) i res = Some (Some (j, xs)) \<and> get_block t i = Some ib \<and> eb_round jb \<le> eb_round ib"
  using anc
proof (induction arbitrary: res rule: rtrancl_induct)
  case base
  have "path_loop t (eb_round jb) j res = Some (Some (j, res))" by (subst path_loop.simps) (simp add: root)
  with root show ?case by simp
next
  case (step p c)
  from step.hyps(2) obtain b where b: "get_block t c = Some b" "eb_parent_id b = p" by (auto simp: parent_links_def)
  from step.IH [of "res @ [b]"] obtain xs pb where pb: "path_loop t (eb_round jb) p (res @ [b]) = Some (Some (j, xs))"
    "get_block t p = Some pb" "eb_round jb \<le> eb_round pb" by blast
  have lt: "eb_round jb < eb_round b" using parent_round [OF t b(1)] pb b(2) by auto
  then have "\<not> eb_round b \<le> eb_round jb" by simp
  then have "path_loop t (eb_round jb) c res = path_loop t (eb_round jb) p (res @ [b])"
    by (subst path_loop.simps) (simp add: b)
  with pb b lt show ?case by auto
qed

lemma chain_between_anc:
  "chain_between t j path i \<Longrightarrow> (j, i) \<in> (parent_links t)\<^sup>*"
proof (induction path arbitrary: i rule: rev_induct)
  case (snoc b path)
  then have i: "i = eb_id b" and b: "get_block t (eb_id b) = Some b" by (auto simp: chain_between_def)
  from snoc.prems have "chain_between t j path (eb_parent_id b)"
    by (cases "path = []") (simp_all add: chain_between_def successively_append_iff)
  with snoc.IH have "(j, eb_parent_id b) \<in> (parent_links t)\<^sup>*" by blast
  moreover have "(eb_parent_id b, i) \<in> parent_links t" using b i by (auto simp: parent_links_def)
  ultimately show ?case by (rule rtrancl_into_rtrancl)
qed (simp add: chain_between_def)

lemma path_from_root_exact:
  assumes t: "linked_tree (bt_id_to_block t)" and root: "get_block t j = Some jb"
  shows "\<exists>r. path_from_root_to_block t i j (eb_round jb) = Some r \<and> (r \<noteq> None \<longleftrightarrow> (j, i) \<in> (parent_links t)\<^sup>*) \<and>
    (\<forall>path. r = Some path \<longrightarrow> chain_between t j path i)"
proof -
  from path_loop_ends [OF t, of "eb_round jb" i "[]"] obtain r where r: "path_loop t (eb_round jb) i [] = Some r"
    and chain: "\<And>k xs. r = Some (k, xs) \<Longrightarrow> chain_between t k (rev xs) i" by fastforce
  have none: "(j, i) \<notin> (parent_links t)\<^sup>*" if "r = None \<or> (\<exists>k xs. r = Some (k, xs) \<and> k \<noteq> j)"
    using path_loop_complete [OF t root, of i "[]"] r that by auto
  show ?thesis
  proof (cases r)
    case None
    with none r show ?thesis by (simp add: path_from_root_to_block_def)
  next
    case (Some kx)
    obtain k xs where kx: "r = Some (k, xs)" using Some by (cases kx) auto
    show ?thesis
    proof (cases "k = j")
      case True
      with kx r chain [OF kx] chain_between_anc show ?thesis by (auto simp: path_from_root_to_block_def)
    next
      case False
      with kx none r show ?thesis by (simp add: path_from_root_to_block_def)
    qed
  qed
qed

section \<open>Properties\<close>


text \<open>
  C20. \<open>find_blocks_to_prune\<close> ends, without a panic, and finds exactly what its comment says: the blocks below
  the commit root that are not in the tree of the next root, each once.
\<close>

theorem find_blocks_to_prune_exact:
  assumes "tree_reachable iter V t" and "\<forall>A. set (iter A) = A \<and> distinct (iter A)" and "rounds_fit V"
    and "(bt_commit_root_id t, n) \<in> (links (bt_id_to_block t))\<^sup>*"
  shows "\<exists>ids. find_blocks_to_prune iter t n = Some (Ok ids) \<and> distinct ids \<and>
    set ids = {x. (bt_commit_root_id t, x) \<in> (links (bt_id_to_block t))\<^sup>* \<and> (n, x) \<notin> (links (bt_id_to_block t))\<^sup>*}"
proof -
  have "linked_tree (bt_id_to_block t)" "block_exists (bt_commit_root_id t) t"
    using tree_reachable_inv [OF assms(1) _ assms(3)] assms(2) by (auto simp: block_tree_inv_def)
  moreover have "\<And>A. set (iter A) = A \<and> distinct (iter A)" using assms(2) by blast
  ultimately show ?thesis
    by - (rule find_blocks_to_prune_result [OF _ _ assms(4)], assumption+, intro exI conjI)
qed

text \<open>
  C19. A commit advances the root and loses nothing that is still needed: \<open>commit_callback\<close> ends, makes the
  committed block the commit root, and every block of its tree is stored as before; at most
  \<open>max_pruned_blocks_in_mem\<close> pruned blocks stay in memory.
\<close>

theorem commit_callback_keeps_subtree:
  assumes "tree_reachable iter V t" and "\<forall>A. set (iter A) = A \<and> distinct (iter A)" and "rounds_fit V"
    and "blocks \<noteq> []" and "(bt_commit_root_id t, eb_id (last blocks)) \<in> (links (bt_id_to_block t))\<^sup>*"
    and "bi_id (lis_commit_info l) = eb_id (last blocks)"
    and "bi_round (lis_commit_info (bt_highest_ledger_info t)) < bi_round (lis_commit_info l)"
  shows "\<exists>ids t'. commit_callback iter blocks l t = Some (Ok ids, t') \<and> bt_commit_root_id t' = eb_id (last blocks) \<and>
    length (bt_pruned_block_ids t') \<le> bt_max_pruned_blocks_in_mem t \<and>
    (\<forall>x. (eb_id (last blocks), x) \<in> (links (bt_id_to_block t))\<^sup>* \<longrightarrow> bt_id_to_block t' x = bt_id_to_block t x)"
proof -
  have iter: "\<And>A. set (iter A) = A \<and> distinct (iter A)" using assms(2) by blast
  have inv: "block_tree_inv t" using tree_reachable_inv [OF assms(1) iter assms(3)] by blast
  obtain ids where run: "commit_callback iter blocks l t = Some (Ok ids,
      (process_pruned_blocks ids t)\<lparr>bt_highest_ledger_info := l, bt_commit_root_id := eb_id (last blocks)\<rparr>)" (is "_ = Some (_, ?t)")
    and ids: "set ids = {x. (bt_commit_root_id t, x) \<in> (links (bt_id_to_block t))\<^sup>* \<and> (eb_id (last blocks), x) \<notin> (links (bt_id_to_block t))\<^sup>*}"
      "distinct ids" "parents_first (links (bt_id_to_block t)) (set (bt_pruned_block_ids t)) ids"
    by (rule commit_callback_result [OF inv iter assms(4-7)])
  have "length (bt_pruned_block_ids ?t) \<le> bt_max_pruned_blocks_in_mem t"
    by (simp add: process_pruned_blocks_result)
  with run commit_inv(2) [OF inv assms(5) ids] show ?thesis by (intro exI [of _ ids] exI [of _ ?t]) simp
qed

text \<open>
  C21. \<open>path_from_root_to_block\<close> ends, although it follows parent links without a bound; it finds a path
  exactly if the root is an ancestor of the block, and then returns the chain of blocks from the
  root, which is left out, to the block.
\<close>

theorem path_from_root_to_block_exact:
  assumes "tree_reachable iter V t" and "\<forall>A. set (iter A) = A \<and> distinct (iter A)" and "rounds_fit V"
    and "get_block t root = Some b"
  shows "\<exists>r. path_from_root_to_block t i root (eb_round b) = Some r \<and> (r \<noteq> None \<longleftrightarrow> (root, i) \<in> (parent_links t)\<^sup>*) \<and>
    (\<forall>path. r = Some path \<longrightarrow> chain_between t root path i)"
proof -
  have "linked_tree (bt_id_to_block t)" using tree_reachable_inv [OF assms(1) _ assms(3)] assms(2) by (auto simp: block_tree_inv_def)
  from path_from_root_exact [OF this assms(4)] show ?thesis .
qed

section \<open>Instances\<close>

text \<open>The tree of the comment on \<open>find_blocks_to_prune\<close>: B0 with child B1, whose children are B2 and B3, and B4 below B3.\<close>

definition ex_info :: "hash_value \<Rightarrow> round \<Rightarrow> block_info" where
  "ex_info i r = block_info_new 1 r i 0 0 0 None"

definition ex_cert :: "hash_value \<Rightarrow> round \<Rightarrow> quorum_cert" where
  "ex_cert i r = qc_new (vote_data_new (ex_info i r) (ex_info i r)) (lis_new (ledger_info_new (ex_info i r) 0) btree_new)"

definition ex_block :: "hash_value \<Rightarrow> round \<Rightarrow> hash_value \<Rightarrow> round \<Rightarrow> unit executed_block" where
  "ex_block i r p pr = \<lparr>eb_block = \<lparr>b_id = i, b_block_data = \<lparr>bd_epoch = 1, bd_round = r, bd_timestamp_usecs = 0,
      bd_quorum_cert = ex_cert p pr, bd_block_type = NilBlock\<rparr>, b_signature = None\<rparr>, eb_state_compute_result = ()\<rparr>"

definition ex_blocks :: "unit executed_block list" where
  "ex_blocks = [ex_block 11 1 10 0, ex_block 12 2 11 1, ex_block 13 3 11 1, ex_block 14 4 13 3]"

definition ex_root :: "unit executed_block" where
  "ex_root = ex_block 10 0 9 0"

definition ex_iter :: "hash_value set \<Rightarrow> hash_value list" where
  "ex_iter A = sorted_list_of_set A"

definition ex_tree0 :: "unit block_tree" where
  "ex_tree0 = \<lparr>bt_id_to_block = [10 \<mapsto> linkable_block_new ex_root], bt_ordered_root_id = 10, bt_commit_root_id = 10,
     bt_highest_certified_block_id = 10, bt_highest_quorum_cert = ex_cert 10 0, bt_highest_timeout_cert = None,
     bt_highest_2chain_timeout_cert = None, bt_highest_ordered_cert = ex_cert 10 0,
     bt_highest_ledger_info = qc_signed_ledger_info (ex_cert 10 0), bt_id_to_quorum_cert = [10 \<mapsto> ex_cert 10 0],
     bt_pruned_block_ids = [], bt_max_pruned_blocks_in_mem = 2\<rparr>"

definition ex_tree :: "unit block_tree" where
  "ex_tree = fold (\<lambda>b t. snd (insert_block b t)) ex_blocks ex_tree0"

definition ex_universe :: "unit executed_block set" where
  "ex_universe = set (ex_root # ex_blocks)"

lemma ex_iter_ok: "\<forall>A. set (ex_iter A) = A \<and> distinct (ex_iter A)"
  by (simp add: ex_iter_def)

lemma ex_rounds_fit: "rounds_fit ex_universe"
  by (auto simp: rounds_fit_def ex_universe_def ex_blocks_def ex_root_def ex_block_def eb_parent_id_def eb_id_def eb_round_def
      b_quorum_cert_def b_round_def ex_cert_def qc_new_def certified_block_def vote_data_new_def ex_info_def block_info_new_def)

lemma ex_tree0_new:
  "block_tree_new ex_root (ex_cert 10 0) (ex_cert 10 0) (qc_signed_ledger_info (ex_cert 10 0)) 2 None None = Ok ex_tree0"
proof -
  have "eb_id ex_root = 10" "bi_id (qc_commit_info (ex_cert 10 0)) = 10" "bi_id (certified_block (ex_cert 10 0)) = 10" by code_simp+
  then show ?thesis by (simp add: block_tree_new_def ex_tree0_def)
qed

lemma ex_tree_reachable: "tree_reachable ex_iter ex_universe ex_tree"
proof -
  have start: "tree_reachable ex_iter ex_universe ex_tree0"
    by (rule tree_reachable.start [OF ex_tree0_new]) (simp add: ex_universe_def)
  have run: "tree_reachable ex_iter ex_universe (fold (\<lambda>b t. snd (insert_block b t)) bs t)"
    if "tree_reachable ex_iter ex_universe t" "set bs \<subseteq> ex_universe" for bs t
    using that by (induction bs arbitrary: t) (auto intro: tree_reachable.insert [OF _ _ surjective_pairing])
  have "set ex_blocks \<subseteq> ex_universe" by (auto simp: ex_universe_def)
  from run [OF start this] show ?thesis unfolding ex_tree_def .
qed

lemma ex_tree_stored:
  "bt_id_to_block ex_tree 10 = Some \<lparr>lb_executed_block = ex_root, lb_children = {11}\<rparr>"
  "bt_id_to_block ex_tree 11 = Some \<lparr>lb_executed_block = ex_block 11 1 10 0, lb_children = {12, 13}\<rparr>"
  "bt_id_to_block ex_tree 13 = Some \<lparr>lb_executed_block = ex_block 13 3 11 1, lb_children = {14}\<rparr>"
  "bt_commit_root_id ex_tree = 10" "bt_highest_ledger_info ex_tree = qc_signed_ledger_info (ex_cert 10 0)"
  by code_simp+

lemma ex_tree_links: "(10, 13) \<in> (links (bt_id_to_block ex_tree))\<^sup>*" "(13, 14) \<in> (links (bt_id_to_block ex_tree))\<^sup>*"
proof -
  have "(10, 11) \<in> links (bt_id_to_block ex_tree)" "(11, 13) \<in> links (bt_id_to_block ex_tree)" "(13, 14) \<in> links (bt_id_to_block ex_tree)"
    by (simp_all add: links_def ex_tree_stored)
  then show "(10, 13) \<in> (links (bt_id_to_block ex_tree))\<^sup>*" "(13, 14) \<in> (links (bt_id_to_block ex_tree))\<^sup>*"
    by (auto intro: rtrancl_into_rtrancl)
qed


theorem find_blocks_to_prune_exact_witness:
  "\<exists>ids. find_blocks_to_prune ex_iter ex_tree 13 = Some (Ok ids) \<and> 10 \<in> set ids \<and> 14 \<notin> set ids"
proof -
  have "(13, 10) \<notin> (links (bt_id_to_block ex_tree))\<^sup>*"
  proof
    assume "(13, 10) \<in> (links (bt_id_to_block ex_tree))\<^sup>*"
    then have "stored_round (bt_id_to_block ex_tree) 13 \<le> stored_round (bt_id_to_block ex_tree) 10"
      using tree_reachable_inv [OF ex_tree_reachable _ ex_rounds_fit] ex_iter_ok by (intro desc_rounds) (auto simp: block_tree_inv_def)
    moreover have "eb_round ex_root = 0" "eb_round (ex_block 13 3 11 1) = 3" by code_simp+
    ultimately show False by (simp add: stored_round_def ex_tree_stored)
  qed
  with find_blocks_to_prune_exact [OF ex_tree_reachable ex_iter_ok ex_rounds_fit, of 13] ex_tree_links show ?thesis
    by (auto simp: ex_tree_stored)
qed

theorem commit_callback_keeps_subtree_witness:
  "\<exists>ids t'. commit_callback ex_iter [ex_block 13 3 11 1] (qc_signed_ledger_info (ex_cert 13 3)) ex_tree = Some (Ok ids, t') \<and>
     bt_commit_root_id t' = 13 \<and> bt_id_to_block t' 14 = bt_id_to_block ex_tree 14"
proof -
  have n: "eb_id (last [ex_block 13 3 11 1]) = 13" "bi_id (lis_commit_info (qc_signed_ledger_info (ex_cert 13 3))) = 13"
    "bi_round (lis_commit_info (qc_signed_ledger_info (ex_cert 10 0))) = 0" "bi_round (lis_commit_info (qc_signed_ledger_info (ex_cert 13 3))) = 3"
    by code_simp+
  show ?thesis
    using commit_callback_keeps_subtree [OF ex_tree_reachable ex_iter_ok ex_rounds_fit, of "[ex_block 13 3 11 1]" "qc_signed_ledger_info (ex_cert 13 3)"]
      ex_tree_links unfolding n ex_tree_stored by auto
qed

theorem path_from_root_to_block_exact_witness:
  "\<exists>r. path_from_root_to_block ex_tree 14 10 0 = Some r \<and> (\<forall>path. r = Some path \<longrightarrow> chain_between ex_tree 10 path 14)"
proof -
  have "get_block ex_tree 10 = Some ex_root" by (simp add: get_block_def ex_tree_stored)
  moreover have "eb_round ex_root = 0" by code_simp
  ultimately show ?thesis
    using path_from_root_to_block_exact [OF ex_tree_reachable ex_iter_ok ex_rounds_fit, of 10 ex_root 14] by auto
qed

end
