(* ===== verification/Spec2Isabelle.thy ===== *)
theory Spec2Isabelle
  imports Accumulator_Consistency Epoch_Change Safety_Properties Round_State Proposer_Election Block_Tree
begin

text \<open>
  A verification development for the consensus core of Diem: the types and checks of
  \<open>types/src\<close> and \<open>consensus/consensus-types/src\<close>, the component that decides what a validator signs
  (\<open>consensus/safety-rules/src\<close>), the storage under it (\<open>secure/storage/src\<close>), and the proofs that light
  clients verify.
\<close>

end
